(* ===== verification/Prelude.thy ===== *)
theory Prelude
  imports Main "HOL-Library.Word" "HOL-Library.Monad_Syntax"
begin

text \<open>
  Shared ground of the development: names for the C integer types, the model of
  \<open>memcpy\<close> on blocks of memory, and generic facts on lists, options and slices of a
  circular buffer that several components use.

  Undefined behaviour of C (an access outside an object, a dereferenced null pointer, a
  failed \<open>assert\<close>) is the value \<open>None\<close> of an \<open>option\<close> result, so that "the operation
  returns \<open>Some\<close>" is a memory-safety statement.
\<close>

section \<open>C integer types\<close>

type_synonym u8 = "8 word"
type_synonym u16 = "16 word"
type_synonym u32 = "32 word"
type_synonym u64 = "64 word"

text \<open>Hint collections: facts about memory blocks, and facts about circular slices.\<close>

named_theorems mem_simps
named_theorems slice_simps

section \<open>Options as results that may be undefined\<close>

lemma bind_eq_Some [simp]:
  "(Option.bind m f = Some y) \<longleftrightarrow> (\<exists>x. m = Some x \<and> f x = Some y)"
  by (cases m) auto

section \<open>Indices taken modulo a size\<close>

lemma mod_once_int:
  assumes "0 \<le> a" "a < 2 * c"
  shows "a mod c = (if a < c then a else a - (c :: int))"
proof (cases "a < c")
  case False
  have "a mod c = (a - c) mod c" by (simp only: minus_mod_self2)
  also have "\<dots> = a - c" using False assms by (intro mod_pos_pos_trivial) auto
  finally show ?thesis using False by simp
qed (use assms in simp)

section \<open>Blocks of memory\<close>

text \<open>
  \<open>memcpy (dst + d, src + s, n)\<close>: the new contents of the block \<open>dst\<close>, or \<open>None\<close> when the
  call would read or write outside a block.
\<close>

definition memcpy :: "'a list \<Rightarrow> int \<Rightarrow> 'a list \<Rightarrow> int \<Rightarrow> int \<Rightarrow> 'a list option" where
  "memcpy dst d src s n =
     (if 0 \<le> d \<and> 0 \<le> s \<and> 0 \<le> n \<and> d + n \<le> int (length dst) \<and> s + n \<le> int (length src)
      then Some (take (nat d) dst @ take (nat n) (drop (nat s) src) @ drop (nat (d + n)) dst)
      else None)"

lemma memcpy_ok [mem_simps]:
  "d + n \<le> length dst \<Longrightarrow> s + n \<le> length src \<Longrightarrow>
     memcpy dst (int d) src (int s) (int n) =
       Some (take d dst @ take n (drop s src) @ drop (d + n) dst)"
  by (simp add: memcpy_def nat_int_add)

lemma length_overwrite [simp]:
  "d + n \<le> length dst \<Longrightarrow> n \<le> length xs \<Longrightarrow>
     length (take d dst @ take n xs @ drop (d + n) dst) = length dst"
  by simp

lemma nth_overwrite:
  assumes "d + n \<le> length dst" "n \<le> length xs" "j < length dst"
  shows "(take d dst @ take n xs @ drop (d + n) dst) ! j =
         (if d \<le> j \<and> j < d + n then xs ! (j - d) else dst ! j)"
  using assms by (auto simp: nth_append not_less)

section \<open>Slices of a circular buffer\<close>

text \<open>The \<open>n\<close> cells of \<open>xs\<close> that start at index \<open>h\<close>, going round the end of \<open>xs\<close>.\<close>

definition ring_slice :: "'a list \<Rightarrow> nat \<Rightarrow> nat \<Rightarrow> 'a list" where
  "ring_slice xs h n = map (\<lambda>i. xs ! ((h + i) mod length xs)) [0..<n]"

lemma length_ring_slice [simp]: "length (ring_slice xs h n) = n"
  by (simp add: ring_slice_def)

lemma ring_slice_0 [simp]: "ring_slice xs h 0 = []"
  by (simp add: ring_slice_def)

lemma nth_ring_slice [simp]:
  "i < n \<Longrightarrow> ring_slice xs h n ! i = xs ! ((h + i) mod length xs)"
  by (simp add: ring_slice_def)

lemma ring_slice_mod [simp]: "ring_slice xs (h mod length xs) n = ring_slice xs h n"
  by (simp add: ring_slice_def mod_add_left_eq)

lemma ring_slice_append:
  "ring_slice xs h (n + m) = ring_slice xs h n @ ring_slice xs (h + n) m"
  by (rule nth_equalityI) (auto simp: nth_append ac_simps)

lemma ring_slice_drop [slice_simps]:
  "k \<le> n \<Longrightarrow> drop k (ring_slice xs h n) = ring_slice xs (h + k) (n - k)"
  by (rule nth_equalityI) (auto simp: ac_simps)

lemma ring_slice_take [slice_simps]:
  "k \<le> n \<Longrightarrow> take k (ring_slice xs h n) = ring_slice xs h k"
  by (rule nth_equalityI) auto

text \<open>A slice that does not pass the end of the block is a plain segment of it.\<close>

lemma ring_slice_linear:
  "h + n \<le> length xs \<Longrightarrow> ring_slice xs h n = take n (drop h xs)"
  by (rule nth_equalityI) (auto simp: mod_less)

text \<open>A slice that does pass it is two segments, the second from index zero.\<close>

lemma ring_slice_wrapped:
  assumes "h < length xs" "k \<le> length xs"
  shows "ring_slice xs h (length xs - h + k) = drop h xs @ take k xs"
proof -
  have "ring_slice xs h (length xs - h + k) =
          ring_slice xs h (length xs - h) @ ring_slice xs (h + (length xs - h)) k"
    by (rule ring_slice_append)
  also have "ring_slice xs h (length xs - h) = drop h xs"
    using assms by (simp add: ring_slice_linear)
  also have "ring_slice xs (h + (length xs - h)) k = ring_slice xs 0 k"
    using assms(1) ring_slice_mod [of xs "length xs" k] by simp
  also have "\<dots> = take k xs"
    using assms(2) by (simp add: ring_slice_linear)
  finally show ?thesis .
qed

lemma ring_slice_cong:
  assumes "length xs = length ys"
    and "\<And>i. i < n \<Longrightarrow> xs ! ((h + i) mod length ys) = ys ! ((h + i) mod length ys)"
  shows "ring_slice xs h n = ring_slice ys h n"
  using assms by (intro nth_equalityI) auto

lemma ring_slice_map [simp]:
  "0 < length xs \<Longrightarrow> ring_slice (map f xs) h n = map f (ring_slice xs h n)"
  by (rule nth_equalityI) auto

section \<open>Storing into a circular buffer\<close>

text \<open>The block \<open>xs\<close> with \<open>ys\<close> stored from index \<open>t\<close> on, going round the end.\<close>

definition ring_store :: "'a list \<Rightarrow> nat \<Rightarrow> 'a list \<Rightarrow> 'a list" where
  "ring_store xs t ys =
     map (\<lambda>j. let i = (j + length xs - t) mod length xs
              in if i < length ys then ys ! i else xs ! j) [0..<length xs]"

lemma length_ring_store [simp]: "length (ring_store xs t ys) = length xs"
  by (simp add: ring_store_def)

lemma ring_store_Nil [simp]: "ring_store xs t [] = xs"
  by (simp add: ring_store_def Let_def map_nth)

lemma nth_ring_store:
  assumes "t < length xs" "j < length xs"
  shows "ring_store xs t ys ! j =
           (if t \<le> j then (if j - t < length ys then ys ! (j - t) else xs ! j)
            else (if j + length xs - t < length ys then ys ! (j + length xs - t) else xs ! j))"
proof (cases "t \<le> j")
  case True
  then have "(j + length xs - t) mod length xs = j - t"
    using assms by (simp add: mod_if)
  with True assms show ?thesis by (simp add: ring_store_def)
next
  case False
  then have "(j + length xs - t) mod length xs = j + length xs - t"
    using assms by simp
  with False assms show ?thesis by (simp add: ring_store_def)
qed

lemma nth_ring_store_offset:
  assumes "t < length xs" "i < length xs"
  shows "ring_store xs t ys ! ((t + i) mod length xs) =
           (if i < length ys then ys ! i else xs ! ((t + i) mod length xs))"
  using assms by (cases "t + i < length xs") (auto simp: nth_ring_store mod_if)

lemma ring_slice_store_same:
  assumes "t < length xs" "length ys \<le> length xs"
  shows "ring_slice (ring_store xs t ys) t (length ys) = ys"
  using assms by (intro nth_equalityI) (auto simp: nth_ring_store_offset)

lemma ring_slice_store_other:
  assumes "h < length xs" "m + length ys \<le> length xs"
  shows "ring_slice (ring_store xs ((h + m) mod length xs) ys) h m = ring_slice xs h m"
proof (rule ring_slice_cong)
  fix i assume i: "i < m"
  define n where "n = length xs"
  have n: "0 < n" "m \<le> n" using assms by (auto simp: n_def)
  have "(h + i) mod n = ((h + m) mod n + (n - m + i)) mod n"
  proof -
    have "((h + m) mod n + (n - m + i)) mod n = (h + m + (n - m + i)) mod n"
      by (rule mod_add_left_eq)
    also have "h + m + (n - m + i) = (h + i) + n" using n(2) by simp
    finally show ?thesis by simp
  qed
  moreover have "ring_store xs ((h + m) mod n) ys ! (((h + m) mod n + (n - m + i)) mod n) =
      xs ! (((h + m) mod n + (n - m + i)) mod n)"
  proof -
    have "(h + m) mod n < length xs" "n - m + i < length xs" "\<not> n - m + i < length ys"
      using n i assms by (auto simp: n_def)
    then show ?thesis
      using nth_ring_store_offset [of "(h + m) mod n" xs "n - m + i" ys] by (simp add: n_def)
  qed
  ultimately show "ring_store xs ((h + m) mod length xs) ys ! ((h + i) mod length xs) =
      xs ! ((h + i) mod length xs)"
    by (simp add: n_def)
qed simp

lemma ring_store_linear:
  assumes "t < length xs" "t + length ys \<le> length xs"
  shows "take t xs @ ys @ drop (t + length ys) xs = ring_store xs t ys"
  using assms by (intro nth_equalityI) (auto simp: nth_ring_store nth_append not_less)

lemma ring_store_wrapped:
  assumes "t < length xs" "length ys \<le> length xs" "length xs - t \<le> length ys"
  shows "drop (length xs - t) ys @ drop (length ys - (length xs - t)) (take t xs) @
           take (length xs - t) ys = ring_store xs t ys"
proof (rule nth_equalityI)
  fix j assume j: "j < length (drop (length xs - t) ys @
    drop (length ys - (length xs - t)) (take t xs) @ take (length xs - t) ys)"
  have "length (drop (length xs - t) ys @ drop (length ys - (length xs - t)) (take t xs) @
      take (length xs - t) ys) = length xs"
    using assms by simp
  with j have "j < length xs" by (simp only:)
  with assms show "(drop (length xs - t) ys @ drop (length ys - (length xs - t)) (take t xs) @
      take (length xs - t) ys) ! j = ring_store xs t ys ! j"
    by (auto simp: nth_ring_store nth_append ac_simps)
qed (use assms in simp)

end
