(* ===== verification/Dict.thy ===== *)
theory Dict
  imports Prelude "HOL-Library.Multiset"
begin

text \<open>
  The hash table of \<^verbatim>\<open>util/dict.c\<close> and \<^verbatim>\<open>util/dict.h\<close>: two tables of chained buckets, moved from
  the first to the second one bucket at a time by \<open>dictRehash\<close>.

  A chain of \<open>dictEntry\<close> is a list, a table a list of chains; a table pointer that is NULL is
  the empty list. A \<open>dictEntry *\<close> is a location \<open>(table, bucket, position)\<close>. The value of
  an entry is \<open>None\<close> until it is set. \<open>unsigned long\<close> sizes and counts are \<open>nat\<close>: they count objects in
  memory and stay far below \<open>2 ^ 64\<close>. Hashes are 32-bit words, and the bucket index that
  \<open>_dictKeyIndex\<close> returns goes through \<open>int\<close> as in the code. Results are \<open>None\<close> where the
  code would read outside a table or fail an \<open>assert\<close>; allocation is taken to succeed.
  The static variable \<open>dict_can_resize\<close> is the argument \<open>can_resize\<close>.
\<close>

unbundle bit_operations_syntax

section \<open>Data\<close>

datatype ('k, 'v) dictEntry = Entry (de_key: 'k) (de_val: "'v option")

record ('k, 'v) dictht =
  ht_table :: "('k, 'v) dictEntry list list"
  ht_size :: nat
  ht_sizemask :: nat
  ht_used :: nat

record ('k, 'v, 'p) dictType =
  hashFunction :: "'k \<Rightarrow> u32"
  keyDup :: "('p \<Rightarrow> 'k \<Rightarrow> 'k) option"
  valDup :: "('p \<Rightarrow> 'v \<Rightarrow> 'v) option"
  keyCompare :: "('p \<Rightarrow> 'k \<Rightarrow> 'k \<Rightarrow> bool) option"
  keyDestructor :: bool
  valDestructor :: bool

record ('k, 'v, 'p) dict =
  d_type :: "('k, 'v, 'p) dictType"
  d_privdata :: 'p
  ht0 :: "('k, 'v) dictht"
  ht1 :: "('k, 'v) dictht"
  rehashidx :: int
  d_iterators :: int

datatype dict_rc = DICT_OK | DICT_ERR

text \<open>Calls that leave the hash table: destructors run, and the callback of \<open>_dictClear\<close>.\<close>

datatype ('k, 'v) dict_event = Freed_key 'k | Freed_val "'v option" | Callback

type_synonym entry_loc = "nat \<times> nat \<times> nat"

definition DICT_HT_INITIAL_SIZE :: nat where
  "DICT_HT_INITIAL_SIZE = 4"

definition LONG_MAX :: nat where
  "LONG_MAX = 2 ^ 63 - 1"

definition dict_force_resize_ratio :: nat where
  "dict_force_resize_ratio = 5"

section \<open>Macros of the header\<close>

definition dictFreeVal :: "('k, 'v, 'p) dict \<Rightarrow> ('k, 'v) dictEntry \<Rightarrow> ('k, 'v) dict_event list" where
  "dictFreeVal d e = (if valDestructor (d_type d) then [Freed_val (de_val e)] else [])"

definition dictFreeKey :: "('k, 'v, 'p) dict \<Rightarrow> ('k, 'v) dictEntry \<Rightarrow> ('k, 'v) dict_event list" where
  "dictFreeKey d e = (if keyDestructor (d_type d) then [Freed_key (de_key e)] else [])"

definition dict_key_copy :: "('k, 'v, 'p) dict \<Rightarrow> 'k \<Rightarrow> 'k" where
  "dict_key_copy d k = (case keyDup (d_type d) of Some f \<Rightarrow> f (d_privdata d) k | None \<Rightarrow> k)"

definition dict_val_copy :: "('k, 'v, 'p) dict \<Rightarrow> 'v \<Rightarrow> 'v" where
  "dict_val_copy d v = (case valDup (d_type d) of Some f \<Rightarrow> f (d_privdata d) v | None \<Rightarrow> v)"

definition dictCompareKeys :: "('k, 'v, 'p) dict \<Rightarrow> 'k \<Rightarrow> 'k \<Rightarrow> bool" where
  "dictCompareKeys d k1 k2 =
     (case keyCompare (d_type d) of Some f \<Rightarrow> f (d_privdata d) k1 k2 | None \<Rightarrow> k1 = k2)"

definition dictHashKey :: "('k, 'v, 'p) dict \<Rightarrow> 'k \<Rightarrow> nat" where
  "dictHashKey d k = unat (hashFunction (d_type d) k)"

definition dictSlots :: "('k, 'v, 'p) dict \<Rightarrow> nat" where
  "dictSlots d = ht_size (ht0 d) + ht_size (ht1 d)"

definition dictSize :: "('k, 'v, 'p) dict \<Rightarrow> nat" where
  "dictSize d = ht_used (ht0 d) + ht_used (ht1 d)"

definition dictIsRehashing :: "('k, 'v, 'p) dict \<Rightarrow> bool" where
  "dictIsRehashing d \<longleftrightarrow> rehashidx d \<noteq> -1"

section \<open>Access to tables and entries\<close>

definition dict_ht :: "('k, 'v, 'p) dict \<Rightarrow> nat \<Rightarrow> ('k, 'v) dictht" where
  "dict_ht d t = (if t = 0 then ht0 d else ht1 d)"

definition dict_set_ht :: "('k, 'v, 'p) dict \<Rightarrow> nat \<Rightarrow> ('k, 'v) dictht \<Rightarrow> ('k, 'v, 'p) dict" where
  "dict_set_ht d t h = (if t = 0 then d\<lparr>ht0 := h\<rparr> else d\<lparr>ht1 := h\<rparr>)"

definition ht_bucket :: "('k, 'v) dictht \<Rightarrow> nat \<Rightarrow> ('k, 'v) dictEntry list option" where
  "ht_bucket h i = (if i < length (ht_table h) then Some (ht_table h ! i) else None)"

text \<open>Link an entry in front of a chain and count it.\<close>

definition ht_link :: "('k, 'v) dictht \<Rightarrow> nat \<Rightarrow> ('k, 'v) dictEntry \<Rightarrow> ('k, 'v) dictht option" where
  "ht_link h i e = do {
     b \<leftarrow> ht_bucket h i;
     Some (h\<lparr>ht_table := (ht_table h)[i := e # b], ht_used := ht_used h + 1\<rparr>)
   }"

definition dict_entry_at :: "('k, 'v, 'p) dict \<Rightarrow> entry_loc \<Rightarrow> ('k, 'v) dictEntry option" where
  "dict_entry_at d loc =
     (case loc of (t, i, j) \<Rightarrow> do {
        b \<leftarrow> ht_bucket (dict_ht d t) i;
        if j < length b then Some (b ! j) else None
      })"

text \<open>\<open>dictSetVal\<close> on the entry at a location.\<close>

definition dictSetVal ::
  "('k, 'v, 'p) dict \<Rightarrow> entry_loc \<Rightarrow> 'v \<Rightarrow> ('k, 'v, 'p) dict option" where
  "dictSetVal d loc v =
     (case loc of (t, i, j) \<Rightarrow> do {
        b \<leftarrow> ht_bucket (dict_ht d t) i;
        e \<leftarrow> dict_entry_at d loc;
        let h = dict_ht d t in
        Some (dict_set_ht d t
          (h\<lparr>ht_table := (ht_table h)[i := b[j := Entry (de_key e) (Some (dict_val_copy d v))]]\<rparr>))
      })"

section \<open>Creating and resizing\<close>

definition dictReset :: "('k, 'v) dictht" where
  "dictReset = \<lparr>ht_table = [], ht_size = 0, ht_sizemask = 0, ht_used = 0\<rparr>"

definition dictCreate :: "('k, 'v, 'p) dictType \<Rightarrow> 'p \<Rightarrow> ('k, 'v, 'p) dict" where
  "dictCreate ty priv =
     \<lparr>d_type = ty, d_privdata = priv, ht0 = dictReset, ht1 = dictReset, rehashidx = -1,
      d_iterators = 0\<rparr>"

text \<open>The loop of \<open>_dictNextPower\<close>; its counter starts at 4 and is never zero.\<close>

function next_power_loop :: "nat \<Rightarrow> nat \<Rightarrow> nat" where
  "next_power_loop i sz = (if i \<ge> sz \<or> i = 0 then i else next_power_loop (i * 2) sz)"
  by pat_completeness auto
termination
  by (relation "measure (\<lambda>(i, sz). sz - i)") auto

declare next_power_loop.simps [simp del]

definition dictNextPower :: "nat \<Rightarrow> nat" where
  "dictNextPower sz =
     (if sz \<ge> LONG_MAX then LONG_MAX else next_power_loop DICT_HT_INITIAL_SIZE sz)"

definition dictExpand :: "('k, 'v, 'p) dict \<Rightarrow> nat \<Rightarrow> ('k, 'v, 'p) dict \<times> dict_rc" where
  "dictExpand d sz =
     (let realsize = dictNextPower sz in
      if dictIsRehashing d \<or> ht_used (ht0 d) > sz then (d, DICT_ERR)
      else
        let n = \<lparr>ht_table = replicate realsize [], ht_size = realsize,
                 ht_sizemask = realsize - 1, ht_used = 0\<rparr> in
        if ht_table (ht0 d) = [] then (d\<lparr>ht0 := n\<rparr>, DICT_OK)
        else (d\<lparr>ht1 := n, rehashidx := 0\<rparr>, DICT_OK))"

definition dictResize :: "bool \<Rightarrow> ('k, 'v, 'p) dict \<Rightarrow> ('k, 'v, 'p) dict \<times> dict_rc" where
  "dictResize can_resize d =
     (if \<not> can_resize \<or> dictIsRehashing d then (d, DICT_ERR)
      else dictExpand d (if ht_used (ht0 d) < DICT_HT_INITIAL_SIZE then DICT_HT_INITIAL_SIZE
                         else ht_used (ht0 d)))"

definition dictExpandIfNeeded ::
  "bool \<Rightarrow> ('k, 'v, 'p) dict \<Rightarrow> ('k, 'v, 'p) dict \<times> dict_rc" where
  "dictExpandIfNeeded can_resize d =
     (if dictIsRehashing d then (d, DICT_OK)
      else if ht_size (ht0 d) = 0 then dictExpand d DICT_HT_INITIAL_SIZE
      else if ht_used (ht0 d) \<ge> ht_size (ht0 d) \<and>
              (can_resize \<or> ht_used (ht0 d) div ht_size (ht0 d) > dict_force_resize_ratio)
      then dictExpand d (ht_used (ht0 d) * 2)
      else (d, DICT_OK))"

section \<open>Incremental rehashing\<close>

text \<open>The loop that moves one chain: each entry is linked into the new table, front first.\<close>

fun rehash_chain ::
  "('k, 'v, 'p) dict \<Rightarrow> ('k, 'v) dictEntry list \<Rightarrow> ('k, 'v, 'p) dict option" where
  "rehash_chain d [] = Some d"
| "rehash_chain d (de # nextde) = do {
     h1 \<leftarrow> ht_link (ht1 d) (dictHashKey d (de_key de) AND ht_sizemask (ht1 d)) de;
     rehash_chain (d\<lparr>ht0 := (ht0 d)\<lparr>ht_used := ht_used (ht0 d) - 1\<rparr>, ht1 := h1\<rparr>) nextde
   }"

text \<open>The loop over empty buckets; \<open>None\<close> when it runs off the table.\<close>

function skip_empty :: "'a list list \<Rightarrow> nat \<Rightarrow> nat option" where
  "skip_empty table i =
     (if i < length table then (if table ! i = [] then skip_empty table (Suc i) else Some i)
      else None)"
  by pat_completeness auto
termination
  by (relation "measure (\<lambda>(table, i). length table - i)") auto

declare skip_empty.simps [simp del]

text \<open>One round of the loop of \<open>dictRehash\<close>; the flag says whether the loop goes on.\<close>

definition dictRehash_round :: "('k, 'v, 'p) dict \<Rightarrow> (('k, 'v, 'p) dict \<times> bool) option" where
  "dictRehash_round d =
     (if ht_used (ht0 d) = 0
      then Some (d\<lparr>ht0 := ht1 d, ht1 := dictReset, rehashidx := -1\<rparr>, False)
      else if rehashidx d < 0 \<or> \<not> ht_size (ht0 d) > nat (rehashidx d) then None
      else do {
        i \<leftarrow> skip_empty (ht_table (ht0 d)) (nat (rehashidx d));
        b \<leftarrow> ht_bucket (ht0 d) i;
        d' \<leftarrow> rehash_chain d b;
        Some (d'\<lparr>ht0 := (ht0 d')\<lparr>ht_table := (ht_table (ht0 d'))[i := []]\<rparr>,
                 rehashidx := int i + 1\<rparr>, True)
      })"

fun dictRehash_loop :: "('k, 'v, 'p) dict \<Rightarrow> nat \<Rightarrow> (('k, 'v, 'p) dict \<times> bool) option" where
  "dictRehash_loop d 0 = Some (d, True)"
| "dictRehash_loop d (Suc n) = do {
     (d', go_on) \<leftarrow> dictRehash_round d;
     if go_on then dictRehash_loop d' n else Some (d', False)
   }"

text \<open>\<open>True\<close> is the result 1 of the code: there are still keys to move.\<close>

definition dictRehash :: "('k, 'v, 'p) dict \<Rightarrow> nat \<Rightarrow> (('k, 'v, 'p) dict \<times> bool) option" where
  "dictRehash d n = (if \<not> dictIsRehashing d then Some (d, False) else dictRehash_loop d n)"

definition dictRehashStep :: "('k, 'v, 'p) dict \<Rightarrow> ('k, 'v, 'p) dict option" where
  "dictRehashStep d = (if d_iterators d = 0 then map_option fst (dictRehash d 1) else Some d)"

text \<open>The step that lookups and updates take first.\<close>

definition rehash_on_use :: "('k, 'v, 'p) dict \<Rightarrow> ('k, 'v, 'p) dict option" where
  "rehash_on_use d = (if dictIsRehashing d then dictRehashStep d else Some d)"

section \<open>Finding, adding, replacing, deleting\<close>

text \<open>The position of the first key of a chain that satisfies the comparison.\<close>

fun chain_find :: "('k \<Rightarrow> bool) \<Rightarrow> ('k, 'v) dictEntry list \<Rightarrow> nat option" where
  "chain_find P [] = None"
| "chain_find P (he # next_he) =
     (if P (de_key he) then Some 0 else map_option Suc (chain_find P next_he))"

text \<open>The search of one table, for a key whose hash is \<open>h\<close>.\<close>

definition dict_find_in :: "('k, 'v, 'p) dict \<Rightarrow> nat \<Rightarrow> 'k \<Rightarrow> nat \<Rightarrow> entry_loc option option" where
  "dict_find_in d t key h =
     (let idx = h AND ht_sizemask (dict_ht d t) in do {
        b \<leftarrow> ht_bucket (dict_ht d t) idx;
        Some (map_option (\<lambda>j. (t, idx, j)) (chain_find (dictCompareKeys d key) b))
      })"

text \<open>The loop over the two tables: the second one is searched only while rehashing.\<close>

definition dict_find_both :: "('k, 'v, 'p) dict \<Rightarrow> 'k \<Rightarrow> nat \<Rightarrow> entry_loc option option" where
  "dict_find_both d key h = do {
     r0 \<leftarrow> dict_find_in d 0 key h;
     (case r0 of
        Some loc \<Rightarrow> Some (Some loc)
      | None \<Rightarrow> if \<not> dictIsRehashing d then Some None else dict_find_in d 1 key h)
   }"

definition dictFind ::
  "('k, 'v, 'p) dict \<Rightarrow> 'k \<Rightarrow> (('k, 'v, 'p) dict \<times> entry_loc option) option" where
  "dictFind d key =
     (if ht_size (ht0 d) = 0 then Some (d, None)
      else do {
        d1 \<leftarrow> rehash_on_use d;
        r \<leftarrow> dict_find_both d1 key (dictHashKey d1 key);
        Some (d1, r)
      })"

definition dictFetchValue ::
  "('k, 'v, 'p) dict \<Rightarrow> 'k \<Rightarrow> (('k, 'v, 'p) dict \<times> 'v option option) option" where
  "dictFetchValue d key = do {
     (d1, r) \<leftarrow> dictFind d key;
     (case r of
        None \<Rightarrow> Some (d1, None)
      | Some loc \<Rightarrow> do { he \<leftarrow> dict_entry_at d1 loc; Some (d1, Some (de_val he)) })
   }"

text \<open>The conversion of a 32-bit \<open>unsigned int\<close> to \<open>int\<close>.\<close>

definition int_of_uint :: "nat \<Rightarrow> int" where
  "int_of_uint n = sint (word_of_nat n :: u32)"

text \<open>\<open>_dictKeyIndex\<close>: the bucket for a new key, or -1 when the key is present.\<close>

definition dictKeyIndex ::
  "bool \<Rightarrow> ('k, 'v, 'p) dict \<Rightarrow> 'k \<Rightarrow> (('k, 'v, 'p) dict \<times> int) option" where
  "dictKeyIndex can_resize d key =
     (case dictExpandIfNeeded can_resize d of
        (d1, DICT_ERR) \<Rightarrow> Some (d1, -1)
      | (d1, DICT_OK) \<Rightarrow>
          (let h = dictHashKey d1 key in do {
             r \<leftarrow> dict_find_both d1 key h;
             Some (d1, case r of
                Some _ \<Rightarrow> -1
              | None \<Rightarrow> int_of_uint (h AND ht_sizemask (dict_ht d1 (if dictIsRehashing d1 then 1 else 0))))
           }))"

text \<open>A negative \<open>index\<close> other than -1 indexes the table out of bounds.\<close>

definition dictAddRaw ::
  "bool \<Rightarrow> ('k, 'v, 'p) dict \<Rightarrow> 'k \<Rightarrow> (('k, 'v, 'p) dict \<times> entry_loc option) option" where
  "dictAddRaw can_resize d0 key = do {
     d1 \<leftarrow> rehash_on_use d0;
     (d, index) \<leftarrow> dictKeyIndex can_resize d1 key;
     if index = -1 then Some (d, None)
     else if index < 0 then None
     else
       let t = (if dictIsRehashing d then 1 else 0) in do {
         ht \<leftarrow> ht_link (dict_ht d t) (nat index) (Entry (dict_key_copy d key) None);
         Some (dict_set_ht d t ht, Some (t, nat index, 0))
       }
   }"

definition dictAdd ::
  "bool \<Rightarrow> ('k, 'v, 'p) dict \<Rightarrow> 'k \<Rightarrow> 'v \<Rightarrow> (('k, 'v, 'p) dict \<times> dict_rc) option" where
  "dictAdd can_resize d key val = do {
     (d1, r) \<leftarrow> dictAddRaw can_resize d key;
     (case r of
        None \<Rightarrow> Some (d1, DICT_ERR)
      | Some entry \<Rightarrow> do { d2 \<leftarrow> dictSetVal d1 entry val; Some (d2, DICT_OK) })
   }"

text \<open>The \<open>bool\<close> is the result 1 of the code: the key was added from scratch.\<close>

definition dictReplace ::
  "bool \<Rightarrow> ('k, 'v, 'p) dict \<Rightarrow> 'k \<Rightarrow> 'v \<Rightarrow>
     (('k, 'v, 'p) dict \<times> bool \<times> ('k, 'v) dict_event list) option" where
  "dictReplace can_resize d key val = do {
     (d1, rc) \<leftarrow> dictAdd can_resize d key val;
     if rc = DICT_OK then Some (d1, True, [])
     else do {
       (d2, r) \<leftarrow> dictFind d1 key;
       entry \<leftarrow> r;
       auxentry \<leftarrow> dict_entry_at d2 entry;
       d3 \<leftarrow> dictSetVal d2 entry val;
       Some (d3, False, dictFreeVal d3 auxentry)
     }
   }"

definition dictReplaceRaw ::
  "bool \<Rightarrow> ('k, 'v, 'p) dict \<Rightarrow> 'k \<Rightarrow> (('k, 'v, 'p) dict \<times> entry_loc option) option" where
  "dictReplaceRaw can_resize d key = do {
     (d1, r) \<leftarrow> dictFind d key;
     (case r of Some entry \<Rightarrow> Some (d1, Some entry) | None \<Rightarrow> dictAddRaw can_resize d1 key)
   }"

text \<open>Unlink an entry from its chain and uncount it.\<close>

definition dict_unlink :: "('k, 'v, 'p) dict \<Rightarrow> entry_loc \<Rightarrow> ('k, 'v, 'p) dict option" where
  "dict_unlink d loc =
     (case loc of (t, i, j) \<Rightarrow>
        let h = dict_ht d t in do {
          b \<leftarrow> ht_bucket h i;
          Some (dict_set_ht d t
            (h\<lparr>ht_table := (ht_table h)[i := take j b @ drop (Suc j) b], ht_used := ht_used h - 1\<rparr>))
        })"

definition dictGenericDelete ::
  "('k, 'v, 'p) dict \<Rightarrow> 'k \<Rightarrow> bool \<Rightarrow>
     (('k, 'v, 'p) dict \<times> dict_rc \<times> ('k, 'v) dict_event list) option" where
  "dictGenericDelete d key nofree =
     (if ht_size (ht0 d) = 0 then Some (d, DICT_ERR, [])
      else do {
        d1 \<leftarrow> rehash_on_use d;
        r \<leftarrow> dict_find_both d1 key (dictHashKey d1 key);
        (case r of
           None \<Rightarrow> Some (d1, DICT_ERR, [])
         | Some loc \<Rightarrow> do {
             he \<leftarrow> dict_entry_at d1 loc;
             d2 \<leftarrow> dict_unlink d1 loc;
             Some (d2, DICT_OK, if nofree then [] else dictFreeKey d1 he @ dictFreeVal d1 he)
           })
      })"

definition dictDelete where
  "dictDelete d key = dictGenericDelete d key False"

definition dictDeleteNoFree where
  "dictDeleteNoFree d key = dictGenericDelete d key True"

section \<open>Clearing\<close>

text \<open>The loop of \<open>_dictClear\<close> over the buckets from index \<open>i\<close>, while entries are left.\<close>

fun clear_loop ::
  "('k, 'v, 'p) dict \<Rightarrow> bool \<Rightarrow> ('k, 'v) dictEntry list list \<Rightarrow> nat \<Rightarrow> nat \<Rightarrow> ('k, 'v) dict_event list" where
  "clear_loop d callback [] i used = []"
| "clear_loop d callback (b # bs) i used =
     (if used = 0 then []
      else (if callback \<and> i AND 65535 = 0 then [Callback] else []) @
           concat (map (\<lambda>he. dictFreeKey d he @ dictFreeVal d he) b) @
           clear_loop d callback bs (i + 1) (used - length b))"

text \<open>\<open>_dictClear\<close>: the table afterwards and the calls made.\<close>

definition dictClear ::
  "('k, 'v, 'p) dict \<Rightarrow> ('k, 'v) dictht \<Rightarrow> bool \<Rightarrow> ('k, 'v) dictht \<times> ('k, 'v) dict_event list" where
  "dictClear d ht callback =
     (dictReset, clear_loop d callback (take (ht_size ht) (ht_table ht)) 0 (ht_used ht))"

definition dictEmpty ::
  "('k, 'v, 'p) dict \<Rightarrow> bool \<Rightarrow> ('k, 'v, 'p) dict \<times> ('k, 'v) dict_event list" where
  "dictEmpty d callback =
     (case dictClear d (ht0 d) callback of (h0, ev0) \<Rightarrow>
        case dictClear d (ht1 d) callback of (h1, ev1) \<Rightarrow>
          (d\<lparr>ht0 := h0, ht1 := h1, rehashidx := -1, d_iterators := 0\<rparr>, ev0 @ ev1))"

text \<open>\<open>dictRelease\<close> frees the dictionary itself: only the calls are left.\<close>

definition dictRelease :: "('k, 'v, 'p) dict \<Rightarrow> ('k, 'v) dict_event list" where
  "dictRelease d = snd (dictClear d (ht0 d) False) @ snd (dictClear d (ht1 d) False)"

end
