(* ===== verification/Dict_Map.thy ===== *)
theory Dict_Map
  imports Dict
begin

text \<open>
  The dictionary of \<open>Dict\<close> is a finite map. This theory has the well-formedness invariant of
  a \<open>dict\<close>, which holds between any two calls also while a rehash is under way, and the
  lemmas that every operation keeps it, never leaves a table, and acts on the map as the
  corresponding map operation does, whatever amount of rehashing it does on the way.
\<close>

section \<open>Lists of chains\<close>

lemma nat_and_mask: "(x::nat) AND (2 ^ k - Suc 0) = x mod 2 ^ k"
proof -
  have "2 ^ k - Suc 0 = (mask k :: nat)" by (simp add: mask_eq_exp_minus_1)
  then show ?thesis by (simp only: take_bit_eq_mask [symmetric] take_bit_eq_mod)
qed

lemma mset_concat_update:
  assumes "i < length xs"
  shows "mset (concat (xs[i := ys])) + mset (xs ! i) = mset (concat xs) + mset ys"
proof -
  have "concat xs = concat (take i xs) @ xs ! i @ concat (drop (Suc i) xs)"
    by (subst id_take_nth_drop [OF assms]) simp
  moreover have "concat (xs[i := ys]) = concat (take i xs) @ ys @ concat (drop (Suc i) xs)"
    using assms by (simp add: upd_conv_take_nth_drop)
  ultimately show ?thesis by simp
qed

lemma nth_subset_concat: "i < length xs \<Longrightarrow> set (xs ! i) \<subseteq> set (concat xs)"
  by (auto intro!: bexI [of _ "xs ! i"])

section \<open>One table\<close>

definition ht_entries :: "('k, 'v) dictht \<Rightarrow> ('k, 'v) dictEntry list" where
  "ht_entries h = concat (ht_table h)"

text \<open>
  A table is empty or has a power of two of buckets; its count is right; every entry is in
  the bucket of its key's hash.
\<close>

definition ht_wf :: "('k \<Rightarrow> nat) \<Rightarrow> ('k, 'v) dictht \<Rightarrow> bool" where
  "ht_wf H h \<longleftrightarrow>
     length (ht_table h) = ht_size h \<and> ht_used h = length (ht_entries h) \<and>
     (ht_size h = 0 \<and> ht_sizemask h = 0 \<or>
      (\<exists>k. ht_size h = 2 ^ k) \<and> ht_sizemask h = ht_size h - 1) \<and>
     (\<forall>i < ht_size h. \<forall>e \<in> set (ht_table h ! i). H (de_key e) AND ht_sizemask h = i)"

lemma ht_wf_reset [simp]: "ht_wf H dictReset"
  by (simp add: ht_wf_def dictReset_def ht_entries_def)

lemma ht_fields_reset [simp]:
  "ht_table dictReset = []" "ht_size dictReset = 0" "ht_used dictReset = 0" "ht_sizemask dictReset = 0"
  by (simp_all add: dictReset_def)

lemma ht_entries_reset [simp]: "ht_entries dictReset = []"
  by (simp add: ht_entries_def dictReset_def)

lemma ht_index_less:
  assumes "ht_wf H h" "0 < ht_size h"
  shows "x AND ht_sizemask h < ht_size h"
  using assms by (auto simp: ht_wf_def nat_and_mask)

lemma ht_bucket_ok:
  assumes "ht_wf H h" "0 < ht_size h"
  shows "ht_bucket h (x AND ht_sizemask h) = Some (ht_table h ! (x AND ht_sizemask h))"
  using ht_index_less [OF assms, of x] assms(1) by (simp add: ht_bucket_def ht_wf_def)

text \<open>An entry is found nowhere but in the bucket of its key.\<close>

lemma ht_entry_bucket:
  assumes "ht_wf H h" "e \<in> set (ht_entries h)"
  shows "e \<in> set (ht_table h ! (H (de_key e) AND ht_sizemask h))"
proof -
  obtain b where "b \<in> set (ht_table h)" "e \<in> set b"
    using assms(2) by (auto simp: ht_entries_def)
  then obtain i where "i < length (ht_table h)" "e \<in> set (ht_table h ! i)"
    by (auto simp: in_set_conv_nth)
  with assms(1) show ?thesis by (auto simp: ht_wf_def)
qed

lemma ht_link_ok:
  assumes wf: "ht_wf H h" and pos: "0 < ht_size h"
  shows "\<exists>h'. ht_link h (H (de_key e) AND ht_sizemask h) e = Some h' \<and> ht_wf H h' \<and>
           mset (ht_entries h') = add_mset e (mset (ht_entries h)) \<and>
           ht_size h' = ht_size h \<and> ht_sizemask h' = ht_sizemask h"
proof -
  let ?i = "H (de_key e) AND ht_sizemask h"
  let ?h = "h\<lparr>ht_table := (ht_table h)[?i := e # ht_table h ! ?i], ht_used := ht_used h + 1\<rparr>"
  have i: "?i < length (ht_table h)"
    using ht_index_less [OF wf pos] wf by (simp add: ht_wf_def)
  have m: "mset (ht_entries ?h) = add_mset e (mset (ht_entries h))"
    using mset_concat_update [OF i, of "e # ht_table h ! ?i"] by (simp add: ht_entries_def)
  have "length (ht_entries ?h) = Suc (length (ht_entries h))"
    using arg_cong [OF m, of size] by simp
  then have "ht_wf H ?h"
    using wf i by (auto simp: ht_wf_def nth_list_update)
  then show ?thesis
    using m ht_bucket_ok [OF wf pos] by (simp add: ht_link_def)
qed

text \<open>Removing a position from a chain.\<close>

lemma mset_remove_nth: "j < length b \<Longrightarrow> add_mset (b ! j) (mset (take j b @ drop (Suc j) b)) = mset b"
  by (metis id_take_nth_drop mset.simps(2) mset_append union_mset_add_mset_right)

section \<open>The whole dictionary\<close>

definition dict_entries :: "('k, 'v, 'p) dict \<Rightarrow> ('k, 'v) dictEntry list" where
  "dict_entries d = ht_entries (ht0 d) @ ht_entries (ht1 d)"

text \<open>
  The invariant. While rehashing both tables exist and the first \<open>rehashidx\<close> buckets of the
  old one have been moved; otherwise the second table is unused.
\<close>

definition dict_wf :: "('k, 'v, 'p) dict \<Rightarrow> bool" where
  "dict_wf d \<longleftrightarrow>
     ht_wf (dictHashKey d) (ht0 d) \<and> ht_wf (dictHashKey d) (ht1 d) \<and>
     distinct (map de_key (dict_entries d)) \<and>
     (if dictIsRehashing d
      then 0 \<le> rehashidx d \<and> rehashidx d \<le> int (ht_size (ht0 d)) \<and>
           0 < ht_size (ht0 d) \<and> 0 < ht_size (ht1 d) \<and>
           (\<forall>i < ht_size (ht0 d). int i < rehashidx d \<longrightarrow> ht_table (ht0 d) ! i = [])
      else ht1 d = dictReset)"

text \<open>
  What the dictionary needs of its \<open>dictType\<close>: comparison decides equality of keys, and
  copies are equal to their originals.
\<close>

definition type_ok :: "('k, 'v, 'p) dict \<Rightarrow> bool" where
  "type_ok d \<longleftrightarrow>
     (\<forall>k1 k2. dictCompareKeys d k1 k2 \<longleftrightarrow> k1 = k2) \<and> (\<forall>k. dict_key_copy d k = k) \<and>
     (\<forall>v. dict_val_copy d v = v)"

text \<open>The map a dictionary stands for; the value of an entry that was only added raw is \<open>None\<close>.\<close>

definition dict_map :: "('k, 'v, 'p) dict \<Rightarrow> ('k \<rightharpoonup> 'v option)" where
  "dict_map d = map_of (map (\<lambda>e. (de_key e, de_val e)) (dict_entries d))"

text \<open>The fields no operation on the tables touches.\<close>

definition same_frame :: "('k, 'v, 'p) dict \<Rightarrow> ('k, 'v, 'p) dict \<Rightarrow> bool" where
  "same_frame d d' \<longleftrightarrow>
     d_type d' = d_type d \<and> d_privdata d' = d_privdata d \<and> d_iterators d' = d_iterators d"

lemma same_frame_refl [simp]: "same_frame d d"
  by (simp add: same_frame_def)

lemma same_frame_trans: "same_frame d1 d2 \<Longrightarrow> same_frame d2 d3 \<Longrightarrow> same_frame d1 d3"
  by (simp add: same_frame_def)

lemma same_frame_cong:
  assumes "same_frame d d'"
  shows "dictHashKey d' = dictHashKey d" "dictCompareKeys d' = dictCompareKeys d"
    "dict_key_copy d' = dict_key_copy d" "dict_val_copy d' = dict_val_copy d"
    "type_ok d' = type_ok d" "dictFreeKey d' = dictFreeKey d" "dictFreeVal d' = dictFreeVal d"
proof -
  have eqs: "d_type d' = d_type d" "d_privdata d' = d_privdata d"
    using assms by (simp_all add: same_frame_def)
  show "dictHashKey d' = dictHashKey d" "dictCompareKeys d' = dictCompareKeys d"
    "dict_key_copy d' = dict_key_copy d" "dict_val_copy d' = dict_val_copy d"
    "type_ok d' = type_ok d" "dictFreeKey d' = dictFreeKey d" "dictFreeVal d' = dictFreeVal d"
    by (simp_all only: eqs dictHashKey_def dictCompareKeys_def dict_key_copy_def
        dict_val_copy_def type_ok_def dictFreeKey_def dictFreeVal_def fun_eq_iff simp_thms)
qed

lemma same_frame_updates [simp]:
  "same_frame d (d\<lparr>ht0 := h\<rparr>)" "same_frame d (d\<lparr>ht1 := h\<rparr>)" "same_frame d (d\<lparr>rehashidx := i\<rparr>)"
  "same_frame d (d\<lparr>ht0 := h, ht1 := g\<rparr>)" "same_frame d (d\<lparr>ht1 := h, rehashidx := i\<rparr>)"
  "same_frame d (d\<lparr>ht0 := h, rehashidx := i\<rparr>)" "same_frame d (d\<lparr>ht0 := h, ht1 := g, rehashidx := i\<rparr>)"
  "same_frame d (dict_set_ht d t h)"
  by (simp_all add: same_frame_def dict_set_ht_def)

lemma dictHashKey_updates [simp]:
  "dictHashKey (d\<lparr>ht0 := h\<rparr>) = dictHashKey d" "dictHashKey (d\<lparr>ht1 := h\<rparr>) = dictHashKey d"
  "dictHashKey (d\<lparr>rehashidx := i\<rparr>) = dictHashKey d"
  by (simp_all add: dictHashKey_def fun_eq_iff)

text \<open>Which entries there are decides the map; their order does not matter.\<close>

lemma dict_map_Some_iff:
  assumes "distinct (map de_key (dict_entries d))"
  shows "dict_map d k = Some v \<longleftrightarrow> Entry k v \<in> set (dict_entries d)"
proof -
  have "distinct (map fst (map (\<lambda>e. (de_key e, de_val e)) (dict_entries d)))"
    using assms by (simp add: comp_def)
  from map_of_eq_Some_iff [OF this, of k v] show ?thesis
    by (force simp: dict_map_def)
qed

lemma dict_map_None_iff: "dict_map d k = None \<longleftrightarrow> k \<notin> de_key ` set (dict_entries d)"
  by (force simp: dict_map_def map_of_eq_None_iff)

lemma distinct_keys_mset:
  "mset es = mset es' \<Longrightarrow> distinct (map de_key es) = distinct (map de_key es')"
  by (metis mset_eq_imp_distinct_iff mset_map)

lemma dict_map_mset_cong:
  assumes "mset (dict_entries d') = mset (dict_entries d)" "distinct (map de_key (dict_entries d))"
  shows "dict_map d' = dict_map d"
proof
  fix k
  have d': "distinct (map de_key (dict_entries d'))"
    using distinct_keys_mset [OF assms(1)] assms(2) by simp
  have s: "set (dict_entries d') = set (dict_entries d)"
    using assms(1) by (rule mset_eq_setD)
  have "dict_map d' k = Some v \<longleftrightarrow> dict_map d k = Some v" for v
    by (simp add: dict_map_Some_iff assms(2) d' s)
  then show "dict_map d' k = dict_map d k"
    by (metis not_Some_eq)
qed

section \<open>Rehashing\<close>

text \<open>Moving a chain moves its entries into the second table, and changes nothing else.\<close>

lemma rehash_chain_ok:
  assumes "ht_wf (dictHashKey d) (ht1 d)" "0 < ht_size (ht1 d)"
  shows "\<exists>h1. rehash_chain d es =
             Some (d\<lparr>ht0 := (ht0 d)\<lparr>ht_used := ht_used (ht0 d) - length es\<rparr>, ht1 := h1\<rparr>) \<and>
           ht_wf (dictHashKey d) h1 \<and> ht_size h1 = ht_size (ht1 d) \<and>
           mset (ht_entries h1) = mset es + mset (ht_entries (ht1 d))"
  using assms
proof (induction es arbitrary: d)
  case Nil
  then show ?case by (intro exI [of _ "ht1 d"]) simp
next
  case (Cons e es)
  obtain h where h: "ht_link (ht1 d) (dictHashKey d (de_key e) AND ht_sizemask (ht1 d)) e = Some h"
    "ht_wf (dictHashKey d) h" "mset (ht_entries h) = add_mset e (mset (ht_entries (ht1 d)))"
    "ht_size h = ht_size (ht1 d)"
    using ht_link_ok [OF Cons.prems, of e] by blast
  let ?d = "d\<lparr>ht0 := (ht0 d)\<lparr>ht_used := ht_used (ht0 d) - 1\<rparr>, ht1 := h\<rparr>"
  have "ht_wf (dictHashKey ?d) (ht1 ?d)" "0 < ht_size (ht1 ?d)"
    using h(2,4) Cons.prems(2) by simp_all
  from Cons.IH [OF this] h show ?case by (auto simp: add.commute)
qed

lemma skip_empty_ok:
  assumes "\<exists>j. i \<le> j \<and> j < length table \<and> table ! j \<noteq> []"
  shows "\<exists>j. skip_empty table i = Some j \<and> i \<le> j \<and> j < length table \<and> table ! j \<noteq> [] \<and>
           (\<forall>k. i \<le> k \<and> k < j \<longrightarrow> table ! k = [])"
  using assms
proof (induction table i rule: skip_empty.induct)
  case (1 table i)
  have i: "i < length table" using "1.prems" by auto
  show ?case
  proof (cases "table ! i = []")
    case False
    with i show ?thesis by (subst skip_empty.simps) auto
  next
    case True
    have "\<exists>j. Suc i \<le> j \<and> j < length table \<and> table ! j \<noteq> []"
      using "1.prems" True by (metis le_eq_less_or_eq Suc_leI)
    from "1.IH" [OF i True this] obtain j where j: "skip_empty table (Suc i) = Some j"
      "Suc i \<le> j" "j < length table" "table ! j \<noteq> []" "\<forall>k. Suc i \<le> k \<and> k < j \<longrightarrow> table ! k = []"
      by blast
    have "\<forall>k. i \<le> k \<and> k < j \<longrightarrow> table ! k = []"
      using j(5) True by (metis le_eq_less_or_eq Suc_leI)
    with i True j show ?thesis
      by (subst skip_empty.simps) (auto intro!: exI [of _ j])
  qed
qed

text \<open>A bucket whose entries have been taken out.\<close>

lemma ht_wf_clear_bucket:
  assumes wf: "ht_wf H h" and i: "i < ht_size h"
  shows "ht_wf H (h\<lparr>ht_table := (ht_table h)[i := []], ht_used := ht_used h - length (ht_table h ! i)\<rparr>)"
    and "mset (ht_entries (h\<lparr>ht_table := (ht_table h)[i := []], ht_used := u\<rparr>)) + mset (ht_table h ! i)
         = mset (ht_entries h)"
proof -
  have l: "i < length (ht_table h)" using wf i by (simp add: ht_wf_def)
  have m: "mset (concat ((ht_table h)[i := []])) + mset (ht_table h ! i) = mset (ht_entries h)"
    using mset_concat_update [OF l, of "[]"] by (simp add: ht_entries_def)
  then show "mset (ht_entries (h\<lparr>ht_table := (ht_table h)[i := []], ht_used := u\<rparr>))
      + mset (ht_table h ! i) = mset (ht_entries h)"
    by (simp add: ht_entries_def)
  have "length (concat ((ht_table h)[i := []])) + length (ht_table h ! i) = length (ht_entries h)"
    using arg_cong [OF m, of size] by (simp only: size_union size_mset)
  then show "ht_wf H (h\<lparr>ht_table := (ht_table h)[i := []],
      ht_used := ht_used h - length (ht_table h ! i)\<rparr>)"
    using wf l by (auto simp: ht_wf_def ht_entries_def nth_list_update)
qed

definition dict_sizes_le :: "('k, 'v, 'p) dict \<Rightarrow> nat \<Rightarrow> bool" where
  "dict_sizes_le d n \<longleftrightarrow> ht_size (ht0 d) \<le> n \<and> ht_size (ht1 d) \<le> n"

text \<open>What every amount of rehashing keeps.\<close>

definition rehash_keeps :: "('k, 'v, 'p) dict \<Rightarrow> ('k, 'v, 'p) dict \<Rightarrow> bool" where
  "rehash_keeps d d' \<longleftrightarrow>
     dict_wf d' \<and> same_frame d d' \<and> mset (dict_entries d') = mset (dict_entries d) \<and>
     (\<forall>n. dict_sizes_le d n \<longrightarrow> dict_sizes_le d' n) \<and>
     (0 < ht_size (ht0 d) \<longrightarrow> 0 < ht_size (ht0 d'))"

lemma rehash_keeps_refl: "dict_wf d \<Longrightarrow> rehash_keeps d d"
  by (simp add: rehash_keeps_def)

lemma rehash_keeps_trans: "rehash_keeps d1 d2 \<Longrightarrow> rehash_keeps d2 d3 \<Longrightarrow> rehash_keeps d1 d3"
  by (auto simp: rehash_keeps_def same_frame_def)

text \<open>The bucket a round moves: the next one that is not empty; those before it are empty afterwards.\<close>

lemma rehash_next_bucket:
  assumes wf: "dict_wf d" and re: "dictIsRehashing d" and used: "ht_used (ht0 d) \<noteq> 0"
  obtains i where "skip_empty (ht_table (ht0 d)) (nat (rehashidx d)) = Some i" "nat (rehashidx d) \<le> i" "i < ht_size (ht0 d)"
    "\<And>k. k < ht_size (ht0 d) \<Longrightarrow> int k < int i + 1 \<Longrightarrow> (ht_table (ht0 d))[i := []] ! k = []"
proof -
  let ?t = "ht_table (ht0 d)"
  have w0: "ht_wf (dictHashKey d) (ht0 d)"
    and moved: "\<And>i. i < ht_size (ht0 d) \<Longrightarrow> int i < rehashidx d \<Longrightarrow> ?t ! i = []"
    using wf re by (auto simp: dict_wf_def)
  have len: "length ?t = ht_size (ht0 d)" using w0 by (simp add: ht_wf_def)
  have "ht_entries (ht0 d) \<noteq> []" using used w0 by (auto simp: ht_wf_def)
  then obtain b where "b \<in> set ?t" "b \<noteq> []" by (auto simp: ht_entries_def)
  then obtain j where j: "j < length ?t" "?t ! j \<noteq> []" by (metis in_set_conv_nth)
  have "nat (rehashidx d) \<le> j" using moved j len by fastforce
  then obtain i where i: "skip_empty ?t (nat (rehashidx d)) = Some i" "nat (rehashidx d) \<le> i"
    "i < length ?t" "\<forall>k. nat (rehashidx d) \<le> k \<and> k < i \<longrightarrow> ?t ! k = []"
    using skip_empty_ok [of "nat (rehashidx d)" ?t] j by blast
  have "?t[i := []] ! k = []" if "k < ht_size (ht0 d)" "int k < int i + 1" for k
    using moved [OF that(1)] i(3,4) that(2) by (cases "nat (rehashidx d) \<le> k"; cases "k = i") auto
  with i len that show thesis by simp
qed

lemma dictRehash_round_ok:
  assumes wf: "dict_wf d" and re: "dictIsRehashing d"
  shows "\<exists>d' go_on. dictRehash_round d = Some (d', go_on) \<and> rehash_keeps d d' \<and>
           go_on = dictIsRehashing d' \<and>
           (go_on \<longrightarrow> ht_size (ht0 d') = ht_size (ht0 d) \<and> ht_size (ht1 d') = ht_size (ht1 d) \<and>
              rehashidx d < rehashidx d' \<and> rehashidx d' \<le> int (ht_size (ht0 d)))"
proof (cases "ht_used (ht0 d) = 0")
  case True
  let ?d = "d\<lparr>ht0 := ht1 d, ht1 := dictReset, rehashidx := -1\<rparr>"
  have "ht_entries (ht0 d) = []" using True wf by (simp add: dict_wf_def ht_wf_def)
  then have "rehash_keeps d ?d"
    using wf re
    by (simp add: rehash_keeps_def dict_wf_def dict_entries_def dictIsRehashing_def dict_sizes_le_def
        same_frame_def)
  with True show ?thesis
    by (simp add: dictRehash_round_def dictIsRehashing_def)
next
  case False
  let ?H = "dictHashKey d" and ?t = "ht_table (ht0 d)"
  have w0: "ht_wf ?H (ht0 d)" and w1: "ht_wf ?H (ht1 d)" and p0: "0 \<le> rehashidx d"
    and s1: "0 < ht_size (ht1 d)" and dis: "distinct (map de_key (dict_entries d))"
    using wf re by (auto simp: dict_wf_def)
  obtain i where i: "skip_empty ?t (nat (rehashidx d)) = Some i" "nat (rehashidx d) \<le> i" "i < ht_size (ht0 d)"
    "\<And>k. k < ht_size (ht0 d) \<Longrightarrow> int k < int i + 1 \<Longrightarrow> ?t[i := []] ! k = []"
    using rehash_next_bucket [OF wf re False] by blast
  obtain h1 where h1: "rehash_chain d (?t ! i) =
      Some (d\<lparr>ht0 := (ht0 d)\<lparr>ht_used := ht_used (ht0 d) - length (?t ! i)\<rparr>, ht1 := h1\<rparr>)"
    "ht_wf ?H h1" "ht_size h1 = ht_size (ht1 d)"
    "mset (ht_entries h1) = mset (?t ! i) + mset (ht_entries (ht1 d))"
    using rehash_chain_ok [OF w1 s1, of "?t ! i"] by blast
  let ?h0 = "(ht0 d)\<lparr>ht_table := ?t[i := []], ht_used := ht_used (ht0 d) - length (?t ! i)\<rparr>"
  let ?d = "d\<lparr>ht0 := ?h0, ht1 := h1, rehashidx := int i + 1\<rparr>"
  have len: "length ?t = ht_size (ht0 d)" using w0 by (simp add: ht_wf_def)
  have rnd: "dictRehash_round d = Some (?d, True)"
    using False p0 i(1,2,3) len h1(1) by (simp add: dictRehash_round_def ht_bucket_def)
  have wf0: "ht_wf ?H ?h0" by (rule ht_wf_clear_bucket(1) [OF w0 i(3)])
  have m: "mset (dict_entries ?d) = mset (dict_entries d)"
    using ht_wf_clear_bucket(2) [OF w0 i(3)] h1(4) by (simp add: dict_entries_def ac_simps)
  have "dict_wf ?d"
    using wf0 h1(2,3) s1 i(3,4) distinct_keys_mset [OF m] dis
    by (simp add: dict_wf_def dictIsRehashing_def)
  then have "rehash_keeps d ?d"
    using m h1(3) by (simp add: rehash_keeps_def dict_sizes_le_def)
  moreover have "rehashidx d < rehashidx ?d" "rehashidx ?d \<le> int (ht_size (ht0 d))"
    using i(2,3) p0 by auto
  ultimately show ?thesis
    using rnd h1(3) by (simp add: dictIsRehashing_def)
qed

lemma dictRehash_loop_ok:
  assumes "dict_wf d" "dictIsRehashing d"
  shows "\<exists>d' b. dictRehash_loop d n = Some (d', b) \<and> rehash_keeps d d' \<and> b = dictIsRehashing d' \<and>
           (ht_size (ht0 d) < n + nat (rehashidx d) \<longrightarrow> \<not> b)"
  using assms
proof (induction n arbitrary: d)
  case 0
  then show ?case
    by (auto simp: rehash_keeps_refl dict_wf_def) 
next
  case (Suc n)
  obtain d1 b where d1: "dictRehash_round d = Some (d1, b)" "rehash_keeps d d1"
    "b = dictIsRehashing d1"
    "b \<longrightarrow> ht_size (ht0 d1) = ht_size (ht0 d) \<and> rehashidx d < rehashidx d1"
    using dictRehash_round_ok [OF Suc.prems] by blast
  show ?case
  proof (cases b)
    case False
    with d1 show ?thesis by simp
  next
    case True
    have "dict_wf d1" "dictIsRehashing d1" using d1 True by (auto simp: rehash_keeps_def)
    from Suc.IH [OF this] obtain d2 c where d2: "dictRehash_loop d1 n = Some (d2, c)"
      "rehash_keeps d1 d2" "c = dictIsRehashing d2"
      "ht_size (ht0 d1) < n + nat (rehashidx d1) \<longrightarrow> \<not> c" by blast
    have "0 \<le> rehashidx d" using Suc.prems by (simp add: dict_wf_def)
    with d1 d2 True show ?thesis by (auto intro: rehash_keeps_trans)
  qed
qed

lemma dictRehash_ok:
  assumes "dict_wf d"
  shows "\<exists>d' b. dictRehash d n = Some (d', b) \<and> rehash_keeps d d' \<and> b = dictIsRehashing d' \<and>
           (ht_size (ht0 d) < n \<longrightarrow> \<not> b)"
proof (cases "dictIsRehashing d")
  case True
  from dictRehash_loop_ok [OF assms True, of n] show ?thesis
    using True by (auto simp: dictRehash_def)
next
  case False
  then show ?thesis using assms by (simp add: dictRehash_def rehash_keeps_refl)
qed

lemma rehash_on_use_ok:
  assumes "dict_wf d"
  shows "\<exists>d'. rehash_on_use d = Some d' \<and> rehash_keeps d d'"
  using dictRehash_ok [OF assms, of 1] rehash_keeps_refl [OF assms]
  by (auto simp: rehash_on_use_def dictRehashStep_def)

text \<open>Rehashing leaves the map, its size and the frame as they were.\<close>

lemma rehash_keepsD:
  assumes "rehash_keeps d d'" "dict_wf d"
  shows "dict_wf d'" "same_frame d d'" "dict_map d' = dict_map d" "dictSize d' = dictSize d"
    "dict_sizes_le d n \<Longrightarrow> dict_sizes_le d' n" "0 < ht_size (ht0 d) \<Longrightarrow> 0 < ht_size (ht0 d')"
proof -
  have m: "mset (dict_entries d') = mset (dict_entries d)"
    using assms(1) by (simp add: rehash_keeps_def)
  show "dict_map d' = dict_map d"
    using dict_map_mset_cong [OF m] assms(2) by (simp add: dict_wf_def)
  have "length (dict_entries d') = length (dict_entries d)"
    using m by (rule mset_eq_length)
  then show "dictSize d' = dictSize d"
    using assms by (simp add: rehash_keeps_def dictSize_def dict_wf_def ht_wf_def dict_entries_def)
qed (use assms in \<open>auto simp: rehash_keeps_def\<close>)

section \<open>Searching\<close>

lemma chain_find_Some:
  "chain_find P es = Some j \<Longrightarrow> j < length es \<and> P (de_key (es ! j))"
  by (induction es arbitrary: j) (auto split: if_splits)

lemma chain_find_None: "chain_find P es = None \<longleftrightarrow> (\<forall>e \<in> set es. \<not> P (de_key e))"
  by (induction es) auto

definition valid_loc :: "('k, 'v, 'p) dict \<Rightarrow> entry_loc \<Rightarrow> bool" where
  "valid_loc d loc \<longleftrightarrow>
     (case loc of (t, i, j) \<Rightarrow> t \<le> 1 \<and> i < length (ht_table (dict_ht d t)) \<and>
        j < length (ht_table (dict_ht d t) ! i))"

lemma valid_loc_entry:
  assumes "valid_loc d loc"
  shows "\<exists>e. dict_entry_at d loc = Some e \<and> e \<in> set (dict_entries d)"
  using assms
  by (cases loc)
    (fastforce simp: valid_loc_def dict_entry_at_def ht_bucket_def dict_entries_def ht_entries_def
      dict_ht_def in_set_conv_nth)

text \<open>Searching one table finds exactly the keys that are in it.\<close>

lemma dict_find_in_ok:
  assumes wf: "dict_wf d" and ok: "type_ok d" and pos: "0 < ht_size (dict_ht d t)" and t: "t \<le> 1"
  shows "\<exists>r. dict_find_in d t key (dictHashKey d key) = Some r \<and>
           (case r of
              None \<Rightarrow> key \<notin> de_key ` set (ht_entries (dict_ht d t))
            | Some loc \<Rightarrow> valid_loc d loc \<and> (\<exists>v. dict_entry_at d loc = Some (Entry key v)))"
proof -
  let ?h = "dict_ht d t" and ?i = "dictHashKey d key AND ht_sizemask (dict_ht d t)"
  have w: "ht_wf (dictHashKey d) ?h" using wf by (simp add: dict_wf_def dict_ht_def)
  note b = ht_bucket_ok [OF w pos, of "dictHashKey d key"]
  have il: "?i < length (ht_table ?h)" using ht_index_less [OF w pos] w by (simp add: ht_wf_def)
  show ?thesis
  proof (cases "chain_find (dictCompareKeys d key) (ht_table ?h ! ?i)")
    case None
    have "key \<notin> de_key ` set (ht_entries ?h)"
    proof
      assume "key \<in> de_key ` set (ht_entries ?h)"
      then obtain e where e: "e \<in> set (ht_entries ?h)" "de_key e = key" by auto
      from ht_entry_bucket [OF w e(1)] e(2) None ok show False
        by (auto simp: chain_find_None type_ok_def)
    qed
    with None b show ?thesis by (simp add: dict_find_in_def Let_def)
  next
    case (Some j)
    then have j: "j < length (ht_table ?h ! ?i)" "de_key (ht_table ?h ! ?i ! j) = key"
      using ok chain_find_Some [OF Some] by (auto simp: type_ok_def)
    have "valid_loc d (t, ?i, j)" using il j t by (simp add: valid_loc_def)
    moreover have "dict_entry_at d (t, ?i, j) = Some (Entry key (de_val (ht_table ?h ! ?i ! j)))"
      using b j by (simp add: dict_entry_at_def) (metis dictEntry.collapse)
    ultimately show ?thesis using Some b by (simp add: dict_find_in_def Let_def)
  qed
qed

lemma dict_find_both_ok:
  assumes wf: "dict_wf d" and ok: "type_ok d" and pos: "0 < ht_size (ht0 d)"
  shows "\<exists>r. dict_find_both d key (dictHashKey d key) = Some r \<and>
           (case r of
              None \<Rightarrow> dict_map d key = None
            | Some loc \<Rightarrow> valid_loc d loc \<and>
                (\<exists>v. dict_map d key = Some v \<and> dict_entry_at d loc = Some (Entry key v)))"
proof -
  have dis: "distinct (map de_key (dict_entries d))" using wf by (simp add: dict_wf_def)
  have hit: "dict_map d key = Some v"
    if "valid_loc d loc" "dict_entry_at d loc = Some (Entry key v)" for loc v
    using valid_loc_entry [OF that(1)] that(2) by (simp add: dict_map_Some_iff [OF dis])
  obtain r0 where r0: "dict_find_in d 0 key (dictHashKey d key) = Some r0"
    "case r0 of None \<Rightarrow> key \<notin> de_key ` set (ht_entries (dict_ht d 0))
     | Some loc \<Rightarrow> valid_loc d loc \<and> (\<exists>v. dict_entry_at d loc = Some (Entry key v))"
    using dict_find_in_ok [OF wf ok, of 0 key] pos by (auto simp: dict_ht_def)
  show ?thesis
  proof (cases r0)
    case (Some loc)
    then obtain v where "valid_loc d loc" "dict_entry_at d loc = Some (Entry key v)"
      using r0 by auto
    with Some r0 hit [of loc v] show ?thesis by (auto simp: dict_find_both_def)
  next
    case None
    then have n0: "key \<notin> de_key ` set (ht_entries (ht0 d))" using r0 by (simp add: dict_ht_def)
    show ?thesis
    proof (cases "dictIsRehashing d")
      case False
      then have "dict_map d key = None"
        using n0 wf by (simp add: dict_map_None_iff dict_entries_def dict_wf_def)
      with None r0 False show ?thesis by (simp add: dict_find_both_def)
    next
      case True
      then have "0 < ht_size (dict_ht d 1)" using wf by (simp add: dict_wf_def dict_ht_def)
      from dict_find_in_ok [OF wf ok this, of key] obtain r1 where
        r1: "dict_find_in d 1 key (dictHashKey d key) = Some r1"
        "case r1 of None \<Rightarrow> key \<notin> de_key ` set (ht_entries (dict_ht d 1))
         | Some loc \<Rightarrow> valid_loc d loc \<and> (\<exists>v. dict_entry_at d loc = Some (Entry key v))"
        by auto
      have "r1 = None \<Longrightarrow> dict_map d key = None"
        using n0 r1 by (simp add: dict_map_None_iff dict_entries_def dict_ht_def image_Un)
      with None r0 True r1(1) have "dict_find_both d key (dictHashKey d key) = Some r1"
        by (simp add: dict_find_both_def)
      moreover have "dict_map d key = None" if "r1 = None"
        using that \<open>r1 = None \<Longrightarrow> dict_map d key = None\<close> by blast
      ultimately show ?thesis
        using r1(2) hit by (intro exI [of _ r1]) (cases r1, simp, force)
    qed
  qed
qed

text \<open>\<open>dictFind\<close> looks the key up in the map, and the location it returns holds the value.\<close>

lemma dictFind_ok:
  assumes wf: "dict_wf d" and ok: "type_ok d"
  shows "\<exists>d' r. dictFind d key = Some (d', r) \<and> rehash_keeps d d' \<and>
           (case r of
              None \<Rightarrow> dict_map d key = None
            | Some loc \<Rightarrow> valid_loc d' loc \<and>
                (\<exists>v. dict_map d key = Some v \<and> dict_entry_at d' loc = Some (Entry key v)))"
proof (cases "ht_size (ht0 d) = 0")
  case True
  then have "dict_map d key = None"
    using wf by (auto simp: dict_map_None_iff dict_wf_def ht_wf_def dict_entries_def ht_entries_def
        split: if_splits)
  with True show ?thesis by (simp add: dictFind_def rehash_keeps_refl [OF wf])
next
  case False
  obtain d1 where d1: "rehash_on_use d = Some d1" "rehash_keeps d d1"
    using rehash_on_use_ok [OF wf] by blast
  note k = rehash_keepsD [OF d1(2) wf]
  have "type_ok d1" "0 < ht_size (ht0 d1)"
    using same_frame_cong [OF k(2)] ok k(6) False by simp_all
  from dict_find_both_ok [OF k(1) this, of key] k(3) d1 False show ?thesis
    by (auto simp: dictFind_def split: option.splits)
qed

end
