(* ===== verification/Dict_Update.thy ===== *)
theory Dict_Update
  imports Dict_Map
begin

text \<open>
  The operations of the dictionary that change the map: growing the table, adding, setting a
  value, replacing, deleting, clearing. Each lemma says that the call is defined, keeps the
  invariant, and changes the map as its name promises.
\<close>

section \<open>Multisets of entries as maps\<close>

definition entry_map :: "('k, 'v) dictEntry list \<Rightarrow> ('k \<rightharpoonup> 'v option)" where
  "entry_map es = map_of (map (\<lambda>e. (de_key e, de_val e)) es)"

lemma dict_map_entry_map: "dict_map d = entry_map (dict_entries d)"
  by (simp add: dict_map_def entry_map_def)

lemma entry_map_cong:
  assumes "mset es' = mset es" "distinct (map de_key es)"
  shows "entry_map es' = entry_map es"
proof -
  have d: "distinct (map de_key es')" using assms distinct_keys_mset by metis
  have "set es' = set es" using assms(1) by (rule mset_eq_setD)
  then have "set (map (\<lambda>e. (de_key e, de_val e)) es') = set (map (\<lambda>e. (de_key e, de_val e)) es)"
    by simp
  then show ?thesis
    unfolding entry_map_def using assms(2) d
    by (subst map_of_inject_set) (simp_all add: comp_def)
qed

lemma entry_map_insert:
  assumes "mset es' = add_mset (Entry k v) (mset es)" "distinct (map de_key es')"
  shows "entry_map es' = (entry_map es)(k \<mapsto> v)"
proof -
  have "mset es' = mset (Entry k v # es)" using assms(1) by simp
  moreover from this have "distinct (map de_key (Entry k v # es))"
    using assms(2) distinct_keys_mset by metis
  ultimately have "entry_map es' = entry_map (Entry k v # es)" by (rule entry_map_cong)
  then show ?thesis by (simp add: entry_map_def)
qed

lemma entry_map_remove:
  assumes "mset es = add_mset (Entry k v) (mset es')" "distinct (map de_key es)"
  shows "entry_map es' = (entry_map es)(k := None)"
proof -
  have m: "mset es = mset (Entry k v # es')" using assms(1) by simp
  then have "distinct (map de_key (Entry k v # es'))"
    using assms(2) distinct_keys_mset by metis
  then have "k \<notin> de_key ` set es'" by simp
  then have "entry_map es' k = None" by (force simp: entry_map_def map_of_eq_None_iff)
  moreover have "entry_map es = (entry_map es')(k \<mapsto> v)"
    by (rule entry_map_insert [OF assms])
  ultimately show ?thesis by (auto simp: fun_eq_iff)
qed

text \<open>Replacing one entry by another with the same key.\<close>

lemma entry_map_replace:
  assumes "mset es = add_mset (Entry k v) M" "mset es' = add_mset (Entry k v') M"
    and "distinct (map de_key es)"
  shows "distinct (map de_key es')" "entry_map es' = (entry_map es)(k \<mapsto> v')"
proof -
  obtain rest where rest: "mset rest = M" using ex_mset by blast
  have "distinct (map de_key (Entry k v # rest))"
    using assms(1,3) rest distinct_keys_mset [of es "Entry k v # rest"] by simp
  then have d: "distinct (map de_key (Entry k v' # rest))" by simp
  then show d': "distinct (map de_key es')"
    using assms(2) rest distinct_keys_mset [of es' "Entry k v' # rest"] by simp
  have "entry_map es' = (entry_map rest)(k \<mapsto> v')"
    using entry_map_insert [of es' k v' rest] assms(2) rest d' by simp
  also have "entry_map rest = (entry_map es)(k := None)"
    using entry_map_remove [of es k v rest] assms(1,3) rest by simp
  finally show "entry_map es' = (entry_map es)(k \<mapsto> v')" by (simp only: fun_upd_upd)
qed

lemma dict_map_replace:
  assumes "mset (dict_entries d) = add_mset (Entry k v) M"
    and "mset (dict_entries d') = add_mset (Entry k v') M" "dict_wf d"
  shows "distinct (map de_key (dict_entries d'))" "dict_map d' = (dict_map d)(k \<mapsto> v')"
  using entry_map_replace [OF assms(1,2)] assms(3)
  by (simp_all add: dict_wf_def dict_map_entry_map)

section \<open>Growing the table\<close>

text \<open>\<open>_dictNextPower\<close> finds the least power of two that is at least 4 and at least \<open>sz\<close>.\<close>

lemma next_power_loop_ok:
  assumes "i = 2 ^ a"
  shows "\<exists>k \<ge> a. next_power_loop i sz = 2 ^ k \<and> sz \<le> 2 ^ k \<and> (\<forall>n \<ge> a. sz \<le> 2 ^ n \<longrightarrow> k \<le> n)"
  using assms
proof (induction i sz arbitrary: a rule: next_power_loop.induct)
  case (1 i sz)
  show ?case
  proof (cases "i \<ge> sz")
    case True
    then have "next_power_loop i sz = 2 ^ a"
      using "1.prems" by (subst next_power_loop.simps) simp
    with True "1.prems" show ?thesis by (intro exI [of _ a]) auto
  next
    case False
    then have loop: "next_power_loop i sz = next_power_loop (i * 2) sz"
      using "1.prems" by (subst next_power_loop.simps) simp
    have "\<not> (i \<ge> sz \<or> i = 0)" "i * 2 = 2 ^ Suc a" using False "1.prems" by auto
    from "1.IH" [OF this] obtain k where k: "Suc a \<le> k" "next_power_loop (i * 2) sz = 2 ^ k"
      "sz \<le> 2 ^ k" "\<forall>n \<ge> Suc a. sz \<le> 2 ^ n \<longrightarrow> k \<le> n" by blast
    have "k \<le> n" if "a \<le> n" "sz \<le> 2 ^ n" for n
    proof -
      have "n \<noteq> a" using that False "1.prems" by auto
      then show ?thesis using that k(4) by simp
    qed
    with k loop show ?thesis by (intro exI [of _ k]) auto
  qed
qed

lemma dictNextPower_ok:
  assumes "sz < LONG_MAX"
  shows "\<exists>k \<ge> 2. dictNextPower sz = 2 ^ k \<and> sz \<le> 2 ^ k \<and> (\<forall>n \<ge> 2. sz \<le> 2 ^ n \<longrightarrow> k \<le> n)"
  using next_power_loop_ok [of 4 2 sz] assms
  by (simp add: dictNextPower_def DICT_HT_INITIAL_SIZE_def)

text \<open>Growing keeps the entries; sizes stay within a power of two that is large enough.\<close>

definition dict_keeps :: "('k, 'v, 'p) dict \<Rightarrow> ('k, 'v, 'p) dict \<Rightarrow> bool" where
  "dict_keeps d d' \<longleftrightarrow>
     dict_wf d' \<and> same_frame d d' \<and> mset (dict_entries d') = mset (dict_entries d)"

lemma dict_keepsD:
  assumes "dict_keeps d d'" "dict_wf d"
  shows "dict_wf d'" "same_frame d d'" "dict_map d' = dict_map d" "dictSize d' = dictSize d"
    "distinct (map de_key (dict_entries d'))"
proof -
  have m: "mset (dict_entries d') = mset (dict_entries d)" using assms(1) by (simp add: dict_keeps_def)
  show "dict_map d' = dict_map d"
    using dict_map_mset_cong [OF m] assms(2) by (simp add: dict_wf_def)
  show "dictSize d' = dictSize d"
    using mset_eq_length [OF m] assms
    by (simp add: dict_keeps_def dictSize_def dict_wf_def ht_wf_def dict_entries_def)
qed (use assms in \<open>auto simp: dict_keeps_def dict_wf_def\<close>)

lemma rehash_keeps_dict_keeps: "rehash_keeps d d' \<Longrightarrow> dict_keeps d d'"
  by (simp add: rehash_keeps_def dict_keeps_def)

lemma dict_keeps_trans: "dict_keeps d1 d2 \<Longrightarrow> dict_keeps d2 d3 \<Longrightarrow> dict_keeps d1 d3"
  by (auto simp: dict_keeps_def same_frame_def)

lemma fresh_table_wf:
  "ht_wf H \<lparr>ht_table = replicate (2 ^ k) [], ht_size = 2 ^ k, ht_sizemask = 2 ^ k - 1, ht_used = 0\<rparr>"
  "ht_entries \<lparr>ht_table = replicate (2 ^ k) [], ht_size = 2 ^ k, ht_sizemask = 2 ^ k - 1, ht_used = 0\<rparr> = []"
  by (auto simp: ht_wf_def ht_entries_def)

lemma dictExpand_ok:
  assumes wf: "dict_wf d" and idle: "\<not> dictIsRehashing d"
    and sz: "ht_used (ht0 d) \<le> sz" "sz < LONG_MAX"
  shows "\<exists>d'. dictExpand d sz = (d', DICT_OK) \<and> dict_keeps d d' \<and> 0 < ht_size (ht0 d') \<and>
           dictIsRehashing d' = (ht_size (ht0 d) \<noteq> 0) \<and>
           dict_ht d' (if dictIsRehashing d' then 1 else 0) =
             \<lparr>ht_table = replicate (dictNextPower sz) [], ht_size = dictNextPower sz,
              ht_sizemask = dictNextPower sz - 1, ht_used = 0\<rparr> \<and>
           (\<forall>n \<ge> 2. dict_sizes_le d (2 ^ n) \<and> sz \<le> 2 ^ n \<longrightarrow> dict_sizes_le d' (2 ^ n))"
proof -
  obtain k where k: "dictNextPower sz = 2 ^ k" "\<forall>n \<ge> 2. sz \<le> 2 ^ n \<longrightarrow> k \<le> n"
    using dictNextPower_ok [OF sz(2)] by blast
  have w0: "ht_wf (dictHashKey d) (ht0 d)" and h1: "ht1 d = dictReset"
    and dis: "distinct (map de_key (dict_entries d))"
    using wf idle by (auto simp: dict_wf_def)
  have len: "length (ht_table (ht0 d)) = ht_size (ht0 d)" using w0 by (simp add: ht_wf_def)
  have pow: "2 ^ k \<le> (2::nat) ^ n" if "2 \<le> n" "sz \<le> 2 ^ n" for n
    using k(2) that by (simp add: power_increasing)
  let ?n = "\<lparr>ht_table = replicate (2 ^ k) [], ht_size = 2 ^ k, ht_sizemask = 2 ^ k - 1, ht_used = 0\<rparr>
    :: ('a, 'b) dictht"
  have n: "ht_wf (dictHashKey d) ?n" "ht_entries ?n = []"
    by (rule fresh_table_wf)+
  show ?thesis
  proof (cases "ht_size (ht0 d) = 0")
    case True
    then have e: "ht_table (ht0 d) = []" using len by simp
    let ?d = "d\<lparr>ht0 := ?n\<rparr>"
    have "dictExpand d sz = (?d, DICT_OK)"
      using idle sz(1) e k(1) by (simp add: dictExpand_def Let_def)
    moreover have "dict_entries d = []" using e h1 by (simp add: dict_entries_def ht_entries_def)
    then have "dict_keeps d ?d"
      using n h1 idle by (simp add: dict_keeps_def dict_wf_def dict_entries_def dictIsRehashing_def)
    ultimately show ?thesis
      using idle True k(1) pow by (simp add: dictIsRehashing_def dict_ht_def dict_sizes_le_def)
  next
    case False
    then have e: "ht_table (ht0 d) \<noteq> []" using len by auto
    let ?d = "d\<lparr>ht1 := ?n, rehashidx := 0\<rparr>"
    have "dictExpand d sz = (?d, DICT_OK)"
      using idle sz(1) e k(1) by (simp add: dictExpand_def Let_def)
    moreover have "dict_keeps d ?d"
      using n w0 h1 dis False by (simp add: dict_keeps_def dict_wf_def dict_entries_def dictIsRehashing_def)
    ultimately show ?thesis
      using False k(1) pow by (simp add: dictIsRehashing_def dict_ht_def dict_sizes_le_def)
  qed
qed

text \<open>
  The bound under which the \<open>int\<close> that carries a bucket index is wide enough: tables of at
  most \<open>2 ^ 31\<close> buckets, and few enough entries that the next growth stays there.
\<close>

definition dict_small :: "('k, 'v, 'p) dict \<Rightarrow> bool" where
  "dict_small d \<longleftrightarrow> dict_sizes_le d (2 ^ 31) \<and> dictSize d \<le> 2 ^ 30"

lemma dict_small_rehash: "rehash_keeps d d' \<Longrightarrow> dict_wf d \<Longrightarrow> dict_small d \<Longrightarrow> dict_small d'"
  by (auto simp: dict_small_def rehash_keepsD(4) rehash_keepsD(5))

lemma dictExpandIfNeeded_ok:
  assumes wf: "dict_wf d" and small: "dict_small d"
  shows "\<exists>d'. dictExpandIfNeeded can_resize d = (d', DICT_OK) \<and> dict_keeps d d' \<and>
           0 < ht_size (ht0 d') \<and> dict_small d'"
proof -
  have lm: "(2::nat) ^ 31 < LONG_MAX" by (simp add: LONG_MAX_def)
  have use: "ht_used (ht0 d) * 2 \<le> 2 ^ 31" using small by (simp add: dict_small_def dictSize_def)
  have refl: "dict_keeps d d" using wf by (simp add: dict_keeps_def)
  have grown: "dict_small d'"
    if "dict_keeps d d'" "\<forall>n \<ge> 2. dict_sizes_le d (2 ^ n) \<and> sz \<le> 2 ^ n \<longrightarrow> dict_sizes_le d' (2 ^ n)"
      "sz \<le> 2 ^ 31" for d' and sz :: nat
    using that(2) [rule_format, of 31] that(3) small dict_keepsD(4) [OF that(1) wf]
    by (simp add: dict_small_def)
  show ?thesis
  proof (cases "dictIsRehashing d")
    case True
    with wf small refl show ?thesis by (simp add: dictExpandIfNeeded_def dict_wf_def)
  next
    case idle: False
    show ?thesis
    proof (cases "ht_size (ht0 d) = 0")
      case True
      then have "ht_used (ht0 d) \<le> 4"
        using wf by (simp add: dict_wf_def ht_wf_def ht_entries_def)
      with dictExpand_ok [OF wf idle, of DICT_HT_INITIAL_SIZE] grown [of _ 4] lm True idle
      show ?thesis by (auto simp: dictExpandIfNeeded_def DICT_HT_INITIAL_SIZE_def)
    next
      case False
      have "ht_used (ht0 d) \<le> ht_used (ht0 d) * 2" "ht_used (ht0 d) * 2 < LONG_MAX"
        using use lm by simp_all
      with dictExpand_ok [OF wf idle this] grown use False idle refl small
      show ?thesis by (auto simp: dictExpandIfNeeded_def)
    qed
  qed
qed

section \<open>Adding\<close>

lemma int_of_uint_small: "n < 2 ^ 31 \<Longrightarrow> int_of_uint n = int n"
  by (simp add: int_of_uint_def signed_of_nat signed_take_bit_int_eq_self)

text \<open>The table that receives new entries.\<close>

definition dict_target :: "('k, 'v, 'p) dict \<Rightarrow> nat" where
  "dict_target d = (if dictIsRehashing d then 1 else 0)"

lemma dict_wf_ht: "dict_wf d \<Longrightarrow> ht_wf (dictHashKey d) (dict_ht d t)"
  by (simp add: dict_wf_def dict_ht_def)

lemma dict_target_pos:
  "dict_wf d \<Longrightarrow> 0 < ht_size (ht0 d) \<Longrightarrow> 0 < ht_size (dict_ht d (dict_target d))"
  by (simp add: dict_wf_def dict_ht_def dict_target_def)

lemma dictKeyIndex_ok:
  assumes wf: "dict_wf d" and ok: "type_ok d" and small: "dict_small d"
  shows "\<exists>d' index. dictKeyIndex can_resize d key = Some (d', index) \<and> dict_keeps d d' \<and>
           0 < ht_size (ht0 d') \<and> dict_small d' \<and>
           index = (if dict_map d key = None
                    then int (dictHashKey d' key AND ht_sizemask (dict_ht d' (dict_target d'))) else -1)"
proof -
  obtain d1 where d1: "dictExpandIfNeeded can_resize d = (d1, DICT_OK)" "dict_keeps d d1"
    "0 < ht_size (ht0 d1)" "dict_small d1"
    using dictExpandIfNeeded_ok [OF wf small] by blast
  note k = dict_keepsD [OF d1(2) wf]
  have ok1: "type_ok d1" using same_frame_cong [OF k(2)] ok by simp
  obtain r where r: "dict_find_both d1 key (dictHashKey d1 key) = Some r"
    "case r of None \<Rightarrow> dict_map d1 key = None
     | Some loc \<Rightarrow> valid_loc d1 loc \<and>
        (\<exists>v. dict_map d1 key = Some v \<and> dict_entry_at d1 loc = Some (Entry key v))"
    using dict_find_both_ok [OF k(1) ok1 d1(3)] by blast
  let ?i = "dictHashKey d1 key AND ht_sizemask (dict_ht d1 (dict_target d1))"
  have "?i < ht_size (dict_ht d1 (dict_target d1))"
    by (rule ht_index_less [OF dict_wf_ht [OF k(1)] dict_target_pos [OF k(1) d1(3)]])
  also have "\<dots> \<le> 2 ^ 31"
    using d1(4) by (simp add: dict_small_def dict_sizes_le_def dict_ht_def)
  finally have i: "int_of_uint ?i = int ?i" by (rule int_of_uint_small)
  have "dictKeyIndex can_resize d key =
      Some (d1, case r of Some _ \<Rightarrow> -1 | None \<Rightarrow> int_of_uint ?i)"
    using d1(1) r(1) by (cases r) (simp_all add: dictKeyIndex_def Let_def dict_target_def)
  with r(2) i k(3) d1 show ?thesis by (cases r) auto
qed

definition same_sizes :: "('k, 'v, 'p) dict \<Rightarrow> ('k, 'v, 'p) dict \<Rightarrow> bool" where
  "same_sizes d d' \<longleftrightarrow> ht_size (ht0 d') = ht_size (ht0 d) \<and> ht_size (ht1 d') = ht_size (ht1 d)"

lemma same_sizes_le: "same_sizes d d' \<Longrightarrow> dict_sizes_le d' n = dict_sizes_le d n"
  by (simp add: same_sizes_def dict_sizes_le_def)

lemma same_sizes_set_ht:
  "ht_size h = ht_size (dict_ht d t) \<Longrightarrow> same_sizes d (dict_set_ht d t h)"
  by (simp add: same_sizes_def dict_set_ht_def dict_ht_def)

text \<open>Linking a new key into the target table.\<close>

lemma dict_link_ok:
  assumes wf: "dict_wf d" and pos: "0 < ht_size (ht0 d)" and new: "dict_map d key = None"
  shows "\<exists>h d'. let i = dictHashKey d key AND ht_sizemask (dict_ht d (dict_target d)) in
           ht_link (dict_ht d (dict_target d)) i (Entry key v) = Some h \<and>
           d' = dict_set_ht d (dict_target d) h \<and> dict_wf d' \<and> same_frame d d' \<and> same_sizes d d' \<and>
           mset (dict_entries d') = add_mset (Entry key v) (mset (dict_entries d)) \<and>
           valid_loc d' (dict_target d, i, 0) \<and>
           dict_entry_at d' (dict_target d, i, 0) = Some (Entry key v)"
proof -
  let ?t = "dict_target d"
  let ?i = "dictHashKey d key AND ht_sizemask (dict_ht d ?t)"
  note w = dict_wf_ht [OF wf, of ?t]
  note tp = dict_target_pos [OF wf pos]
  obtain h where h: "ht_link (dict_ht d ?t) ?i (Entry key v) = Some h" "ht_wf (dictHashKey d) h"
    "mset (ht_entries h) = add_mset (Entry key v) (mset (ht_entries (dict_ht d ?t)))"
    "ht_size h = ht_size (dict_ht d ?t)" "ht_sizemask h = ht_sizemask (dict_ht d ?t)"
    using ht_link_ok [OF w tp, of "Entry key v"] by auto
  let ?d = "dict_set_ht d ?t h"
  have m: "mset (dict_entries ?d) = add_mset (Entry key v) (mset (dict_entries d))"
    using h(3) by (simp add: dict_entries_def dict_set_ht_def dict_ht_def)
  have "key \<notin> de_key ` set (dict_entries d)" using new by (simp add: dict_map_None_iff)
  then have "distinct (map de_key (Entry key v # dict_entries d))"
    using wf by (simp add: dict_wf_def)
  then have dis: "distinct (map de_key (dict_entries ?d))"
    using distinct_keys_mset [of "dict_entries ?d" "Entry key v # dict_entries d"] m by simp
  have "dict_wf ?d"
    using wf h dis
    by (auto simp: dict_wf_def dict_set_ht_def dict_ht_def dict_target_def dictIsRehashing_def
        split: if_splits)
  moreover have il: "?i < length (ht_table (dict_ht d ?t))"
    using ht_index_less [OF w tp] w by (simp add: ht_wf_def)
  have "ht_table h = (ht_table (dict_ht d ?t))[?i := Entry key v # ht_table (dict_ht d ?t) ! ?i]"
    using h(1) il by (auto simp: ht_link_def ht_bucket_def)
  then have "valid_loc ?d (?t, ?i, 0)" "dict_entry_at ?d (?t, ?i, 0) = Some (Entry key v)"
    using il by (auto simp: valid_loc_def dict_entry_at_def ht_bucket_def dict_set_ht_def dict_ht_def
        dict_target_def split: if_splits)
  moreover have "same_sizes d ?d"
    using h(4) by (simp add: same_sizes_def dict_set_ht_def dict_ht_def)
  ultimately show ?thesis
    using h(1) m by (auto simp: Let_def)
qed

lemma dictAddRaw_ok:
  assumes wf: "dict_wf d" and ok: "type_ok d" and small: "dict_small d"
  shows "\<exists>d' r. dictAddRaw can_resize d key = Some (d', r) \<and> dict_wf d' \<and> same_frame d d' \<and>
           dict_sizes_le d' (2 ^ 31) \<and>
           (if dict_map d key = None
            then \<exists>loc. r = Some loc \<and> valid_loc d' loc \<and> dict_entry_at d' loc = Some (Entry key None) \<and>
                   dict_map d' = (dict_map d)(key \<mapsto> None)
            else r = None \<and> dict_map d' = dict_map d)"
proof -
  obtain d1 where d1: "rehash_on_use d = Some d1" "rehash_keeps d d1"
    using rehash_on_use_ok [OF wf] by blast
  note k1 = rehash_keepsD [OF d1(2) wf]
  have ok1: "type_ok d1" using same_frame_cong [OF k1(2)] ok by simp
  obtain d2 index where d2: "dictKeyIndex can_resize d1 key = Some (d2, index)" "dict_keeps d1 d2"
    "0 < ht_size (ht0 d2)" "dict_small d2"
    "index = (if dict_map d1 key = None
       then int (dictHashKey d2 key AND ht_sizemask (dict_ht d2 (dict_target d2))) else -1)"
    using dictKeyIndex_ok [OF k1(1) ok1 dict_small_rehash [OF d1(2) wf small]] by blast
  note k2 = dict_keepsD [OF d2(2) k1(1)]
  have fr: "same_frame d d2" using same_frame_trans [OF k1(2) k2(2)] .
  have copy: "dict_key_copy d2 key = key" using same_frame_cong [OF fr] ok by (simp add: type_ok_def)
  show ?thesis
  proof (cases "dict_map d key = None")
    case False
    with d1(1) d2(1,4,5) k1(3) k2 fr show ?thesis
      by (auto simp: dictAddRaw_def dict_small_def)
  next
    case True
    then have new: "dict_map d2 key = None" using k1(3) k2(3) by simp
    let ?i = "dictHashKey d2 key AND ht_sizemask (dict_ht d2 (dict_target d2))"
    obtain h d3 where h: "ht_link (dict_ht d2 (dict_target d2)) ?i (Entry key None) = Some h"
      "d3 = dict_set_ht d2 (dict_target d2) h" "dict_wf d3" "same_frame d2 d3" "same_sizes d2 d3"
      "mset (dict_entries d3) = add_mset (Entry key None) (mset (dict_entries d2))"
      "valid_loc d3 (dict_target d2, ?i, 0)"
      "dict_entry_at d3 (dict_target d2, ?i, 0) = Some (Entry key None)"
      using dict_link_ok [OF k2(1) d2(3) new, of None] by (auto simp: Let_def)
    have "index = int ?i" using d2(5) k1(3) True by simp
    then have "dictAddRaw can_resize d key = Some (d3, Some (dict_target d2, ?i, 0))"
      using d1(1) d2(1) h(1,2) copy by (simp add: dictAddRaw_def Let_def dict_target_def)
    moreover have "dict_map d3 = (dict_map d)(key \<mapsto> None)"
      using entry_map_insert [OF h(6)] h(3) k1(3) k2(3) by (simp add: dict_map_entry_map dict_wf_def)
    ultimately show ?thesis
      using True h(3,7,8) same_frame_trans [OF fr h(4)] d2(4) same_sizes_le [OF h(5)]
      by (simp add: dict_small_def)
  qed
qed

section \<open>Changing a chain in place\<close>

text \<open>A bucket replaced by one whose entries belong there keeps the table well formed.\<close>

lemma ht_wf_set_bucket:
  assumes wf: "ht_wf H h" and i: "i < length (ht_table h)"
    and bucket: "\<forall>e \<in> set b. H (de_key e) AND ht_sizemask h = i"
    and used: "u + length (ht_table h ! i) = ht_used h + length b"
  shows "ht_wf H (h\<lparr>ht_table := (ht_table h)[i := b], ht_used := u\<rparr>)"
proof -
  have "length (concat ((ht_table h)[i := b])) + length (ht_table h ! i) = length (ht_entries h) + length b"
    using arg_cong [OF mset_concat_update [OF i, of b], of size]
    by (simp only: size_union size_mset ht_entries_def)
  then show ?thesis
    using assms by (auto simp: ht_wf_def ht_entries_def nth_list_update)
qed

lemma dict_wf_set_bucket:
  assumes wf: "dict_wf d" and t: "t \<le> 1" and i: "i < length (ht_table (dict_ht d t))"
    and ne: "ht_table (dict_ht d t) ! i \<noteq> []"
    and bucket: "\<forall>e \<in> set b. dictHashKey d (de_key e) AND ht_sizemask (dict_ht d t) = i"
    and used: "u + length (ht_table (dict_ht d t) ! i) = ht_used (dict_ht d t) + length b"
    and d': "d' = dict_set_ht d t ((dict_ht d t)\<lparr>ht_table := (ht_table (dict_ht d t))[i := b], ht_used := u\<rparr>)"
    and dis: "distinct (map de_key (dict_entries d'))"
  shows "dict_wf d'"
    "mset (dict_entries d') + mset (ht_table (dict_ht d t) ! i) = mset (dict_entries d) + mset b"
proof -
  let ?h = "(dict_ht d t)\<lparr>ht_table := (ht_table (dict_ht d t))[i := b], ht_used := u\<rparr>"
  have w: "ht_wf (dictHashKey d) ?h"
    by (rule ht_wf_set_bucket [OF dict_wf_ht [OF wf] i bucket used])
  show "mset (dict_entries d') + mset (ht_table (dict_ht d t) ! i) = mset (dict_entries d) + mset b"
    using mset_concat_update [OF i, of b] t
    by (auto simp: d' dict_entries_def dict_set_ht_def dict_ht_def ht_entries_def ac_simps
        split: if_splits)
  have re: "dictIsRehashing d' = dictIsRehashing d" "rehashidx d' = rehashidx d"
    "dictHashKey d' = dictHashKey d"
    by (simp_all add: d' dict_set_ht_def dictIsRehashing_def)
  show "dict_wf d'"
  proof (cases "t = 0")
    case True
    then have "ht0 d' = ?h" "ht1 d' = ht1 d" by (simp_all add: d' dict_set_ht_def)
    with wf w dis re True ne i show ?thesis
      by (auto simp: dict_wf_def dict_ht_def nth_list_update)
  next
    case False
    then have "ht0 d' = ht0 d" "ht1 d' = ?h" by (simp_all add: d' dict_set_ht_def)
    moreover have "dictIsRehashing d"
      using wf False i by (auto simp: dict_wf_def dict_ht_def split: if_splits)
    ultimately show ?thesis
      using wf w dis re False by (simp add: dict_wf_def dict_ht_def)
  qed
qed

text \<open>What a valid location says about the chain it points into.\<close>

lemma valid_locD:
  assumes "dict_wf d" "valid_loc d (t, i, j)"
  shows "t \<le> 1" "i < length (ht_table (dict_ht d t))" "j < length (ht_table (dict_ht d t) ! i)"
    "ht_table (dict_ht d t) ! i \<noteq> []"
    "dict_entry_at d (t, i, j) = Some (ht_table (dict_ht d t) ! i ! j)"
    "\<forall>e \<in> set (ht_table (dict_ht d t) ! i). dictHashKey d (de_key e) AND ht_sizemask (dict_ht d t) = i"
    "ht_bucket (dict_ht d t) i = Some (ht_table (dict_ht d t) ! i)"
  using assms(2) dict_wf_ht [OF assms(1), of t]
  by (auto simp: valid_loc_def dict_entry_at_def ht_bucket_def ht_wf_def)

section \<open>Setting a value\<close>

lemma dictSetVal_ok:
  assumes wf: "dict_wf d" and ok: "type_ok d" and loc: "valid_loc d loc"
    and e: "dict_entry_at d loc = Some (Entry key v0)"
  shows "\<exists>d'. dictSetVal d loc v = Some d' \<and> dict_wf d' \<and> same_frame d d' \<and> same_sizes d d' \<and>
           dict_map d' = (dict_map d)(key \<mapsto> Some v)"
proof -
  obtain t i j where l: "loc = (t, i, j)" by (cases loc)
  let ?h = "dict_ht d t"
  let ?b = "ht_table ?h ! i"
  let ?b' = "?b[j := Entry key (Some v)]"
  note V = valid_locD [OF wf loc [unfolded l]]
  have bj: "?b ! j = Entry key v0" using V(5) e l by simp
  let ?d = "dict_set_ht d t (?h\<lparr>ht_table := (ht_table ?h)[i := ?b'], ht_used := ht_used ?h\<rparr>)"
  have set: "dictSetVal d loc v = Some ?d"
    using V(5,7) e ok l by (simp add: dictSetVal_def type_ok_def Let_def)
  have mb: "mset ?b = add_mset (Entry key v0) (mset (take j ?b @ drop (Suc j) ?b))"
    "mset ?b' = add_mset (Entry key (Some v)) (mset (take j ?b @ drop (Suc j) ?b))"
    using mset_remove_nth [OF V(3)] bj V(3) by (simp_all add: upd_conv_take_nth_drop)
  have "mset (dict_entries ?d) + mset ?b = mset (dict_entries d) + mset ?b'"
    using mset_concat_update [OF V(2), of ?b'] V(1)
    by (auto simp: dict_entries_def dict_set_ht_def dict_ht_def ht_entries_def ac_simps
        split: if_splits)
  then have "add_mset (Entry key v0) (mset (dict_entries ?d)) =
      add_mset (Entry key (Some v)) (mset (dict_entries d))"
    by (simp add: mb)
  moreover obtain M where M: "mset (dict_entries d) = add_mset (Entry key v0) M"
    using valid_loc_entry [OF loc] e by (metis multi_member_split option.inject set_mset_mset)
  ultimately have M': "mset (dict_entries ?d) = add_mset (Entry key (Some v)) M"
    by simp
  note r = dict_map_replace [OF M M' wf]
  have "\<forall>x \<in> set ?b'. dictHashKey d (de_key x) AND ht_sizemask ?h = i"
    using V(3,6) bj set_update_subset_insert [of ?b j "Entry key (Some v)"]
    by (metis (no_types, lifting) dictEntry.sel(1) insert_iff nth_mem subset_iff)
  with dict_wf_set_bucket(1) [OF wf V(1,2,4), of ?b' "ht_used ?h" ?d] r(1)
  have "dict_wf ?d" by simp
  with set r(2) show ?thesis by (simp add: same_sizes_set_ht)
qed

section \<open>Adding and replacing\<close>

lemma dictAdd_ok:
  assumes wf: "dict_wf d" and ok: "type_ok d" and small: "dict_small d"
  shows "\<exists>d'. dictAdd can_resize d key v =
               Some (d', if dict_map d key = None then DICT_OK else DICT_ERR) \<and>
           dict_wf d' \<and> same_frame d d' \<and> dict_sizes_le d' (2 ^ 31) \<and>
           dict_map d' = (if dict_map d key = None then (dict_map d)(key \<mapsto> Some v) else dict_map d)"
proof -
  obtain d1 r where d1: "dictAddRaw can_resize d key = Some (d1, r)" "dict_wf d1" "same_frame d d1"
    "dict_sizes_le d1 (2 ^ 31)"
    "if dict_map d key = None
     then \<exists>loc. r = Some loc \<and> valid_loc d1 loc \<and> dict_entry_at d1 loc = Some (Entry key None) \<and>
            dict_map d1 = (dict_map d)(key \<mapsto> None)
     else r = None \<and> dict_map d1 = dict_map d"
    using dictAddRaw_ok [OF assms] by blast
  show ?thesis
  proof (cases "dict_map d key = None")
    case False
    with d1 show ?thesis by (auto simp: dictAdd_def)
  next
    case True
    then obtain loc where loc: "r = Some loc" "valid_loc d1 loc"
      "dict_entry_at d1 loc = Some (Entry key None)" "dict_map d1 = (dict_map d)(key \<mapsto> None)"
      using d1(5) by auto
    have "type_ok d1" using same_frame_cong [OF d1(3)] ok by simp
    from dictSetVal_ok [OF d1(2) this loc(2,3), of v] obtain d2 where
      "dictSetVal d1 loc v = Some d2" "dict_wf d2" "same_frame d1 d2" "same_sizes d1 d2"
      "dict_map d2 = (dict_map d1)(key \<mapsto> Some v)" by blast
    with True d1 loc show ?thesis
      by (auto simp: dictAdd_def same_sizes_le intro: same_frame_trans)
  qed
qed

lemma dictReplace_ok:
  assumes wf: "dict_wf d" and ok: "type_ok d" and small: "dict_small d"
  shows "\<exists>d'. dictReplace can_resize d key v =
               Some (d', dict_map d key = None,
                     case dict_map d key of None \<Rightarrow> []
                     | Some v0 \<Rightarrow> if valDestructor (d_type d) then [Freed_val v0] else []) \<and>
           dict_wf d' \<and> same_frame d d' \<and> dict_sizes_le d' (2 ^ 31) \<and>
           dict_map d' = (dict_map d)(key \<mapsto> Some v)"
proof -
  obtain d1 where d1: "dictAdd can_resize d key v =
      Some (d1, if dict_map d key = None then DICT_OK else DICT_ERR)" "dict_wf d1" "same_frame d d1"
    "dict_sizes_le d1 (2 ^ 31)"
    "dict_map d1 = (if dict_map d key = None then (dict_map d)(key \<mapsto> Some v) else dict_map d)"
    using dictAdd_ok [OF assms] by blast
  show ?thesis
  proof (cases "dict_map d key")
    case None
    with d1 show ?thesis by (simp add: dictReplace_def)
  next
    case (Some v0)
    have ok1: "type_ok d1" using same_frame_cong [OF d1(3)] ok by simp
    obtain d2 loc where d2: "dictFind d1 key = Some (d2, Some loc)" "rehash_keeps d1 d2"
      "valid_loc d2 loc" "dict_entry_at d2 loc = Some (Entry key v0)"
      using dictFind_ok [OF d1(2) ok1, of key] d1(5) Some by (auto split: option.splits)
    note k = rehash_keepsD [OF d2(2) d1(2)]
    have "type_ok d2" using same_frame_cong [OF k(2)] ok1 by simp
    from dictSetVal_ok [OF k(1) this d2(3,4), of v] obtain d3 where d3:
      "dictSetVal d2 loc v = Some d3" "dict_wf d3" "same_frame d2 d3" "same_sizes d2 d3"
      "dict_map d3 = (dict_map d2)(key \<mapsto> Some v)" by blast
    have fr: "same_frame d d3"
      using same_frame_trans [OF d1(3) same_frame_trans [OF k(2) d3(3)]] .
    then have "d_type d3 = d_type d" by (simp add: same_frame_def)
    with Some d1 d2 d3 k(3) k(5) [OF d1(4)] fr show ?thesis
      by (simp add: dictReplace_def dictFreeVal_def same_sizes_le)
  qed
qed

section \<open>Deleting\<close>

lemma dict_unlink_ok:
  assumes wf: "dict_wf d" and loc: "valid_loc d loc" and e: "dict_entry_at d loc = Some (Entry key v)"
  shows "\<exists>d'. dict_unlink d loc = Some d' \<and> dict_wf d' \<and> same_frame d d' \<and> same_sizes d d' \<and>
           dict_map d' = (dict_map d)(key := None)"
proof -
  obtain t i j where l: "loc = (t, i, j)" by (cases loc)
  let ?h = "dict_ht d t"
  let ?b = "ht_table ?h ! i"
  let ?b' = "take j ?b @ drop (Suc j) ?b"
  note V = valid_locD [OF wf loc [unfolded l]]
  have bj: "?b ! j = Entry key v" using V(5) e l by simp
  let ?d = "dict_set_ht d t (?h\<lparr>ht_table := (ht_table ?h)[i := ?b'], ht_used := ht_used ?h - 1\<rparr>)"
  have un: "dict_unlink d loc = Some ?d"
    using V(7) l by (simp add: dict_unlink_def Let_def)
  have "mset (dict_entries ?d) + mset ?b = mset (dict_entries d) + mset ?b'"
    using mset_concat_update [OF V(2), of ?b'] V(1)
    by (auto simp: dict_entries_def dict_set_ht_def dict_ht_def ht_entries_def ac_simps
        split: if_splits)
  moreover have "mset ?b = add_mset (Entry key v) (mset ?b')"
    using mset_remove_nth [OF V(3)] bj by simp
  ultimately have m: "mset (dict_entries d) = add_mset (Entry key v) (mset (dict_entries ?d))"
    by simp
  have dis: "distinct (map de_key (dict_entries d))" using wf by (simp add: dict_wf_def)
  then have "distinct (map de_key (Entry key v # dict_entries ?d))"
    using distinct_keys_mset [of "dict_entries d" "Entry key v # dict_entries ?d"] m by simp
  then have dis': "distinct (map de_key (dict_entries ?d))" by simp
  have "ht_used ?h = length (ht_entries ?h)" using dict_wf_ht [OF wf, of t] by (simp add: ht_wf_def)
  moreover have "length (ht_entries ?h) \<ge> length ?b"
    using arg_cong [OF mset_concat_update [OF V(2), of "[]"], of size] by (simp add: ht_entries_def)
  ultimately have u: "ht_used ?h - 1 + length ?b = ht_used ?h + length ?b'"
    using V(3) by (simp add: min_def)
  have "\<forall>x \<in> set ?b'. dictHashKey d (de_key x) AND ht_sizemask ?h = i"
    using V(6) by (auto dest: in_set_takeD in_set_dropD)
  from dict_wf_set_bucket(1) [OF wf V(1,2,4) this u refl dis'] have "dict_wf ?d" .
  moreover have "dict_map ?d = (dict_map d)(key := None)"
    using entry_map_remove [OF m dis] by (simp add: dict_map_entry_map)
  ultimately show ?thesis using un by (simp add: same_sizes_set_ht)
qed

lemma dictGenericDelete_ok:
  assumes wf: "dict_wf d" and ok: "type_ok d"
  shows "\<exists>d'. dictGenericDelete d key nofree =
               Some (d', case dict_map d key of
                       None \<Rightarrow> (DICT_ERR, [])
                     | Some v \<Rightarrow> (DICT_OK, if nofree then []
                                else dictFreeKey d (Entry key v) @ dictFreeVal d (Entry key v))) \<and>
           dict_wf d' \<and> same_frame d d' \<and> (\<forall>n. dict_sizes_le d n \<longrightarrow> dict_sizes_le d' n) \<and>
           dict_map d' = (dict_map d)(key := None)"
proof (cases "ht_size (ht0 d) = 0")
  case True
  then have "dict_map d key = None"
    using wf by (auto simp: dict_map_None_iff dict_wf_def ht_wf_def dict_entries_def ht_entries_def
        split: if_splits)
  with True wf show ?thesis by (simp add: dictGenericDelete_def fun_upd_idem)
next
  case False
  obtain d1 where d1: "rehash_on_use d = Some d1" "rehash_keeps d d1"
    using rehash_on_use_ok [OF wf] by blast
  note k = rehash_keepsD [OF d1(2) wf]
  note c = same_frame_cong [OF k(2)]
  have pos: "type_ok d1" "0 < ht_size (ht0 d1)" using c ok k(6) False by simp_all
  obtain r where r: "dict_find_both d1 key (dictHashKey d1 key) = Some r"
    "case r of None \<Rightarrow> dict_map d1 key = None
     | Some loc \<Rightarrow> valid_loc d1 loc \<and>
        (\<exists>v. dict_map d1 key = Some v \<and> dict_entry_at d1 loc = Some (Entry key v))"
    using dict_find_both_ok [OF k(1) pos] by blast
  show ?thesis
  proof (cases r)
    case None
    with r d1 k False show ?thesis by (simp add: dictGenericDelete_def fun_upd_idem)
  next
    case (Some loc)
    then obtain v where v: "valid_loc d1 loc" "dict_map d1 key = Some v"
      "dict_entry_at d1 loc = Some (Entry key v)" using r by auto
    obtain d2 where d2: "dict_unlink d1 loc = Some d2" "dict_wf d2" "same_frame d1 d2" "same_sizes d1 d2"
      "dict_map d2 = (dict_map d1)(key := None)"
      using dict_unlink_ok [OF k(1) v(1,3)] by blast
    have "dictGenericDelete d key nofree = Some (d2, DICT_OK, if nofree then []
        else dictFreeKey d (Entry key v) @ dictFreeVal d (Entry key v))"
      using False d1(1) r(1) Some v(3) d2(1) c by (simp add: dictGenericDelete_def)
    then show ?thesis
      using d2 v(2) k(3,5) same_frame_trans [OF k(2) d2(3)] same_sizes_le [OF d2(4)] by auto
  qed
qed

section \<open>Clearing\<close>

text \<open>Without a callback, the loop runs the destructors of every entry once, in order.\<close>

lemma clear_loop_frees_all:
  assumes "used = length (concat table)"
  shows "clear_loop d False table i used =
           concat (map (\<lambda>he. dictFreeKey d he @ dictFreeVal d he) (concat table))"
  using assms
proof (induction table arbitrary: i used)
  case (Cons b table)
  show ?case
  proof (cases "used = 0")
    case True
    with Cons.prems show ?thesis by auto
  next
    case False
    have "used - length b = length (concat table)" using Cons.prems by simp
    from Cons.IH [OF this] False show ?thesis by simp
  qed
qed simp

lemma dictClear_ok:
  assumes "ht_wf H h"
  shows "dictClear d h False =
           (dictReset, concat (map (\<lambda>he. dictFreeKey d he @ dictFreeVal d he) (ht_entries h)))"
  using assms clear_loop_frees_all [of "ht_used h" "ht_table h" d 0]
  by (simp add: dictClear_def ht_wf_def ht_entries_def)

lemma dictEmpty_wf: "dict_wf (fst (dictEmpty d callback)) \<and> dict_map (fst (dictEmpty d callback)) = Map.empty"
  by (simp add: dictEmpty_def dictClear_def dict_wf_def dictIsRehashing_def dict_entries_def
      dict_map_def dictHashKey_def [abs_def])

lemma dictCreate_wf: "dict_wf (dictCreate ty priv) \<and> dict_map (dictCreate ty priv) = Map.empty"
  by (simp add: dictCreate_def dict_wf_def dictIsRehashing_def dict_entries_def dict_map_def)

section \<open>Size\<close>

lemma dictSize_card:
  assumes "dict_wf d"
  shows "dictSize d = card (dom (dict_map d))"
proof -
  have "dom (dict_map d) = de_key ` set (dict_entries d)"
    using dict_map_None_iff [of d] by (auto simp: dom_def)
  then have "card (dom (dict_map d)) = length (map de_key (dict_entries d))"
    using assms distinct_card [of "map de_key (dict_entries d)"] by (simp add: dict_wf_def)
  with assms show ?thesis
    by (simp add: dictSize_def dict_wf_def ht_wf_def dict_entries_def)
qed

end
