(* ===== verification/Map_Store.thy ===== *)
theory Map_Store
  imports Prelude
begin

text \<open>
  The interface between the dictionary and its clients: a store with lookup, insertion,
  replacement and removal, whose lookups may change the store (the dictionary rehashes while it
  is read). The laws say what each call does to the map the store stands for; from them
  follows, for every sequence of calls, that the answers are those of the plain map.
\<close>

datatype ('k, 'v) map_op = Find 'k | Add 'k 'v | Replace 'k 'v | Delete 'k

datatype 'v map_ans = Found "'v option" | Done bool

text \<open>The reference: the same calls on a map.\<close>

fun map_ref :: "('k \<rightharpoonup> 'v) \<Rightarrow> ('k, 'v) map_op \<Rightarrow> ('k \<rightharpoonup> 'v) \<times> 'v map_ans" where
  "map_ref m (Find k) = (m, Found (m k))"
| "map_ref m (Add k v) = (if m k = None then (m(k \<mapsto> v), Done True) else (m, Done False))"
| "map_ref m (Replace k v) = (m(k \<mapsto> v), Done (m k = None))"
| "map_ref m (Delete k) = (m(k := None), Done (m k \<noteq> None))"

fun map_ref_run :: "('k \<rightharpoonup> 'v) \<Rightarrow> ('k, 'v) map_op list \<Rightarrow> ('k \<rightharpoonup> 'v) \<times> 'v map_ans list" where
  "map_ref_run m [] = (m, [])"
| "map_ref_run m (c # cs) =
     (case map_ref m c of (m1, a) \<Rightarrow> case map_ref_run m1 cs of (m2, as) \<Rightarrow> (m2, a # as))"

lemma map_ref_finite: "finite (dom m) \<Longrightarrow> finite (dom (fst (map_ref m c)))"
  by (cases c) auto

lemma map_ref_card: "finite (dom m) \<Longrightarrow> card (dom (fst (map_ref m c))) \<le> Suc (card (dom m))"
  by (cases c)
    (auto simp: card_insert_if intro: card_mono le_SucI order_trans [OF card_Diff1_le])

locale map_store =
  fixes inv :: "'s \<Rightarrow> bool"
    and view :: "'s \<Rightarrow> ('k \<rightharpoonup> 'v)"
    and limit :: nat
    and find :: "'s \<Rightarrow> 'k \<Rightarrow> ('s \<times> 'v option) option"
    and add :: "'s \<Rightarrow> 'k \<Rightarrow> 'v \<Rightarrow> ('s \<times> bool) option"
    and replace :: "'s \<Rightarrow> 'k \<Rightarrow> 'v \<Rightarrow> ('s \<times> bool) option"
    and delete :: "'s \<Rightarrow> 'k \<Rightarrow> ('s \<times> bool) option"
  assumes view_finite: "inv s \<Longrightarrow> finite (dom (view s))"
    and find_law: "inv s \<Longrightarrow> \<exists>s'. find s k = Some (s', view s k) \<and> inv s' \<and> view s' = view s"
    and add_law: "inv s \<Longrightarrow> card (dom (view s)) \<le> limit \<Longrightarrow>
      \<exists>s'. add s k v = Some (s', view s k = None) \<and> inv s' \<and>
        view s' = (if view s k = None then (view s)(k \<mapsto> v) else view s)"
    and replace_law: "inv s \<Longrightarrow> card (dom (view s)) \<le> limit \<Longrightarrow>
      \<exists>s'. replace s k v = Some (s', view s k = None) \<and> inv s' \<and> view s' = (view s)(k \<mapsto> v)"
    and delete_law: "inv s \<Longrightarrow>
      \<exists>s'. delete s k = Some (s', view s k \<noteq> None) \<and> inv s' \<and> view s' = (view s)(k := None)"
begin

fun call :: "'s \<Rightarrow> ('k, 'v) map_op \<Rightarrow> ('s \<times> 'v map_ans) option" where
  "call s (Find k) = map_option (apsnd Found) (find s k)"
| "call s (Add k v) = map_option (apsnd Done) (add s k v)"
| "call s (Replace k v) = map_option (apsnd Done) (replace s k v)"
| "call s (Delete k) = map_option (apsnd Done) (delete s k)"

fun run :: "'s \<Rightarrow> ('k, 'v) map_op list \<Rightarrow> ('s \<times> 'v map_ans list) option" where
  "run s [] = Some (s, [])"
| "run s (c # cs) = do {
     (s1, a) \<leftarrow> call s c;
     (s2, as) \<leftarrow> run s1 cs;
     Some (s2, a # as)
   }"

lemma call_simulates:
  assumes "inv s" "card (dom (view s)) \<le> limit"
  shows "\<exists>s'. call s c = Some (s', snd (map_ref (view s) c)) \<and> inv s' \<and>
           view s' = fst (map_ref (view s) c)"
proof (cases c)
  case (Find k)
  with find_law [OF assms(1), of k] show ?thesis by auto
next
  case (Add k v)
  with add_law [OF assms, of k v] show ?thesis by auto
next
  case (Replace k v)
  with replace_law [OF assms, of k v] show ?thesis by auto
next
  case (Delete k)
  with delete_law [OF assms(1), of k] show ?thesis by auto
qed

lemma run_simulates:
  assumes "inv s" "card (dom (view s)) + length cs \<le> Suc limit"
  shows "\<exists>s'. run s cs = Some (s', snd (map_ref_run (view s) cs)) \<and> inv s' \<and>
           view s' = fst (map_ref_run (view s) cs)"
  using assms
proof (induction cs arbitrary: s)
  case Nil
  then show ?case by simp
next
  case (Cons c cs)
  have le: "card (dom (view s)) \<le> limit" using Cons.prems(2) by simp
  obtain s1 where s1: "call s c = Some (s1, snd (map_ref (view s) c))" "inv s1"
    "view s1 = fst (map_ref (view s) c)"
    using call_simulates [OF Cons.prems(1) le] by blast
  have "card (dom (view s1)) + length cs \<le> Suc limit"
    using map_ref_card [OF view_finite [OF Cons.prems(1)], of c] Cons.prems(2) s1(3) by simp
  from Cons.IH [OF s1(2) this] s1 show ?case
    by (auto simp: split_beta)
qed

end

end
