(* ===== verification/Dict_Store.thy ===== *)
theory Dict_Store
  imports Dict_Update Map_Store
begin

text \<open>
  The dictionary as a provider of the \<open>map_store\<close> interface: lookups through
  \<open>dictFetchValue\<close>, insertion, replacement and deletion through \<open>dictAdd\<close>, \<open>dictReplace\<close> and
  \<open>dictDelete\<close>, and the theorem that any sequence of them answers as a finite map would.
\<close>

section \<open>The client's view of the calls\<close>

text \<open>\<open>dict_can_resize\<close> may change between calls; the operations carry its value.\<close>

definition dict_fetch :: "('k, 'v, 'p) dict \<Rightarrow> 'k \<Rightarrow> (('k, 'v, 'p) dict \<times> 'v option) option" where
  "dict_fetch d k = do {
     (d', r) \<leftarrow> dictFetchValue d k;
     Some (d', Option.bind r id)
   }"

definition dict_insert ::
  "bool \<Rightarrow> ('k, 'v, 'p) dict \<Rightarrow> 'k \<Rightarrow> 'v \<Rightarrow> (('k, 'v, 'p) dict \<times> bool) option" where
  "dict_insert can_resize d k v = do {
     (d', rc) \<leftarrow> dictAdd can_resize d k v;
     Some (d', rc = DICT_OK)
   }"

definition dict_replace ::
  "bool \<Rightarrow> ('k, 'v, 'p) dict \<Rightarrow> 'k \<Rightarrow> 'v \<Rightarrow> (('k, 'v, 'p) dict \<times> bool) option" where
  "dict_replace can_resize d k v = do {
     (d', added, _) \<leftarrow> dictReplace can_resize d k v;
     Some (d', added)
   }"

definition dict_delete :: "('k, 'v, 'p) dict \<Rightarrow> 'k \<Rightarrow> (('k, 'v, 'p) dict \<times> bool) option" where
  "dict_delete d k = do {
     (d', rc, _) \<leftarrow> dictDelete d k;
     Some (d', rc = DICT_OK)
   }"

text \<open>The dictionaries a client builds with these calls: every entry has its value.\<close>

definition dict_ready :: "('k, 'v, 'p) dict \<Rightarrow> bool" where
  "dict_ready d \<longleftrightarrow>
     dict_wf d \<and> type_ok d \<and> dict_sizes_le d (2 ^ 31) \<and> (\<forall>k. dict_map d k \<noteq> Some None)"

definition dict_view :: "('k, 'v, 'p) dict \<Rightarrow> ('k \<rightharpoonup> 'v)" where
  "dict_view d k = Option.bind (dict_map d k) id"

definition dict_limit :: nat where
  "dict_limit = 2 ^ 30"

lemma dict_view_map:
  assumes "dict_ready d"
  shows "dict_map d k = map_option Some (dict_view d k)"
proof (cases "dict_map d k")
  case (Some w)
  then obtain v where "w = Some v" using assms by (cases w) (auto simp: dict_ready_def)
  with Some show ?thesis by (simp add: dict_view_def)
qed (simp add: dict_view_def)

lemma dict_view_None: "dict_ready d \<Longrightarrow> dict_view d k = None \<longleftrightarrow> dict_map d k = None"
  by (simp add: dict_view_map)

lemma dom_dict_view: "dict_ready d \<Longrightarrow> dom (dict_view d) = dom (dict_map d)"
  by (auto simp: dom_def dict_view_map)

lemma dict_ready_small:
  "dict_ready d \<Longrightarrow> card (dom (dict_view d)) \<le> dict_limit \<Longrightarrow> dict_small d"
  by (simp add: dict_ready_def dict_small_def dict_limit_def dom_dict_view dictSize_card)

section \<open>The laws of the interface\<close>

lemma dict_fetch_law:
  assumes "dict_ready d"
  shows "\<exists>d'. dict_fetch d k = Some (d', dict_view d k) \<and> dict_ready d' \<and> dict_view d' = dict_view d"
proof -
  have r: "dict_wf d" "type_ok d" using assms by (auto simp: dict_ready_def)
  obtain d1 r1 where d1: "dictFind d k = Some (d1, r1)" "rehash_keeps d d1"
    "case r1 of None \<Rightarrow> dict_map d k = None
     | Some loc \<Rightarrow> valid_loc d1 loc \<and>
        (\<exists>v. dict_map d k = Some v \<and> dict_entry_at d1 loc = Some (Entry k v))"
    using dictFind_ok [OF r] by blast
  note k = rehash_keepsD [OF d1(2) r(1)]
  have "dict_fetch d k = Some (d1, dict_view d k)"
    using d1(1,3) by (cases r1) (auto simp: dict_fetch_def dictFetchValue_def dict_view_def)
  moreover have "dict_ready d1"
    using assms k same_frame_cong(5) [OF k(2)] by (simp add: dict_ready_def)
  ultimately show ?thesis using k(3) by (auto simp: dict_view_def [abs_def])
qed

text \<open>A call that keeps the invariant and sets or removes keys keeps \<open>dict_ready\<close>.\<close>

lemma dict_ready_step:
  assumes "dict_ready d" "dict_wf d'" "same_frame d d'" "dict_sizes_le d' (2 ^ 31)"
    and "dict_map d' = (dict_map d)(k := map_option Some x)"
  shows "dict_ready d' \<and> dict_view d' = (dict_view d)(k := x)"
proof -
  have "dict_map d' k' \<noteq> Some None" for k'
    using assms(1,5) by (cases x) (auto simp: dict_ready_def)
  moreover have "dict_view d' = (dict_view d)(k := x)"
    using assms(5) by (cases x) (auto simp: dict_view_def fun_eq_iff)
  ultimately show ?thesis
    using assms same_frame_cong(5) [OF assms(3)] by (simp add: dict_ready_def)
qed

lemma dict_insert_law:
  assumes "dict_ready d" "card (dom (dict_view d)) \<le> dict_limit"
  shows "\<exists>d'. dict_insert cr d k v = Some (d', dict_view d k = None) \<and> dict_ready d' \<and>
           dict_view d' = (if dict_view d k = None then (dict_view d)(k \<mapsto> v) else dict_view d)"
proof -
  have r: "dict_wf d" "type_ok d" using assms(1) by (auto simp: dict_ready_def)
  obtain d1 where d1: "dictAdd cr d k v =
      Some (d1, if dict_map d k = None then DICT_OK else DICT_ERR)" "dict_wf d1" "same_frame d d1"
    "dict_sizes_le d1 (2 ^ 31)"
    "dict_map d1 = (if dict_map d k = None then (dict_map d)(k \<mapsto> Some v) else dict_map d)"
    using dictAdd_ok [OF r dict_ready_small [OF assms]] by blast
  have "dict_map d1 = (dict_map d)(k := map_option Some
      (if dict_view d k = None then Some v else dict_view d k))"
    using d1(5) dict_view_map [OF assms(1), of k] by (cases "dict_view d k") (simp_all add: fun_upd_idem)
  from dict_ready_step [OF assms(1) d1(2-4) this] show ?thesis
    using d1(1) dict_view_None [OF assms(1), of k]
    by (auto simp: dict_insert_def fun_upd_idem)
qed

lemma dict_replace_law:
  assumes "dict_ready d" "card (dom (dict_view d)) \<le> dict_limit"
  shows "\<exists>d'. dict_replace cr d k v = Some (d', dict_view d k = None) \<and> dict_ready d' \<and>
           dict_view d' = (dict_view d)(k \<mapsto> v)"
proof -
  have r: "dict_wf d" "type_ok d" using assms(1) by (auto simp: dict_ready_def)
  obtain d1 ev where d1: "dictReplace cr d k v = Some (d1, dict_map d k = None, ev)" "dict_wf d1"
    "same_frame d d1" "dict_sizes_le d1 (2 ^ 31)" "dict_map d1 = (dict_map d)(k \<mapsto> Some v)"
    using dictReplace_ok [OF r dict_ready_small [OF assms]] by blast
  have "dict_map d1 = (dict_map d)(k := map_option Some (Some v))" using d1(5) by simp
  from dict_ready_step [OF assms(1) d1(2-4) this] show ?thesis
    using d1(1) dict_view_None [OF assms(1), of k] by (simp add: dict_replace_def)
qed

lemma dict_delete_law:
  assumes "dict_ready d"
  shows "\<exists>d'. dict_delete d k = Some (d', dict_view d k \<noteq> None) \<and> dict_ready d' \<and>
           dict_view d' = (dict_view d)(k := None)"
proof -
  have r: "dict_wf d" "type_ok d" "dict_sizes_le d (2 ^ 31)"
    using assms by (auto simp: dict_ready_def)
  obtain d1 where d1: "dictGenericDelete d k False =
      Some (d1, case dict_map d k of None \<Rightarrow> (DICT_ERR, [])
        | Some v \<Rightarrow> (DICT_OK, if False then []
            else dictFreeKey d (Entry k v) @ dictFreeVal d (Entry k v)))"
    "dict_wf d1" "same_frame d d1" "\<forall>n. dict_sizes_le d n \<longrightarrow> dict_sizes_le d1 n"
    "dict_map d1 = (dict_map d)(k := None)"
    using dictGenericDelete_ok [OF r(1,2), of k False] by blast
  have "dict_map d1 = (dict_map d)(k := map_option Some None)" using d1(5) by simp
  from dict_ready_step [OF assms d1(2,3) _ this] d1(4) r(3)
  have "dict_ready d1 \<and> dict_view d1 = (dict_view d)(k := None)" by blast
  moreover have "dict_delete d k = Some (d1, dict_view d k \<noteq> None)"
    using d1(1) dict_view_None [OF assms, of k]
    by (cases "dict_map d k") (auto simp: dict_delete_def dictDelete_def)
  ultimately show ?thesis by blast
qed

text \<open>Both settings of \<open>dict_can_resize\<close> provide the interface.\<close>

interpretation store: map_store dict_ready dict_view dict_limit
  dict_fetch "dict_insert cr" "dict_replace cr" dict_delete
  for cr
proof (unfold_locales, goal_cases)
  case (1 d)
  then have "finite (dom (dict_map d))"
    by (simp add: dict_map_def finite_dom_map_of)
  with 1 show ?case by (simp add: dom_dict_view)
qed (rule dict_fetch_law dict_insert_law dict_replace_law dict_delete_law, assumption+)+

end
