(* ===== verification/Dict_Properties.thy ===== *)
theory Dict_Properties
  imports Dict_Store
begin

text \<open>
  What the dictionary of \<^verbatim>\<open>util/dict.c\<close> promises its callers, operation by operation and for whole
  sequences of calls, stated over the models of the functions.
\<close>

section \<open>A dictionary in the middle of a rehash\<close>

text \<open>Natural keys hashed to themselves; the first bucket of four has been moved.\<close>

definition sample_type :: "(nat, nat, unit) dictType" where
  "sample_type = \<lparr>hashFunction = word_of_nat, keyDup = None, valDup = None, keyCompare = None,
     keyDestructor = True, valDestructor = True\<rparr>"

definition sample_dict :: "(nat, nat, unit) dict" where
  "sample_dict = \<lparr>d_type = sample_type, d_privdata = (),
     ht0 = \<lparr>ht_table = [[], [Entry 5 (Some 50), Entry 1 (Some 10)], [], []],
            ht_size = 4, ht_sizemask = 3, ht_used = 2\<rparr>,
     ht1 = \<lparr>ht_table = [[], [], [], [], [Entry 4 (Some 40)], [], [], []],
            ht_size = 8, ht_sizemask = 7, ht_used = 1\<rparr>,
     rehashidx = 1, d_iterators = 0\<rparr>"

lemma sample_type_ok: "type_ok sample_dict"
  by (simp add: type_ok_def sample_dict_def sample_type_def dictCompareKeys_def dict_key_copy_def
      dict_val_copy_def)

lemma all_less_4: "(\<forall>i < (4::nat). P i) \<longleftrightarrow> P 0 \<and> P 1 \<and> P 2 \<and> P 3"
  by (simp add: eval_nat_numeral All_less_Suc conj_ac)

lemma all_less_8: "(\<forall>i < (8::nat). P i) \<longleftrightarrow> P 0 \<and> P 1 \<and> P 2 \<and> P 3 \<and> P 4 \<and> P 5 \<and> P 6 \<and> P 7"
  by (simp add: eval_nat_numeral All_less_Suc conj_ac)

lemma sample_dict_wf: "dict_wf sample_dict"
proof -
  have "\<exists>k. (4::nat) = 2 ^ k" "\<exists>k. (8::nat) = 2 ^ k"
    by (rule exI [of _ 2], simp) (rule exI [of _ 3], simp)
  then show ?thesis
    by (simp add: dict_wf_def ht_wf_def all_less_4 all_less_8 sample_dict_def sample_type_def
        dictHashKey_def dict_entries_def ht_entries_def dictIsRehashing_def)
qed

lemma sample_dict_small: "dict_small sample_dict"
  by (simp add: dict_small_def dict_sizes_le_def dictSize_def sample_dict_def)

lemmas sample_ok = sample_dict_wf sample_type_ok

section \<open>Sequences of calls\<close>

text \<open>
  C1: a dictionary implements a finite map. From a fresh dictionary, every sequence of lookups,
  insertions, replacements and deletions, up to \<open>2 ^ 30\<close> of them, runs without a failed
  assertion or an access outside a table, gives the answers of a plain map one after the other,
  and leaves a well-formed dictionary that stands for the map; when the tables grow and how far the
  incremental rehash has come never shows.
\<close>

theorem dict_implements_map:
  assumes "type_ok (dictCreate ty priv)" "length ops \<le> 2 ^ 30"
  shows "\<exists>d. map_store.run dict_fetch (dict_insert cr) (dict_replace cr) dict_delete
               (dictCreate ty priv) ops = Some (d, snd (map_ref_run Map.empty ops)) \<and>
             dict_wf d \<and> dict_view d = fst (map_ref_run Map.empty ops)"
proof -
  let ?d = "dictCreate ty priv"
  have m: "dict_map ?d = Map.empty" "dict_wf ?d" using dictCreate_wf [of ty priv] by simp_all
  then have v: "dict_view ?d = Map.empty" by (simp add: dict_view_def fun_eq_iff)
  have "dict_ready ?d"
    using m assms(1) by (simp add: dict_ready_def dict_sizes_le_def dictCreate_def dictReset_def)
  from store.run_simulates [OF this, of ops] v assms(2) show ?thesis
    by (auto simp: dict_limit_def dict_ready_def)
qed

theorem dict_implements_map_witness:
  "\<exists>d. map_store.run dict_fetch (dict_insert True) (dict_replace True) dict_delete
       (dictCreate sample_type ()) [Add (1 :: nat) (10 :: nat), Add 2 20, Replace 1 11, Find 1, Delete 2, Find 2] =
         Some (d, snd (map_ref_run Map.empty
           [Add (1 :: nat) (10 :: nat), Add 2 20, Replace 1 11, Find 1, Delete 2, Find 2])) \<and>
     dict_wf d \<and>
     dict_view d = fst (map_ref_run Map.empty [Add (1 :: nat) (10 :: nat), Add 2 20, Replace 1 11, Find 1, Delete 2, Find 2])"
  by (rule dict_implements_map)
    (simp_all add: type_ok_def dictCreate_def sample_type_def dictCompareKeys_def dict_key_copy_def
      dict_val_copy_def)

section \<open>Single calls\<close>

text \<open>
  \<open>dictFetchValue\<close> returns what the map holds for the key, found or not, while the step of rehashing
  it takes first keeps the map, the number of entries and the invariant.
\<close>

lemma dictFetchValue_spec:
  assumes "dict_wf d" "type_ok d"
  shows "\<exists>d'. dictFetchValue d key = Some (d', dict_map d key) \<and> dict_wf d' \<and>
           dict_map d' = dict_map d \<and> dictSize d' = dictSize d"
proof -
  obtain d1 r where d1: "dictFind d key = Some (d1, r)" "rehash_keeps d d1"
    "case r of None \<Rightarrow> dict_map d key = None
     | Some loc \<Rightarrow> valid_loc d1 loc \<and>
         (\<exists>v. dict_map d key = Some v \<and> dict_entry_at d1 loc = Some (Entry key v))"
    using dictFind_ok [OF assms] by blast
  then have "dictFetchValue d key = Some (d1, dict_map d key)"
    by (cases r) (auto simp: dictFetchValue_def)
  with rehash_keepsD [OF d1(2) assms(1)] show ?thesis by blast
qed

lemma dictFetchValue_spec_witness:
  "\<exists>d'. dictFetchValue sample_dict 4 = Some (d', dict_map sample_dict 4) \<and> dict_wf d' \<and>
     dict_map d' = dict_map sample_dict \<and> dictSize d' = dictSize sample_dict"
  by (rule dictFetchValue_spec [OF sample_ok])

text \<open>
  \<open>dictAdd\<close> adds a key that is not in the dictionary, with its value, and returns
  \<open>DICT_OK\<close>; a key that is there makes it return \<open>DICT_ERR\<close> and leave the map alone. The
  dictionary stays well formed and its size counts the keys, also when the call grows the
  table or moves a bucket.
\<close>

lemma dictAdd_spec:
  assumes "dict_wf d" "type_ok d" "dict_small d"
  shows "\<exists>d'. dictAdd can_resize d key v =
               Some (d', if dict_map d key = None then DICT_OK else DICT_ERR) \<and>
           dict_wf d' \<and> dictSize d' = card (dom (dict_map d')) \<and>
           dict_map d' = (if dict_map d key = None then (dict_map d)(key \<mapsto> Some v) else dict_map d)"
  using dictAdd_ok [OF assms] dictSize_card by blast

lemma dictAdd_spec_witness:
  "\<exists>d'. dictAdd True sample_dict 9 90 =
         Some (d', if dict_map sample_dict 9 = None then DICT_OK else DICT_ERR) \<and>
     dict_wf d' \<and> dictSize d' = card (dom (dict_map d')) \<and>
     dict_map d' = (if dict_map sample_dict 9 = None then (dict_map sample_dict)(9 \<mapsto> Some 90)
                    else dict_map sample_dict)"
  by (rule dictAdd_spec [OF sample_ok sample_dict_small])

text \<open>
  \<open>dictReplace\<close> always leaves the new value in the map, says whether the key was new, and runs the
  value destructor exactly once, on the value that was replaced, and only then.
\<close>

lemma dictReplace_spec:
  assumes "dict_wf d" "type_ok d" "dict_small d"
  shows "\<exists>d'. dictReplace can_resize d key v =
               Some (d', dict_map d key = None,
                     case dict_map d key of None \<Rightarrow> []
                     | Some v0 \<Rightarrow> if valDestructor (d_type d) then [Freed_val v0] else []) \<and>
           dict_wf d' \<and> dict_map d' = (dict_map d)(key \<mapsto> Some v)"
  using dictReplace_ok [OF assms] by blast

lemma dictReplace_spec_witness:
  "\<exists>d'. dictReplace True sample_dict 1 11 =
         Some (d', dict_map sample_dict 1 = None,
               case dict_map sample_dict 1 of None \<Rightarrow> []
               | Some v0 \<Rightarrow> if valDestructor (d_type sample_dict) then [Freed_val v0] else []) \<and>
     dict_wf d' \<and> dict_map d' = (dict_map sample_dict)(1 \<mapsto> Some 11)"
  by (rule dictReplace_spec [OF sample_ok sample_dict_small])

text \<open>
  \<open>dictDelete\<close> removes the key and nothing else, runs the destructors of the removed entry's
  key and value in this order, and returns \<open>DICT_ERR\<close> without running any when the key is not there;
  \<open>dictDeleteNoFree\<close> does the same without the destructors.
\<close>

lemma dictDelete_spec:
  assumes "dict_wf d" "type_ok d"
  shows "(\<exists>d'. dictDelete d key =
               Some (d', case dict_map d key of None \<Rightarrow> (DICT_ERR, [])
                     | Some v \<Rightarrow> (DICT_OK, dictFreeKey d (Entry key v) @ dictFreeVal d (Entry key v))) \<and>
           dict_wf d' \<and> dict_map d' = (dict_map d)(key := None)) \<and>
         (\<exists>d'. dictDeleteNoFree d key =
               Some (d', case dict_map d key of None \<Rightarrow> DICT_ERR | Some v \<Rightarrow> DICT_OK, []) \<and>
           dict_wf d' \<and> dict_map d' = (dict_map d)(key := None))"
  using dictGenericDelete_ok [OF assms, of key False] dictGenericDelete_ok [OF assms, of key True]
  by (cases "dict_map d key") (auto simp: dictDelete_def dictDeleteNoFree_def)

lemma dictDelete_spec_witness:
  "(\<exists>d'. dictDelete sample_dict 5 =
         Some (d', case dict_map sample_dict 5 of None \<Rightarrow> (DICT_ERR, [])
               | Some v \<Rightarrow> (DICT_OK, dictFreeKey sample_dict (Entry 5 v) @
                            dictFreeVal sample_dict (Entry 5 v))) \<and>
     dict_wf d' \<and> dict_map d' = (dict_map sample_dict)(5 := None)) \<and>
   (\<exists>d'. dictDeleteNoFree sample_dict 5 =
         Some (d', case dict_map sample_dict 5 of None \<Rightarrow> DICT_ERR | Some v \<Rightarrow> DICT_OK, []) \<and>
     dict_wf d' \<and> dict_map d' = (dict_map sample_dict)(5 := None))"
  by (rule dictDelete_spec [OF sample_ok])

section \<open>Rehashing and resizing\<close>

text \<open>
  C5: \<open>dictRehash\<close> with any number of steps neither loses nor duplicates an entry and keeps the
  invariant; its result says whether the rehash goes on, and more steps than the old table has
  buckets always finish it. Its inner loop never runs off the table and its assertion never
  fails.
\<close>

theorem dictRehash_spec:
  assumes "dict_wf d"
  shows "\<exists>d' more. dictRehash d n = Some (d', more) \<and> dict_wf d' \<and>
           mset (dict_entries d') = mset (dict_entries d) \<and> dict_map d' = dict_map d \<and>
           more = dictIsRehashing d' \<and>
           (if ht_size (ht0 d) < n then \<not> more else True)"
proof -
  obtain d' b where d': "dictRehash d n = Some (d', b)" "rehash_keeps d d'" "b = dictIsRehashing d'"
    "ht_size (ht0 d) < n \<longrightarrow> \<not> b"
    using dictRehash_ok [OF assms, of n] by blast
  with rehash_keepsD [OF d'(2) assms] show ?thesis by (auto simp: rehash_keeps_def)
qed

theorem dictRehash_spec_witness:
  "\<exists>d' more. dictRehash sample_dict 5 = Some (d', more) \<and> dict_wf d' \<and>
     mset (dict_entries d') = mset (dict_entries sample_dict) \<and>
     dict_map d' = dict_map sample_dict \<and> more = dictIsRehashing d' \<and>
     (if ht_size (ht0 sample_dict) < 5 then \<not> more else True)"
  by (rule dictRehash_spec [OF sample_dict_wf])

text \<open>
  The new table of \<open>dictExpand\<close> has the least power of two of buckets that is at least 4 and at
  least the requested size; for requests from \<open>LONG_MAX\<close> on it has \<open>LONG_MAX\<close> buckets, which is
  no power of two.
\<close>

lemma dictNextPower_least:
  "if sz < LONG_MAX then
     (\<exists>k \<ge> 2. dictNextPower sz = 2 ^ k \<and> sz \<le> 2 ^ k \<and> (k = 2 \<or> 2 ^ (k - 1) < sz))
   else dictNextPower sz = LONG_MAX \<and> odd (dictNextPower sz)"
proof (cases "sz < LONG_MAX")
  case True
  then obtain k where k: "2 \<le> k" "dictNextPower sz = 2 ^ k" "sz \<le> 2 ^ k"
    "\<forall>n \<ge> 2. sz \<le> 2 ^ n \<longrightarrow> k \<le> n"
    using dictNextPower_ok by blast
  have "2 ^ (k - 1) < sz" if "k \<noteq> 2"
    using k(1) k(4) [rule_format, of "k - 1"] that by linarith
  with True k show ?thesis by auto
qed (simp add: dictNextPower_def LONG_MAX_def)

text \<open>
  \<open>dictResize\<close> starts to shrink or grow the table to the least power of two that holds its
  entries, keeping the map; it refuses, and changes nothing, while a rehash is under way or when resizing
  is disabled.
\<close>

lemma dictResize_spec:
  assumes "dict_wf d" "dictSize d < LONG_MAX"
  shows "if \<not> can_resize \<or> dictIsRehashing d then dictResize can_resize d = (d, DICT_ERR)
    else \<exists>d'. dictResize can_resize d = (d', DICT_OK) \<and> dict_wf d' \<and> dict_map d' = dict_map d \<and>
      dictIsRehashing d' = (ht_size (ht0 d) \<noteq> 0) \<and>
      ht_size (dict_ht d' (if dictIsRehashing d' then 1 else 0)) =
        dictNextPower (max DICT_HT_INITIAL_SIZE (dictSize d))"
proof (cases "\<not> can_resize \<or> dictIsRehashing d")
  case True
  then show ?thesis by (auto simp: dictResize_def)
next
  case False
  let ?sz = "max DICT_HT_INITIAL_SIZE (dictSize d)"
  have s: "dictSize d = ht_used (ht0 d)"
    using False assms(1) by (simp add: dictSize_def dict_wf_def)
  have "?sz < LONG_MAX" using assms(2) by (simp add: DICT_HT_INITIAL_SIZE_def LONG_MAX_def)
  from dictExpand_ok [OF assms(1) _ _ this] False s obtain d' where
    d': "dictExpand d ?sz = (d', DICT_OK)" "dict_keeps d d'"
    "dictIsRehashing d' = (ht_size (ht0 d) \<noteq> 0)"
    "ht_size (dict_ht d' (if dictIsRehashing d' then 1 else 0)) = dictNextPower ?sz"
    by force
  have "(if ht_used (ht0 d) < DICT_HT_INITIAL_SIZE then DICT_HT_INITIAL_SIZE else ht_used (ht0 d)) = ?sz"
    by (simp add: s max_def)
  then have "dictResize can_resize d = (d', DICT_OK)"
    using False d'(1) by (simp add: dictResize_def)
  with False d' dict_keepsD [OF d'(2) assms(1)] show ?thesis by auto
qed

text \<open>A table of eight buckets for one entry.\<close>

definition sparse_dict :: "(nat, nat, unit) dict" where
  "sparse_dict = \<lparr>d_type = sample_type, d_privdata = (),
     ht0 = \<lparr>ht_table = [[], [Entry 1 (Some 10)], [], [], [], [], [], []],
            ht_size = 8, ht_sizemask = 7, ht_used = 1\<rparr>,
     ht1 = dictReset, rehashidx = -1, d_iterators = 0\<rparr>"

lemma sparse_dict_wf: "dict_wf sparse_dict"
proof -
  have "\<exists>k. (8::nat) = 2 ^ k" by (rule exI [of _ 3]) simp
  then show ?thesis
    by (simp add: dict_wf_def ht_wf_def all_less_8 sparse_dict_def sample_type_def dictReset_def
        dictHashKey_def dict_entries_def ht_entries_def dictIsRehashing_def)
qed

lemma dictResize_spec_witness:
  "if \<not> True \<or> dictIsRehashing sparse_dict then dictResize True sparse_dict = (sparse_dict, DICT_ERR)
   else \<exists>d'. dictResize True sparse_dict = (d', DICT_OK) \<and> dict_wf d' \<and>
      dict_map d' = dict_map sparse_dict \<and>
      dictIsRehashing d' = (ht_size (ht0 sparse_dict) \<noteq> 0) \<and>
      ht_size (dict_ht d' (if dictIsRehashing d' then 1 else 0)) =
        dictNextPower (max DICT_HT_INITIAL_SIZE (dictSize sparse_dict))"
  by (rule dictResize_spec [OF sparse_dict_wf])
    (simp add: dictSize_def sparse_dict_def dictReset_def LONG_MAX_def)

section \<open>Releasing\<close>

text \<open>
  \<open>dictRelease\<close> runs the destructors of every entry of both tables exactly once, the key's before the
  value's, although its loops stop as soon as their count of used entries is zero.
\<close>

lemma dictRelease_frees_once:
  assumes "dict_wf d"
  shows "dictRelease d =
           concat (map (\<lambda>he. dictFreeKey d he @ dictFreeVal d he) (dict_entries d)) \<and>
         distinct (map de_key (dict_entries d))"
proof -
  have "ht_wf (dictHashKey d) (ht0 d)" "ht_wf (dictHashKey d) (ht1 d)"
    "distinct (map de_key (dict_entries d))"
    using assms by (simp_all add: dict_wf_def)
  then show ?thesis
    by (simp add: dictRelease_def dictClear_ok [of "dictHashKey d"] dict_entries_def)
qed

lemma dictRelease_frees_once_witness:
  "dictRelease sample_dict =
     concat (map (\<lambda>he. dictFreeKey sample_dict he @ dictFreeVal sample_dict he)
       (dict_entries sample_dict)) \<and>
   distinct (map de_key (dict_entries sample_dict))"
  by (rule dictRelease_frees_once [OF sample_dict_wf])

end
