(* ===== verification/Dict_Scan.thy ===== *)
theory Dict_Scan
  imports Dict_Properties
begin

text \<open>
  \<open>dictScan\<close>, the stateless iteration with a reversed cursor: one call gives the entries of some buckets to
  the callback and returns the cursor for the next call, and between two calls the dictionary may be
  changed and resized. The entries given to the callback are a result of the model. \<open>None\<close> is an access
  outside a table or a loop that does not end.
\<close>

section \<open>Definitions\<close>

text \<open>The loop of \<open>rev\<close>; it halves \<open>s\<close> before it tests it.\<close>

function rev_loop :: "nat \<Rightarrow> u64 \<Rightarrow> u64 \<Rightarrow> u64" where
  "rev_loop s0 mask0 v0 =
     (let s = s0 div 2 in
      if 0 < s
      then let mask = mask0 XOR push_bit s mask0 in
           rev_loop s mask ((drop_bit s v0 AND mask) OR (push_bit s v0 AND NOT mask))
      else v0)"
  by pat_completeness auto
termination
  by (relation "measure (\<lambda>(s, mask, v). s)") auto

declare rev_loop.simps [simp del]

definition rev_bits :: "u64 \<Rightarrow> u64" where
  "rev_bits v = rev_loop (8 * 8) (- 1) v"

text \<open>The \<open>do\<close> loop over the expansions of the cursor in the larger table.\<close>

partial_function (option) scan_expansions ::
  "('k, 'v) dictht \<Rightarrow> u64 \<Rightarrow> u64 \<Rightarrow> u64 \<Rightarrow> (u64 \<times> ('k, 'v) dictEntry list) option" where
  "scan_expansions t1 m0 m1 v = do {
     de \<leftarrow> ht_bucket t1 (unat (v AND m1));
     let v' = (((v OR m0) + 1) AND NOT m0) OR (v AND m0) in
     if v' AND (m0 XOR m1) \<noteq> 0
     then do { (w, es) \<leftarrow> scan_expansions t1 m0 m1 v'; Some (w, de @ es) }
     else Some (v', de)
   }"

text \<open>The steps on the cursor after the buckets.\<close>

definition next_cursor :: "u64 \<Rightarrow> u64 \<Rightarrow> u64" where
  "next_cursor m0 v = rev_bits (rev_bits (v OR NOT m0) + 1)"

definition dictScan ::
  "('k, 'v, 'p) dict \<Rightarrow> u64 \<Rightarrow> (u64 \<times> ('k, 'v) dictEntry list) option" where
  "dictScan d v =
     (if dictSize d = 0 then Some (0, [])
      else if \<not> dictIsRehashing d
      then (let m0 = of_nat (ht_sizemask (ht0 d)) in do {
              de \<leftarrow> ht_bucket (ht0 d) (unat (v AND m0));
              Some (next_cursor m0 v, de)
            })
      else (let (t0, t1) = (if ht_size (ht1 d) < ht_size (ht0 d) then (ht1 d, ht0 d) else (ht0 d, ht1 d));
                m0 = of_nat (ht_sizemask t0);
                m1 = of_nat (ht_sizemask t1) in do {
              de \<leftarrow> ht_bucket t0 (unat (v AND m0));
              (v', es) \<leftarrow> scan_expansions t1 m0 m1 v;
              Some (next_cursor m0 v', de @ es)
            }))"

section \<open>The reversal of bits\<close>

text \<open>One round with the mask of the bits whose position has an even quotient by \<open>s\<close>.\<close>

definition swap_place :: "nat \<Rightarrow> nat \<Rightarrow> nat" where
  "swap_place s n = (if even (n div s) then n + s else n - s)"

lemma swap_round:
  assumes "\<And>n. n < 64 \<Longrightarrow> bit msk n = even (n div s)" "n < 64" "0 < s"
  shows "bit ((drop_bit s v AND msk) OR (push_bit s v AND NOT msk)) n = bit (v :: u64) (swap_place s n)"
proof (cases "even (n div s)")
  case True
  then show ?thesis using assms by (simp add: bit_simps swap_place_def add.commute)
next
  case False
  then have "s \<le> n" by (metis div_less even_zero not_le)
  with False show ?thesis using assms by (simp add: bit_simps swap_place_def)
qed

lemma even_place_masks:
  "list_all (\<lambda>n. (bit (0x00000000FFFFFFFF :: u64) n = even (n div 32)) \<and>
     (bit (0x0000FFFF0000FFFF :: u64) n = even (n div 16)) \<and>
     (bit (0x00FF00FF00FF00FF :: u64) n = even (n div 8)) \<and>
     (bit (0x0F0F0F0F0F0F0F0F :: u64) n = even (n div 4)) \<and>
     (bit (0x3333333333333333 :: u64) n = even (n div 2)) \<and>
     (bit (0x5555555555555555 :: u64) n = even n)) [0..<64]"
  by (simp add: upt_rec)

definition reverses_place :: "nat \<Rightarrow> bool" where
  "reverses_place n \<longleftrightarrow>
     swap_place 32 (swap_place 16 (swap_place 8 (swap_place 4 (swap_place 2 (swap_place 1 n))))) = 63 - n"

lemma swap_places: "list_all reverses_place [0..<64]"
  by (simp add: upt_rec) (simp add: reverses_place_def swap_place_def)

lemma bit_masks:
  assumes "n < 64"
  shows "bit (0x00000000FFFFFFFF :: u64) n = even (n div 32)" "bit (0x0000FFFF0000FFFF :: u64) n = even (n div 16)"
    "bit (0x00FF00FF00FF00FF :: u64) n = even (n div 8)" "bit (0x0F0F0F0F0F0F0F0F :: u64) n = even (n div 4)"
    "bit (0x3333333333333333 :: u64) n = even (n div 2)" "bit (0x5555555555555555 :: u64) n = even (n div 1)"
  using even_place_masks assms unfolding list_all_iff set_upt
  by (simp_all only: atLeastLessThan_iff le0 simp_thms div_by_1)

lemma bit_swaps:
  fixes v :: u64
  assumes "n < 64"
  shows "bit ((drop_bit 32 v AND 0x00000000FFFFFFFF) OR (push_bit 32 v AND NOT 0x00000000FFFFFFFF)) n = bit v (swap_place 32 n)"
    "bit ((drop_bit 16 v AND 0x0000FFFF0000FFFF) OR (push_bit 16 v AND NOT 0x0000FFFF0000FFFF)) n = bit v (swap_place 16 n)"
    "bit ((drop_bit 8 v AND 0x00FF00FF00FF00FF) OR (push_bit 8 v AND NOT 0x00FF00FF00FF00FF)) n = bit v (swap_place 8 n)"
    "bit ((drop_bit 4 v AND 0x0F0F0F0F0F0F0F0F) OR (push_bit 4 v AND NOT 0x0F0F0F0F0F0F0F0F)) n = bit v (swap_place 4 n)"
    "bit ((drop_bit 2 v AND 0x3333333333333333) OR (push_bit 2 v AND NOT 0x3333333333333333)) n = bit v (swap_place 2 n)"
    "bit ((drop_bit 1 v AND 0x5555555555555555) OR (push_bit 1 v AND NOT 0x5555555555555555)) n = bit v (swap_place 1 n)"
proof -
  note m = bit_masks
  show "bit ((drop_bit 32 v AND 0x00000000FFFFFFFF) OR (push_bit 32 v AND NOT 0x00000000FFFFFFFF)) n = bit v (swap_place 32 n)"
    by (rule swap_round [OF m(1) assms]) simp_all
  show "bit ((drop_bit 16 v AND 0x0000FFFF0000FFFF) OR (push_bit 16 v AND NOT 0x0000FFFF0000FFFF)) n = bit v (swap_place 16 n)"
    by (rule swap_round [OF m(2) assms]) simp_all
  show "bit ((drop_bit 8 v AND 0x00FF00FF00FF00FF) OR (push_bit 8 v AND NOT 0x00FF00FF00FF00FF)) n = bit v (swap_place 8 n)"
    by (rule swap_round [OF m(3) assms]) simp_all
  show "bit ((drop_bit 4 v AND 0x0F0F0F0F0F0F0F0F) OR (push_bit 4 v AND NOT 0x0F0F0F0F0F0F0F0F)) n = bit v (swap_place 4 n)"
    by (rule swap_round [OF m(4) assms]) simp_all
  show "bit ((drop_bit 2 v AND 0x3333333333333333) OR (push_bit 2 v AND NOT 0x3333333333333333)) n = bit v (swap_place 2 n)"
    by (rule swap_round [OF m(5) assms]) simp_all
  show "bit ((drop_bit 1 v AND 0x5555555555555555) OR (push_bit 1 v AND NOT 0x5555555555555555)) n = bit v (swap_place 1 n)"
    by (rule swap_round [OF m(6) assms]) simp_all
qed

lemma swap_place_less:
  assumes "n < 64" "s \<in> {1, 2, 4, 8, 16, 32}"
  shows "swap_place s n < 64"
proof -
  have "list_all (\<lambda>n. list_all (\<lambda>s. swap_place s n < 64) [1, 2, 4, 8, 16, 32]) [0..<64]"
    by (simp add: upt_rec swap_place_def)
  with assms show ?thesis by (simp only: list_all_iff set_upt set_simps atLeastLessThan_iff le0 simp_thms)
qed

lemma even_half_shift:
  assumes "0 < s"
  shows "(even (n div (2 * s)) \<noteq> (s \<le> n \<and> even ((n - s) div (2 * s)))) = even (n div (s :: nat))"
proof -
  define q where "q = n div s"
  have h: "m div (2 * s) = m div s div 2" for m by (simp add: div_mult2_eq mult.commute)
  have "s \<le> n \<longleftrightarrow> 0 < q" using assms by (simp add: q_def div_greater_zero_iff)
  moreover have "(n - s) div s = q - 1"
    using assms by (cases "s \<le> n") (simp_all add: q_def le_div_geq)
  moreover have "(even (q div 2) \<noteq> (0 < q \<and> even ((q - 1) div 2))) = even q"
    by presburger
  ultimately show ?thesis by (simp add: h flip: q_def)
qed

lemma mask_step:
  fixes msk :: u64
  assumes "\<And>n. n < 64 \<Longrightarrow> bit msk n = even (n div s2)" "\<And>n. n < 64 \<Longrightarrow> bit msk' n = even (n div s)"
    "s2 = 2 * s" "0 < s"
  shows "msk XOR push_bit s msk = msk'"
proof (rule bit_word_eqI)
  fix n assume n: "n < LENGTH(64)"
  with assms(1,2) even_half_shift [OF assms(4), of n] show "bit (msk XOR push_bit s msk) n = bit msk' n"
    by (auto simp: bit_simps assms(3))
qed

lemma rev_masks:
  "(- 1 :: u64) XOR push_bit 32 (- 1) = 0x00000000FFFFFFFF"
  "(0x00000000FFFFFFFF :: u64) XOR push_bit 16 0x00000000FFFFFFFF = 0x0000FFFF0000FFFF"
  "(0x0000FFFF0000FFFF :: u64) XOR push_bit 8 0x0000FFFF0000FFFF = 0x00FF00FF00FF00FF"
  "(0x00FF00FF00FF00FF :: u64) XOR push_bit 4 0x00FF00FF00FF00FF = 0x0F0F0F0F0F0F0F0F"
  "(0x0F0F0F0F0F0F0F0F :: u64) XOR push_bit 2 0x0F0F0F0F0F0F0F0F = 0x3333333333333333"
  "(0x3333333333333333 :: u64) XOR push_bit 1 0x3333333333333333 = 0x5555555555555555"
proof -
  have all_ones: "bit (- 1 :: u64) n = even (n div 64)" if "n < 64" for n using that by simp
  note masks = all_ones bit_masks
  show "(- 1 :: u64) XOR push_bit 32 (- 1) = 0x00000000FFFFFFFF"
    by (rule mask_step [OF masks(1,2)]) simp_all
  show "(0x00000000FFFFFFFF :: u64) XOR push_bit 16 0x00000000FFFFFFFF = 0x0000FFFF0000FFFF"
    by (rule mask_step [OF masks(2,3)]) simp_all
  show "(0x0000FFFF0000FFFF :: u64) XOR push_bit 8 0x0000FFFF0000FFFF = 0x00FF00FF00FF00FF"
    by (rule mask_step [OF masks(3,4)]) simp_all
  show "(0x00FF00FF00FF00FF :: u64) XOR push_bit 4 0x00FF00FF00FF00FF = 0x0F0F0F0F0F0F0F0F"
    by (rule mask_step [OF masks(4,5)]) simp_all
  show "(0x0F0F0F0F0F0F0F0F :: u64) XOR push_bit 2 0x0F0F0F0F0F0F0F0F = 0x3333333333333333"
    by (rule mask_step [OF masks(5,6)]) simp_all
  show "(0x3333333333333333 :: u64) XOR push_bit 1 0x3333333333333333 = 0x5555555555555555"
    by (rule mask_step [OF masks(6,7)]) simp_all
qed

lemma rev_loop_step:
  "s2 = 2 * s \<Longrightarrow> 0 < s \<Longrightarrow> msk XOR push_bit s msk = msk' \<Longrightarrow>
     rev_loop s2 msk v = rev_loop s msk' ((drop_bit s v AND msk') OR (push_bit s v AND NOT msk'))"
  by (subst rev_loop.simps) (simp add: Let_def)

lemma rev_loop_1: "rev_loop 1 msk v = v"
  by (subst rev_loop.simps) simp

lemma rev_bits_rounds:
  "rev_bits v =
     (let v5 = (drop_bit 32 v AND 0x00000000FFFFFFFF) OR (push_bit 32 v AND NOT 0x00000000FFFFFFFF);
          v4 = (drop_bit 16 v5 AND 0x0000FFFF0000FFFF) OR (push_bit 16 v5 AND NOT 0x0000FFFF0000FFFF);
          v3 = (drop_bit 8 v4 AND 0x00FF00FF00FF00FF) OR (push_bit 8 v4 AND NOT 0x00FF00FF00FF00FF);
          v2 = (drop_bit 4 v3 AND 0x0F0F0F0F0F0F0F0F) OR (push_bit 4 v3 AND NOT 0x0F0F0F0F0F0F0F0F);
          v1 = (drop_bit 2 v2 AND 0x3333333333333333) OR (push_bit 2 v2 AND NOT 0x3333333333333333)
      in (drop_bit 1 v1 AND 0x5555555555555555) OR (push_bit 1 v1 AND NOT 0x5555555555555555))"
proof -
  have two: "8 * 8 = 2 * (32 :: nat)" "32 = 2 * (16 :: nat)" "16 = 2 * (8 :: nat)" "8 = 2 * (4 :: nat)"
    "4 = 2 * (2 :: nat)" "2 = 2 * (1 :: nat)" by simp_all
  have pos: "0 < (32 :: nat)" "0 < (16 :: nat)" "0 < (8 :: nat)" "0 < (4 :: nat)" "0 < (2 :: nat)" "0 < (1 :: nat)"
    by simp_all
  show ?thesis
    unfolding rev_bits_def Let_def
    by (simp only: rev_loop_step [OF two(1) pos(1) rev_masks(1)] rev_loop_step [OF two(2) pos(2) rev_masks(2)]
        rev_loop_step [OF two(3) pos(3) rev_masks(3)] rev_loop_step [OF two(4) pos(4) rev_masks(4)]
        rev_loop_step [OF two(5) pos(5) rev_masks(5)] rev_loop_step [OF two(6) pos(6) rev_masks(6)] rev_loop_1)
qed

text \<open>\<open>rev\<close> puts the bits in the opposite order.\<close>

lemma bit_rev_bits: "bit (rev_bits v) n = (n < 64 \<and> bit v (63 - n))"
proof (cases "n < 64")
  case True
  have "swap_place 32 (swap_place 16 (swap_place 8 (swap_place 4 (swap_place 2 (swap_place 1 n))))) = 63 - n"
    using swap_places True by (simp add: list_all_iff reverses_place_def)
  with True show ?thesis
    unfolding rev_bits_rounds Let_def by (simp only: bit_swaps swap_place_less insert_iff simp_thms)
next
  case False
  then show ?thesis using bit_imp_le_length [of "rev_bits v" n] by auto
qed

lemma rev_rev_bits [simp]: "rev_bits (rev_bits v) = v"
  by (rule bit_word_eqI) (auto simp: bit_rev_bits)

section \<open>The reversed cursor as a number\<close>

definition place :: "u64 \<Rightarrow> nat" where
  "place v = unat (rev_bits v)"

lemma place_less: "place v < 2 ^ 64"
  using unsigned_less [of "rev_bits v"] by (simp add: place_def)

lemma place_0 [simp]: "place v = 0 \<longleftrightarrow> v = 0"
proof -
  have "rev_bits 0 = 0" by (rule bit_word_eqI) (simp add: bit_rev_bits)
  then show ?thesis by (metis place_def rev_rev_bits unsigned_0 unsigned_eq_0_iff)
qed

lemma place_zero [simp]: "place 0 = 0"
  by simp

lemma or_mask_nat: "(n :: nat) OR mask j = n div 2 ^ j * 2 ^ j + (2 ^ j - 1)"
proof -
  have "push_bit j (drop_bit j n) + mask j = push_bit j (drop_bit j n) OR mask j"
    by (rule disjunctive_add_eq_or) (rule bit_eqI, auto simp: bit_simps)
  also have "\<dots> = n OR mask j" by (rule bit_eqI) (auto simp: bit_simps)
  finally show ?thesis by (simp add: push_bit_eq_mult drop_bit_eq_div mask_eq_exp_minus_1)
qed

text \<open>With a table of \<open>2 ^ k\<close> buckets the reversed cursor moves on by \<open>2 ^ (64 - k)\<close>.\<close>

lemma place_next_cursor:
  assumes "k \<le> 64"
  shows "place (next_cursor (mask k) v) = (place v div 2 ^ (64 - k) + 1) * 2 ^ (64 - k) mod 2 ^ 64"
proof -
  have "rev_bits (v OR NOT (mask k)) = rev_bits v OR mask (64 - k)"
    by (rule bit_word_eqI) (use assms in \<open>auto simp: bit_simps bit_rev_bits\<close>)
  then have "place (next_cursor (mask k) v) = (unat (rev_bits v OR mask (64 - k)) + 1) mod 2 ^ 64"
    by (simp add: place_def next_cursor_def unat_word_ariths)
  also have "unat (rev_bits v OR mask (64 - k)) = place v OR mask (64 - k)"
    unfolding place_def by (rule bit_eqI) (use assms in \<open>auto simp: bit_simps\<close>)
  finally show ?thesis by (simp add: or_mask_nat algebra_simps)
qed

text \<open>The bucket of a hash, in a table of \<open>2 ^ k\<close> buckets, as a prefix of its reversed bits.\<close>

lemma same_prefix:
  assumes "k \<le> 64"
  shows "v AND mask k = w AND mask k \<longleftrightarrow> place v div 2 ^ (64 - k) = place w div 2 ^ (64 - k)"
proof -
  have "place v div 2 ^ (64 - k) = place w div 2 ^ (64 - k) \<longleftrightarrow>
      drop_bit (64 - k) (rev_bits v) = drop_bit (64 - k) (rev_bits w)"
    by (simp add: place_def word_unat_eq_iff flip: drop_bit_eq_div unat_drop_bit_eq)
  moreover have "drop_bit (64 - k) (rev_bits v) = drop_bit (64 - k) (rev_bits w) \<longleftrightarrow> v AND mask k = w AND mask k"
  proof
    assume r: "drop_bit (64 - k) (rev_bits v) = drop_bit (64 - k) (rev_bits w)"
    show "v AND mask k = w AND mask k"
    proof (rule bit_word_eqI)
      fix n assume n: "n < LENGTH(64)"
      show "bit (v AND mask k) n = bit (w AND mask k) n"
      proof (cases "n < k")
        case True
        with arg_cong [OF r, of "\<lambda>x. bit x (k - 1 - n)"] assms n show ?thesis
          by (auto simp: bit_simps bit_rev_bits)
      qed (simp add: bit_simps)
    qed
  next
    assume r: "v AND mask k = w AND mask k"
    show "drop_bit (64 - k) (rev_bits v) = drop_bit (64 - k) (rev_bits w)"
    proof (rule bit_word_eqI)
      fix n
      show "bit (drop_bit (64 - k) (rev_bits v)) n = bit (drop_bit (64 - k) (rev_bits w)) n"
        using arg_cong [OF r, of "\<lambda>x. bit x (63 - (64 - k + n))"] assms
        by (auto simp: bit_simps bit_rev_bits)
    qed
  qed
  ultimately show ?thesis by simp
qed

lemma place_multiple:
  assumes "k \<le> 64"
  shows "2 ^ (64 - k) dvd place v \<longleftrightarrow> v AND mask k = v"
proof -
  have "2 ^ (64 - k) dvd place v \<longleftrightarrow> take_bit (64 - k) (rev_bits v) = 0"
    by (simp add: place_def dvd_eq_mod_eq_0 unsigned_eq_0_iff flip: take_bit_eq_mod unsigned_take_bit_eq)
  also have "\<dots> \<longleftrightarrow> v AND mask k = v"
  proof
    assume r: "take_bit (64 - k) (rev_bits v) = 0"
    show "v AND mask k = v"
    proof (rule bit_word_eqI)
      fix n assume "n < LENGTH(64)"
      with arg_cong [OF r, of "\<lambda>x. bit x (63 - n)"] assms show "bit (v AND mask k) n = bit v n"
        by (auto simp: bit_simps bit_rev_bits)
    qed
  next
    assume r: "v AND mask k = v"
    show "take_bit (64 - k) (rev_bits v) = 0"
    proof (rule bit_word_eqI)
      fix n assume "n < LENGTH(64)"
      with arg_cong [OF r, of "\<lambda>x. bit x (63 - n)"] assms show "bit (take_bit (64 - k) (rev_bits v)) n = bit 0 n"
        by (auto simp: bit_simps bit_rev_bits)
    qed
  qed
  finally show ?thesis .
qed

section \<open>The expansions of a cursor\<close>

lemma expansion_step:
  "(((v OR mask a) + 1) AND NOT (mask a)) OR (v AND mask a) = (v :: u64) + push_bit a 1"
proof -
  define y where "y = push_bit a (drop_bit a v + 1)"
  have y: "y = push_bit a (drop_bit a v) + push_bit a 1" by (simp add: y_def push_bit_add)
  have low: "\<not> bit y n" if "n < a" for n using that by (simp add: y_def bit_push_bit_iff)
  have "v OR mask a = push_bit a (drop_bit a v) OR mask a" by (rule bit_word_eqI) (auto simp: bit_simps)
  also have "\<dots> = push_bit a (drop_bit a v) + mask a"
    by (rule disjunctive_add_eq_or [symmetric]) (rule bit_word_eqI, auto simp: bit_simps)
  finally have "(v OR mask a) + 1 = y" by (simp add: y mask_eq_exp_minus_1 push_bit_eq_mult)
  moreover have "y AND NOT (mask a) = y"
    by (rule bit_word_eqI) (use low not_less in \<open>auto simp: bit_and_iff bit_not_iff bit_mask_iff\<close>)
  moreover have "y OR (v AND mask a) = y + (v AND mask a)"
    by (rule disjunctive_add_eq_or [symmetric])
      (rule bit_word_eqI, use low in \<open>auto simp: bit_and_iff bit_mask_iff\<close>)
  moreover have "push_bit a (drop_bit a v) + (v AND mask a) = v"
    by (subst disjunctive_add_eq_or) (auto intro!: bit_word_eqI simp: bit_simps)
  ultimately show ?thesis by (simp add: y ac_simps)
qed

lemma unat_and_mask: "unat ((w :: u64) AND mask b) = unat w mod 2 ^ b"
  by (simp flip: take_bit_eq_mask take_bit_eq_mod add: unsigned_take_bit_eq)

lemma expansion_index:
  fixes v :: u64
  assumes "b \<le> 64"
  shows "unat ((v + push_bit a 1) AND mask b) = (unat (v AND mask b) + 2 ^ a) mod 2 ^ b"
proof -
  have "(2 :: nat) ^ b dvd 2 ^ 64" using assms by (rule le_imp_power_dvd)
  then have m: "x mod 2 ^ 64 mod 2 ^ b = x mod 2 ^ b" for x :: nat by (rule mod_mod_cancel)
  have "unat ((v + push_bit a 1) AND mask b) = (unat v + unat (push_bit a (1 :: u64))) mod 2 ^ b"
    unfolding unat_and_mask by (simp add: unat_word_ariths m [simplified])
  also have "unat (push_bit a (1 :: u64)) = 2 ^ a mod 2 ^ 64"
    unfolding unsigned_push_bit_eq by (simp add: take_bit_eq_mod)
  also have "(unat v + 2 ^ a mod 2 ^ 64) mod 2 ^ b = (unat v mod 2 ^ b + 2 ^ a) mod 2 ^ b"
    by (metis m mod_add_left_eq mod_add_right_eq)
  finally show ?thesis by (simp add: unat_and_mask)
qed

lemma expansion_low:
  assumes "a \<le> 64"
  shows "(v + push_bit a 1) AND mask a = (v :: u64) AND mask a"
proof -
  have "unat ((v + push_bit a 1) AND mask a) = unat (v AND mask a)"
    unfolding expansion_index [OF assms] by (simp only: unat_and_mask mod_add_self2 mod_mod_trivial)
  then show ?thesis by (simp only: word_unat_eq_iff)
qed

lemma expansion_more:
  fixes v :: u64
  assumes "a \<le> b"
  shows "v AND (mask a XOR mask b) = 0 \<longleftrightarrow> unat (v AND mask b) div 2 ^ a = 0"
proof -
  have "unat (v AND mask b) div 2 ^ a = 0 \<longleftrightarrow> drop_bit a (v AND mask b) = 0"
    by (simp add: unsigned_eq_0_iff flip: drop_bit_eq_div unat_drop_bit_eq)
  also have "\<dots> \<longleftrightarrow> v AND (mask a XOR mask b) = 0"
  proof
    assume r: "drop_bit a (v AND mask b) = 0"
    show "v AND (mask a XOR mask b) = 0"
    proof (rule bit_word_eqI)
      fix n
      show "bit (v AND (mask a XOR mask b)) n = bit 0 n"
        using arg_cong [OF r, of "\<lambda>x. bit x (n - a)"] assms by (cases "a \<le> n") (auto simp: bit_simps)
    qed
  next
    assume r: "v AND (mask a XOR mask b) = 0"
    show "drop_bit a (v AND mask b) = 0"
    proof (rule bit_word_eqI)
      fix n
      show "bit (drop_bit a (v AND mask b)) n = bit 0 n"
        using arg_cong [OF r, of "\<lambda>x. bit x (a + n)"] by (auto simp: bit_simps)
    qed
  qed
  finally show ?thesis ..
qed

text \<open>The loop emits the buckets of the larger table from the cursor's on that end in its low bits.\<close>

lemma scan_expansions_ok:
  assumes ab: "a \<le> b" "b < 64" and T: "length (ht_table t1) = 2 ^ b"
    and v: "unat (v AND mask b) = l + x * 2 ^ a" and l: "l < 2 ^ a" and x: "x < 2 ^ (b - a)"
  shows "\<exists>v'. scan_expansions t1 (mask a) (mask b) v =
      Some (v', concat (map (\<lambda>i. ht_table t1 ! (l + i * 2 ^ a)) [x..<2 ^ (b - a)])) \<and> v' AND mask a = v AND mask a"
  using v x
proof (induction "2 ^ (b - a) - x" arbitrary: v x)
  case (Suc n)
  define w where "w = v + push_bit a 1"
  have p: "(2 :: nat) ^ b = 2 ^ a * 2 ^ (b - a)" using ab(1) by (simp flip: power_add)
  have le: "l + Suc x * 2 ^ a \<le> l + 2 ^ b" using Suc.prems(2) unfolding p by (metis Suc_leI add_left_mono mult.commute mult_le_mono1)
  have idx: "unat (v AND mask b) < 2 ^ b"
    unfolding unat_and_mask by simp
  then have bucket: "ht_bucket t1 (unat (v AND mask b)) = Some (ht_table t1 ! (l + x * 2 ^ a))"
    using Suc.prems(1) T by (simp add: ht_bucket_def)
  have w: "unat (w AND mask b) = (l + Suc x * 2 ^ a) mod 2 ^ b"
    unfolding w_def using expansion_index [of b v a] ab(2) Suc.prems(1) by (simp add: ac_simps)
  have low: "w AND mask a = v AND mask a" unfolding w_def using ab by (intro expansion_low) simp
  have up: "[x..<2 ^ (b - a)] = x # [Suc x..<2 ^ (b - a)]" using Suc.prems(2) by (rule upt_conv_Cons)
  note step = scan_expansions.simps [of t1 "mask a" "mask b" v, unfolded expansion_step, folded w_def, unfolded bucket]
  show ?case
  proof (cases "Suc x < 2 ^ (b - a)")
    case True
    have "l + Suc x * 2 ^ a < 2 ^ b"
    proof -
      have "Suc (Suc x) * 2 ^ a \<le> 2 ^ (b - a) * 2 ^ a" using True by (intro mult_le_mono1) simp
      then show ?thesis using l unfolding p by (simp add: mult.commute)
    qed
    with w have w': "unat (w AND mask b) = l + Suc x * 2 ^ a" by simp
    have "unat (w AND mask b) div 2 ^ a = Suc x" unfolding w' using l div_mult_self1 [of "2 ^ a" l "Suc x"] by simp
    then have "\<not> w AND (mask a XOR mask b) = 0" using expansion_more [OF ab(1), of w] by simp
    moreover have "n = 2 ^ (b - a) - Suc x" using Suc.hyps(2) by simp
    from Suc.hyps(1) [OF this w' True] obtain v' where "scan_expansions t1 (mask a) (mask b) w =
      Some (v', concat (map (\<lambda>i. ht_table t1 ! (l + i * 2 ^ a)) [Suc x..<2 ^ (b - a)]))" "v' AND mask a = w AND mask a"
      by blast
    ultimately show ?thesis using low unfolding step up by (simp add: Let_def)
  next
    case False
    then have "Suc x = 2 ^ (b - a)" using Suc.prems(2) by simp
    then have "unat (w AND mask b) = (l + 2 ^ b) mod 2 ^ b" unfolding w p by (simp add: mult.commute)
    also have "\<dots> = l" using l ab(1) by (simp add: order_less_le_trans [OF l] power_increasing)
    finally have "unat (w AND mask b) div 2 ^ a = 0" using l by simp
    then have "w AND (mask a XOR mask b) = 0" using expansion_more [OF ab(1), of w] by simp
    then show ?thesis using low False unfolding step up by (simp add: Let_def)
  qed
qed simp

section \<open>One call\<close>

text \<open>The buckets of the smaller table decide how far a call gets.\<close>

definition scan_size :: "('k, 'v, 'p) dict \<Rightarrow> nat" where
  "scan_size d = (if dictIsRehashing d then min (ht_size (ht0 d)) (ht_size (ht1 d)) else ht_size (ht0 d))"

definition scan_unit :: "('k, 'v, 'p) dict \<Rightarrow> nat" where
  "scan_unit d = 2 ^ 64 div scan_size d"

definition key_place :: "('k, 'v, 'p) dict \<Rightarrow> 'k \<Rightarrow> nat" where
  "key_place d k = place (of_nat (dictHashKey d k))"

lemma concat_nth_filter:
  "concat (map (\<lambda>j. if Q j then xs ! j else []) js) = concat (map ((!) xs) (filter Q js))"
  by (induction js) simp_all

lemma ht_filter_buckets:
  assumes "ht_wf H h"
  shows "filter (\<lambda>e. Q (H (de_key e) AND ht_sizemask h)) (ht_entries h) =
           concat (map ((!) (ht_table h)) (filter Q [0..<ht_size h]))"
proof -
  have "map (filter (\<lambda>e. Q (H (de_key e) AND ht_sizemask h))) (ht_table h) =
      map (\<lambda>j. if Q j then ht_table h ! j else []) [0..<ht_size h]"
    using assms by (intro nth_equalityI) (auto simp: ht_wf_def filter_id_conv filter_empty_conv)
  then show ?thesis
    by (simp add: ht_entries_def filter_concat concat_nth_filter)
qed

lemma filter_eq_upt: "i < n \<Longrightarrow> filter (\<lambda>j. j = i) [0..<n] = [i :: nat]"
  by (induction n) (auto simp: less_Suc_eq filter_empty_conv)

lemma filter_residue:
  assumes "a \<le> b" "l < 2 ^ a"
  shows "filter (\<lambda>j. j mod 2 ^ a = l) [0..<2 ^ b] = map (\<lambda>i. l + i * 2 ^ a) [0..<2 ^ (b - a)]"
proof (rule sorted_distinct_set_unique)
  have p: "(2 :: nat) ^ b = 2 ^ a * 2 ^ (b - a)" using assms(1) by (simp flip: power_add)
  show "set (filter (\<lambda>j. j mod 2 ^ a = l) [0..<2 ^ b]) = set (map (\<lambda>i. l + i * 2 ^ a) [0..<2 ^ (b - a)])"
  proof (rule set_eqI, rule iffI)
    fix j assume j: "j \<in> set (filter (\<lambda>j. j mod 2 ^ a = l) [0..<2 ^ b])"
    then have "j = l + j div 2 ^ a * 2 ^ a" by (metis (mono_tags) mem_Collect_eq mod_div_mult_eq set_filter)
    moreover have "j div 2 ^ a < 2 ^ (b - a)" using j p by (simp add: less_mult_imp_div_less mult.commute)
    ultimately show "j \<in> set (map (\<lambda>i. l + i * 2 ^ a) [0..<2 ^ (b - a)])" by auto
  next
    fix j assume "j \<in> set (map (\<lambda>i. l + i * 2 ^ a) [0..<2 ^ (b - a)])"
    then obtain i where i: "j = l + i * 2 ^ a" "i < 2 ^ (b - a)" by auto
    have "Suc i * 2 ^ a \<le> 2 ^ (b - a) * 2 ^ a" using i(2) by (intro mult_le_mono1) simp
    then have "j < 2 ^ b" using i(1) assms(2) p by (simp add: mult.commute)
    with i assms(2) show "j \<in> set (filter (\<lambda>j. j mod 2 ^ a = l) [0..<2 ^ b])" by simp
  qed
qed (simp_all add: sorted_filter [of id, simplified] distinct_map inj_on_def sorted_map sorted_wrt_upt sorted_wrt_map)

lemma ht_power:
  assumes "ht_wf H h" "0 < ht_size h" "ht_size h \<le> 2 ^ 63"
  obtains k where "k < 64" "ht_size h = 2 ^ k" "ht_sizemask h = 2 ^ k - 1" "length (ht_table h) = 2 ^ k"
    "of_nat (ht_sizemask h) = (mask k :: u64)"
proof -
  from assms(1,2) obtain k where k: "ht_size h = 2 ^ k" "ht_sizemask h = 2 ^ k - 1" "length (ht_table h) = 2 ^ k"
    by (auto simp: ht_wf_def)
  with assms(3) have "2 ^ k \<le> (2 :: nat) ^ 63" by (simp only: k)
  then have "k \<le> 63" by (rule power_le_imp_le_exp [rotated]) simp
  moreover have "of_nat (ht_sizemask h) = (mask k :: u64)" by (simp add: k mask_eq_exp_minus_1 of_nat_diff)
  ultimately show ?thesis using k that [of k] by simp
qed

text \<open>The keys whose bucket in a table of \<open>2 ^ k\<close> buckets is the cursor's.\<close>

lemma same_bucket:
  assumes "k \<le> 64"
  shows "place (of_nat h) div 2 ^ (64 - k) = place v div 2 ^ (64 - k) \<longleftrightarrow> h mod 2 ^ k = unat (v AND mask k)"
proof -
  have "(2 :: nat) ^ k dvd 2 ^ 64" using assms by (rule le_imp_power_dvd)
  then have "unat (of_nat h AND mask k :: u64) = h mod 2 ^ k"
    unfolding unat_and_mask by (simp add: unsigned_of_nat take_bit_eq_mod mod_mod_cancel [simplified])
  then show ?thesis
    unfolding same_prefix [OF assms, symmetric] by (simp add: word_unat_eq_iff)
qed

lemma ht_filter_places:
  assumes "ht_wf H h" "ht_size h = 2 ^ b" "ht_sizemask h = 2 ^ b - 1" "a \<le> b" "b \<le> 64"
  shows "filter (\<lambda>e. place (of_nat (H (de_key e))) div 2 ^ (64 - a) = place v div 2 ^ (64 - a)) (ht_entries h) =
    concat (map (\<lambda>i. ht_table h ! (unat (v AND mask a) + i * 2 ^ a)) [0..<2 ^ (b - a)])"
proof -
  have d: "(2 :: nat) ^ a dvd 2 ^ b" using assms(4) by (rule le_imp_power_dvd)
  have "filter (\<lambda>e. place (of_nat (H (de_key e))) div 2 ^ (64 - a) = place v div 2 ^ (64 - a)) (ht_entries h) =
      filter (\<lambda>e. (H (de_key e) AND ht_sizemask h) mod 2 ^ a = unat (v AND mask a)) (ht_entries h)"
    using same_bucket [of a _ v] assms(3-5) by (simp add: nat_and_mask mod_mod_cancel [OF d])
  also have "\<dots> = concat (map ((!) (ht_table h)) (filter (\<lambda>j. j mod 2 ^ a = unat (v AND mask a)) [0..<2 ^ b]))"
    using ht_filter_buckets [OF assms(1), of "\<lambda>j. j mod 2 ^ a = unat (v AND mask a)"] assms(2) by simp
  also have "filter (\<lambda>j. j mod 2 ^ a = unat (v AND mask a)) [0..<2 ^ b] =
      map (\<lambda>i. unat (v AND mask a) + i * 2 ^ a) [0..<2 ^ (b - a)]"
    by (rule filter_residue [OF assms(4)]) (simp add: unat_and_mask)
  finally show ?thesis by (simp add: comp_def)
qed

lemma scan_rehashing:
  assumes w0: "ht_wf H t0" and w1: "ht_wf H t1" and s: "ht_size t0 \<le> ht_size t1" "0 < ht_size t0" "ht_size t1 \<le> 2 ^ 63"
    and unit: "unit = 2 ^ 64 div ht_size t0"
  shows "\<exists>de v' es. ht_bucket t0 (unat (v AND of_nat (ht_sizemask t0))) = Some de \<and>
    scan_expansions t1 (of_nat (ht_sizemask t0)) (of_nat (ht_sizemask t1)) v = Some (v', es) \<and>
    place (next_cursor (of_nat (ht_sizemask t0)) v') = (place v div unit + 1) * unit mod 2 ^ 64 \<and>
    set (de @ es) \<subseteq> set (ht_entries t0 @ ht_entries t1) \<and>
    (unit dvd place v \<longrightarrow> de @ es =
       filter (\<lambda>e. place (of_nat (H (de_key e))) div unit = place v div unit) (ht_entries t0 @ ht_entries t1))"
proof -
  obtain a where a: "a < 64" "ht_size t0 = 2 ^ a" "ht_sizemask t0 = 2 ^ a - 1" "length (ht_table t0) = 2 ^ a"
    "of_nat (ht_sizemask t0) = (mask a :: u64)"
    using ht_power [OF w0 s(2)] s by auto
  obtain b where b: "b < 64" "ht_size t1 = 2 ^ b" "ht_sizemask t1 = 2 ^ b - 1" "length (ht_table t1) = 2 ^ b"
    "of_nat (ht_sizemask t1) = (mask b :: u64)"
    using ht_power [OF w1 _ s(3)] s by auto
  have ab: "a \<le> b" using s(1) a(2) b(2) by simp
  have u: "unit = 2 ^ (64 - a)" using unit a(1,2) by (simp add: power_diff)
  let ?l = "unat (v AND mask a)" and ?x = "unat (v AND mask b) div 2 ^ a"
  have d: "(2 :: nat) ^ a dvd 2 ^ b" using ab by (rule le_imp_power_dvd)
  have l: "?l < 2 ^ a" by (simp add: unat_and_mask)
  have "unat (v AND mask b) mod 2 ^ a = ?l" by (simp add: unat_and_mask mod_mod_cancel [OF d])
  then have v: "unat (v AND mask b) = ?l + ?x * 2 ^ a" by (metis mod_div_mult_eq)
  have p: "(2 :: nat) ^ b = 2 ^ a * 2 ^ (b - a)" using ab by (simp flip: power_add)
  have "unat (v AND mask b) < 2 ^ b" by (simp add: unat_and_mask)
  then have x: "?x < 2 ^ (b - a)" unfolding p by (simp add: less_mult_imp_div_less mult.commute)
  obtain v' where v': "scan_expansions t1 (mask a) (mask b) v =
      Some (v', concat (map (\<lambda>i. ht_table t1 ! (?l + i * 2 ^ a)) [?x..<2 ^ (b - a)]))" "v' AND mask a = v AND mask a"
    using scan_expansions_ok [OF ab b(1,4) v l x] by blast
  let ?es = "concat (map (\<lambda>i. ht_table t1 ! (?l + i * 2 ^ a)) [?x..<2 ^ (b - a)])"
  have small: "filter (\<lambda>e. place (of_nat (H (de_key e))) div unit = place v div unit) (ht_entries t0) = ht_table t0 ! ?l"
    using ht_filter_places [OF w0 a(2,3), of a v] a(1) u by simp
  have large: "filter (\<lambda>e. place (of_nat (H (de_key e))) div unit = place v div unit) (ht_entries t1) =
      concat (map (\<lambda>i. ht_table t1 ! (?l + i * 2 ^ a)) [0..<2 ^ (b - a)])"
    using ht_filter_places [OF w1 b(2,3) ab, of v] b(1) u by simp
  have "set ?es \<subseteq> set (ht_entries t1)"
  proof -
    have "set ?es \<subseteq> set (concat (map (\<lambda>i. ht_table t1 ! (?l + i * 2 ^ a)) [0..<2 ^ (b - a)]))" by fastforce
    also have "\<dots> \<subseteq> set (ht_entries t1)" unfolding large [symmetric] by auto
    finally show ?thesis .
  qed
  moreover have "set (ht_table t0 ! ?l) \<subseteq> set (ht_entries t0)" unfolding small [symmetric] by auto
  moreover have "?x = 0" if "unit dvd place v"
  proof -
    have "v AND mask a = v" using that place_multiple [of a v] a(1) u by simp
    then have "unat v < 2 ^ a" using l by simp
    then show ?thesis
      using order_le_less_trans [OF mod_less_eq_dividend [of "unat v" "2 ^ b"]] by (simp add: unat_and_mask)
  qed
  moreover have "place (next_cursor (mask a) v') = (place v div unit + 1) * unit mod 2 ^ 64"
    using place_next_cursor [of a v'] same_prefix [of a v' v] v'(2) a(1) u by simp
  moreover have "ht_bucket t0 ?l = Some (ht_table t0 ! ?l)" using l a(4) by (simp add: ht_bucket_def)
  ultimately show ?thesis using v'(1) unfolding a(5) b(5) filter_append small large by auto
qed

lemma dictScan_step:
  assumes wf: "dict_wf d" and sizes: "dict_sizes_le d (2 ^ 63)" and ne: "dictSize d \<noteq> 0"
  shows "\<exists>v' es. dictScan d v = Some (v', es) \<and>
    place v' = (place v div scan_unit d + 1) * scan_unit d mod 2 ^ 64 \<and> set es \<subseteq> set (dict_entries d) \<and>
    (\<not> dictIsRehashing d \<or> scan_unit d dvd place v \<longrightarrow>
       mset es = mset (filter (\<lambda>e. key_place d (de_key e) div scan_unit d = place v div scan_unit d) (dict_entries d)))"
proof (cases "dictIsRehashing d")
  case True
  define t0 t1 where "t0 = (if ht_size (ht1 d) < ht_size (ht0 d) then ht1 d else ht0 d)"
    and "t1 = (if ht_size (ht1 d) < ht_size (ht0 d) then ht0 d else ht1 d)"
  have "ht_wf (dictHashKey d) t0" "ht_wf (dictHashKey d) t1" "ht_size t0 \<le> ht_size t1" "0 < ht_size t0"
    "ht_size t1 \<le> 2 ^ 63" "scan_unit d = 2 ^ 64 div ht_size t0"
    using wf sizes True by (auto simp: t0_def t1_def dict_wf_def dict_sizes_le_def scan_unit_def scan_size_def min_def)
  from scan_rehashing [OF this, of v] obtain de v' es where s:
    "ht_bucket t0 (unat (v AND of_nat (ht_sizemask t0))) = Some de"
    "scan_expansions t1 (of_nat (ht_sizemask t0)) (of_nat (ht_sizemask t1)) v = Some (v', es)"
    "place (next_cursor (of_nat (ht_sizemask t0)) v') = (place v div scan_unit d + 1) * scan_unit d mod 2 ^ 64"
    "set (de @ es) \<subseteq> set (ht_entries t0 @ ht_entries t1)"
    "scan_unit d dvd place v \<longrightarrow> de @ es =
       filter (\<lambda>e. key_place d (de_key e) div scan_unit d = place v div scan_unit d) (ht_entries t0 @ ht_entries t1)"
    unfolding key_place_def by blast
  have "dictScan d v = Some (next_cursor (of_nat (ht_sizemask t0)) v', de @ es)"
    using True ne s(1,2) by (simp add: dictScan_def Let_def t0_def t1_def split: if_splits)
  moreover have "mset (ht_entries t0 @ ht_entries t1) = mset (dict_entries d)"
    by (simp add: t0_def t1_def dict_entries_def)
  moreover have "mset (filter P (ht_entries t0 @ ht_entries t1)) = mset (filter P (dict_entries d))" for P
    using calculation(2) by (simp only: mset_filter)
  moreover have "set (ht_entries t0 @ ht_entries t1) = set (dict_entries d)"
    using calculation(2) by (rule mset_eq_setD)
  ultimately show ?thesis using True s(3-5) by (metis (no_types, lifting))
next
  case False
  have w: "ht_wf (dictHashKey d) (ht0 d)" and e: "dict_entries d = ht_entries (ht0 d)"
    using wf False by (auto simp: dict_wf_def dict_entries_def)
  have "0 < ht_size (ht0 d)"
    using ne wf False by (intro Nat.gr0I) (auto simp: dict_wf_def dictSize_def ht_wf_def ht_entries_def)
  then obtain a where a: "a < 64" "ht_size (ht0 d) = 2 ^ a" "ht_sizemask (ht0 d) = 2 ^ a - 1" "length (ht_table (ht0 d)) = 2 ^ a"
    "of_nat (ht_sizemask (ht0 d)) = (mask a :: u64)"
    using ht_power [OF w] sizes by (auto simp: dict_sizes_le_def)
  have u: "scan_unit d = 2 ^ (64 - a)" using False a(1,2) by (simp add: scan_unit_def scan_size_def power_diff)
  let ?l = "unat (v AND mask a)"
  have "ht_bucket (ht0 d) ?l = Some (ht_table (ht0 d) ! ?l)" using a(4) by (simp add: ht_bucket_def unat_and_mask)
  then have "dictScan d v = Some (next_cursor (mask a) v, ht_table (ht0 d) ! ?l)"
    using False ne a(5) by (simp add: dictScan_def Let_def)
  moreover have "filter (\<lambda>e. key_place d (de_key e) div scan_unit d = place v div scan_unit d) (dict_entries d) =
      ht_table (ht0 d) ! ?l"
    using ht_filter_places [OF w a(2,3), of a v] a(1) u e by (simp add: key_place_def)
  moreover from this have "set (ht_table (ht0 d) ! ?l) \<subseteq> set (dict_entries d)" by (metis filter_is_subset)
  moreover have "place (next_cursor (mask a) v) = (place v div scan_unit d + 1) * scan_unit d mod 2 ^ 64"
    using place_next_cursor [of a v] a(1) u by simp
  ultimately show ?thesis by simp
qed

section \<open>Whole scans\<close>

text \<open>One call after the other, each on the dictionary as it is by then, with the cursor of the call before.\<close>

fun scan_calls ::
  "('k, 'v, 'p) dict list \<Rightarrow> u64 \<Rightarrow> (u64 \<times> ('k, 'v) dictEntry list) option" where
  "scan_calls [] v = Some (v, [])"
| "scan_calls (d # ds) v = do {
     (v1, es) \<leftarrow> dictScan d v;
     (v2, es') \<leftarrow> scan_calls ds v1;
     Some (v2, es @ es')
   }"

lemma scan_calls_append:
  "scan_calls (ds @ ds') v = do {
     (v1, es) \<leftarrow> scan_calls ds v;
     (v2, es') \<leftarrow> scan_calls ds' v1;
     Some (v2, es @ es')
   }"
  by (induction ds arbitrary: v) (auto split: Option.bind_splits)

lemma scan_size_power:
  assumes wf: "dict_wf d" and sizes: "dict_sizes_le d (2 ^ 63)" and ne: "dictSize d \<noteq> 0"
  obtains a where "a < 64" "scan_size d = 2 ^ a" "scan_unit d = 2 ^ (64 - a)"
proof -
  have w: "ht_wf (dictHashKey d) (ht0 d)" "ht_wf (dictHashKey d) (ht1 d)" using wf by (simp_all add: dict_wf_def)
  have s: "ht_size (ht0 d) \<le> 2 ^ 63" "ht_size (ht1 d) \<le> 2 ^ 63" using sizes by (simp_all add: dict_sizes_le_def)
  have p0: "0 < ht_size (ht0 d)"
    using ne wf by (intro Nat.gr0I) (auto simp: dict_wf_def dictSize_def ht_wf_def ht_entries_def split: if_splits)
  have "scan_size d = ht_size (ht0 d) \<or> scan_size d = ht_size (ht1 d) \<and> 0 < ht_size (ht1 d)"
    using wf by (auto simp: scan_size_def dict_wf_def min_def split: if_splits)
  then have "\<exists>h \<in> {ht0 d, ht1 d}. ht_wf (dictHashKey d) h \<and> 0 < ht_size h \<and> ht_size h \<le> 2 ^ 63 \<and> scan_size d = ht_size h"
    using w s p0 by blast
  then obtain h a where "a < 64" "scan_size d = 2 ^ a" using ht_power by metis
  then show ?thesis by (intro that [of a]) (simp_all add: scan_unit_def power_diff)
qed

lemma dictSize_entries: "dict_wf d \<Longrightarrow> dictSize d = length (dict_entries d)"
  by (simp add: dictSize_def dict_entries_def dict_wf_def ht_wf_def)

lemma present_key:
  assumes "dict_wf d" "k \<in> dom (dict_map d)"
  shows "dictSize d \<noteq> 0" "\<exists>e \<in> set (dict_entries d). de_key e = k"
proof -
  show e: "\<exists>e \<in> set (dict_entries d). de_key e = k" using assms(2) dict_map_None_iff [of d k] by auto
  then show "dictSize d \<noteq> 0" using dictSize_entries [OF assms(1)] by auto
qed

lemma scan_covers:
  assumes "\<forall>d \<in> set ds. dict_wf d \<and> dict_sizes_le d (2 ^ 63) \<and> d_type d = ty \<and> k \<in> dom (dict_map d)"
    and "sorted (map scan_size ds)" "scan_calls ds v = Some (0, out)"
    and "ds = [] \<Longrightarrow> v \<noteq> 0" "\<forall>d \<in> set ds. place v \<le> key_place d k" "ds \<noteq> [] \<Longrightarrow> scan_unit (hd ds) dvd place v"
  shows "k \<in> de_key ` set out"
  using assms
proof (induction ds arbitrary: v out)
  case (Cons d ds)
  let ?U = "scan_unit d" and ?K = "key_place d k"
  have d: "dict_wf d" "dict_sizes_le d (2 ^ 63)" "k \<in> dom (dict_map d)" "d_type d = ty" using Cons.prems(1) by simp_all
  note ne = present_key [OF d(1,3)]
  obtain v1 es where s: "dictScan d v = Some (v1, es)" "place v1 = (place v div ?U + 1) * ?U mod 2 ^ 64"
    "mset es = mset (filter (\<lambda>e. key_place d (de_key e) div ?U = place v div ?U) (dict_entries d))"
    using dictScan_step [OF d(1,2) ne(1), of v] Cons.prems(6) by auto
  obtain out' where o: "scan_calls ds v1 = Some (0, out')" "out = es @ out'"
    using Cons.prems(3) s(1) by auto
  show ?case
  proof (cases "?K div ?U = place v div ?U")
    case True
    with ne(2) have "k \<in> de_key ` set es"
      unfolding mset_eq_setD [OF s(3)] by auto
    with o(2) show ?thesis by auto
  next
    case False
    obtain a where a: "a < 64" "scan_size d = 2 ^ a" "?U = 2 ^ (64 - a)"
      using scan_size_power [OF d(1,2) ne(1)] by blast
    have U: "0 < ?U" using a(3) by simp
    have le: "place v \<le> ?K" using Cons.prems(5) by simp
    have "place v div ?U < ?K div ?U" using False div_le_mono [OF le, of ?U] by simp
    then have "(place v div ?U + 1) * ?U \<le> ?K div ?U * ?U" by (intro mult_le_mono1) simp
    also have "\<dots> \<le> ?K" by (rule div_times_less_eq_dividend)
    finally have K: "(place v div ?U + 1) * ?U \<le> ?K" .
    have "?K < 2 ^ 64" unfolding key_place_def by (rule place_less)
    with s(2) K have v1: "place v1 = (place v div ?U + 1) * ?U" by (simp only:) (intro mod_less, linarith)
    have "v1 \<noteq> 0" using v1 U place_0 [of v1] by auto
    moreover have "\<forall>d' \<in> set ds. place v1 \<le> key_place d' k"
      using K v1 Cons.prems(1) d(4) by (simp add: key_place_def dictHashKey_def)
    moreover have "scan_unit (hd ds) dvd place v1" if "ds \<noteq> []"
    proof -
      have h: "hd ds \<in> set ds" using that by simp
      obtain b where b: "b < 64" "scan_size (hd ds) = 2 ^ b" "scan_unit (hd ds) = 2 ^ (64 - b)"
        using scan_size_power [of "hd ds"] present_key(1) [of "hd ds" k] Cons.prems(1) h by auto
      have "scan_size d \<le> scan_size (hd ds)" using Cons.prems(2) h by simp
      then have "a \<le> b" using a(2) b(2) by simp
      then have "scan_unit (hd ds) dvd ?U" using a(3) b(3) by (simp add: le_imp_power_dvd)
      then show ?thesis using v1 by simp
    qed
    ultimately have "k \<in> de_key ` set out'"
      using Cons.IH [OF _ _ o(1)] Cons.prems(1,2) by simp
    with o(2) show ?thesis by auto
  qed
qed simp

text \<open>
  C3: a scan misses nothing while the table only grows. Start with cursor 0 and call \<open>dictScan\<close> until it returns 0;
  between the calls the dictionary may change in any way, rehash, and grow. A key that is there at every call
  has been given to the callback.
\<close>

theorem dictScan_complete:
  assumes "\<forall>d \<in> set ds. dict_wf d \<and> dict_sizes_le d (2 ^ 63) \<and> d_type d = ty"
    and "sorted (map scan_size ds)" "ds \<noteq> []" "scan_calls ds 0 = Some (0, out)"
    and "\<forall>d \<in> set ds. k \<in> dom (dict_map d)"
  shows "k \<in> de_key ` set out"
proof (rule scan_covers [OF _ assms(2,4)])
  show "\<forall>d \<in> set ds. dict_wf d \<and> dict_sizes_le d (2 ^ 63) \<and> d_type d = ty \<and> k \<in> dom (dict_map d)"
    using assms(1,5) by blast
qed (use assms(3) in simp_all)

lemma filter_less_Suc:
  "mset (filter (\<lambda>x. f x < Suc n) xs) = mset (filter (\<lambda>x. f x < n) xs) + mset (filter (\<lambda>x. f x = n) xs)"
  by (induction xs) (auto simp: less_Suc_eq)

lemma sample_dict_scan: "dict_sizes_le sample_dict (2 ^ 63)" "dictSize sample_dict \<noteq> 0" "scan_size sample_dict = 4"
  by (simp_all add: dict_sizes_le_def sample_dict_def dictSize_def scan_size_def dictIsRehashing_def)

text \<open>
  On a dictionary that stays as it is, a scan takes as many calls as the smaller table has buckets, no call
  before the last returns 0, and every entry is given to the callback exactly once.
\<close>

lemma dictScan_static:
  assumes "dict_wf d" "dict_sizes_le d (2 ^ 63)" "dictSize d \<noteq> 0"
  shows "\<exists>out. scan_calls (replicate (scan_size d) d) 0 = Some (0, out) \<and> mset out = mset (dict_entries d) \<and>
    (\<forall>n v es. 0 < n \<and> n < scan_size d \<and> scan_calls (replicate n d) 0 = Some (v, es) \<longrightarrow> v \<noteq> 0)"
proof -
  obtain a where a: "a < 64" "scan_size d = 2 ^ a" "scan_unit d = 2 ^ (64 - a)"
    using scan_size_power [OF assms] by blast
  define U where "U = scan_unit d"
  have U: "0 < U" "scan_size d * U = 2 ^ 64" using a by (simp_all add: U_def flip: power_add)
  have dv: "U dvd 2 ^ 64" using U(2) by (metis dvd_triv_right)
  have run: "\<exists>v out. scan_calls (replicate n d) 0 = Some (v, out) \<and> place v = n * U mod 2 ^ 64 \<and>
      mset out = mset (filter (\<lambda>e. key_place d (de_key e) div U < n) (dict_entries d))" if "n \<le> scan_size d" for n
    using that
  proof (induction n)
    case (Suc n)
    then obtain v out where v: "scan_calls (replicate n d) 0 = Some (v, out)" "place v = n * U mod 2 ^ 64"
      "mset out = mset (filter (\<lambda>e. key_place d (de_key e) div U < n) (dict_entries d))" by auto
    have "n * U < scan_size d * U" using Suc.prems U(1) by (intro mult_less_mono1) simp_all
    then have n: "place v = n * U" using v(2) U(2) by simp
    obtain v1 es where s: "dictScan d v = Some (v1, es)" "place v1 = (place v div U + 1) * U mod 2 ^ 64"
      "mset es = mset (filter (\<lambda>e. key_place d (de_key e) div U = place v div U) (dict_entries d))"
      using dictScan_step [OF assms, of v] n unfolding U_def [symmetric] by auto
    have "mset (out @ es) = mset (filter (\<lambda>e. key_place d (de_key e) div U < Suc n) (dict_entries d))"
      using v(3) s(3) n U(1) by (simp only: mset_append filter_less_Suc) simp
    moreover have "replicate (Suc n) d = replicate n d @ [d]" by (simp add: replicate_append_same)
    ultimately show ?case using v(1) s(1,2) n U(1) by (simp only: scan_calls_append) simp
  qed simp
  obtain v out where v: "scan_calls (replicate (scan_size d) d) 0 = Some (v, out)" "place v = scan_size d * U mod 2 ^ 64"
    "mset out = mset (filter (\<lambda>e. key_place d (de_key e) div U < scan_size d) (dict_entries d))"
    using run [of "scan_size d"] by auto
  have "v = 0" using v(2) U(2) place_0 [of v] by simp
  moreover have "key_place d k div U < scan_size d" for k
    using place_less [of "of_nat (dictHashKey d k)"] U(2) by (simp add: key_place_def less_mult_imp_div_less)
  moreover have "v \<noteq> 0" if n: "0 < n" "n < scan_size d" and v: "scan_calls (replicate n d) 0 = Some (v, es)" for n v es
  proof -
    have "n * U < scan_size d * U" using n(2) U(1) by simp
    then have "place v = n * U" using run [of n] n v U(2) by simp
    then show ?thesis using n(1) U(1) place_0 [of v] by auto
  qed
  ultimately show ?thesis using v(1,3) by auto
qed

lemma dictScan_static_witness:
  "\<exists>out. scan_calls (replicate (scan_size sample_dict) sample_dict) 0 = Some (0, out) \<and>
     mset out = mset (dict_entries sample_dict) \<and>
     (\<forall>n v es. 0 < n \<and> n < scan_size sample_dict \<and> scan_calls (replicate n sample_dict) 0 = Some (v, es) \<longrightarrow> v \<noteq> 0)"
  by (rule dictScan_static [OF sample_dict_wf sample_dict_scan(1,2)])

text \<open>A table of four buckets, and the same once it has started to grow to eight.\<close>

definition small_dict :: "(nat, nat, unit) dict" where
  "small_dict = \<lparr>d_type = sample_type, d_privdata = (),
     ht0 = \<lparr>ht_table = [[Entry 4 (Some 40)], [Entry 5 (Some 50), Entry 1 (Some 10)], [], []],
            ht_size = 4, ht_sizemask = 3, ht_used = 3\<rparr>,
     ht1 = dictReset, rehashidx = -1, d_iterators = 0\<rparr>"

lemma small_dict_wf: "dict_wf small_dict"
proof -
  have "\<exists>k. (4::nat) = 2 ^ k" by (rule exI [of _ 2]) simp
  then show ?thesis
    by (simp add: dict_wf_def ht_wf_def all_less_4 small_dict_def sample_type_def dictReset_def
        dictHashKey_def dict_entries_def ht_entries_def dictIsRehashing_def)
qed

lemmas scan_eval = dictScan_def dictSize_def dictIsRehashing_def ht_bucket_def Let_def

lemma next_cursorI:
  assumes "m = mask k" "k \<le> 64" "place w = (place v div 2 ^ (64 - k) + 1) * 2 ^ (64 - k) mod 2 ^ 64"
  shows "next_cursor m v = w"
proof -
  have "place (next_cursor m v) = place w" unfolding assms(1,3) by (rule place_next_cursor [OF assms(2)])
  then have "rev_bits (next_cursor m v) = rev_bits w" by (simp add: place_def word_unat_eq_iff)
  then show ?thesis by (metis rev_rev_bits)
qed

lemma next_cursor_low: "next_cursor m v = next_cursor m (v AND m)"
proof -
  have "v OR NOT m = (v AND m) OR NOT m" by (rule bit_word_eqI) (auto simp: bit_simps)
  then show ?thesis by (simp only: next_cursor_def)
qed

lemma places: "place 1 = 2 ^ 63" "place 2 = 2 ^ 62" "place 3 = 2 ^ 63 + 2 ^ 62" "place 8 = 2 ^ 60"
  by (simp_all add: place_def rev_bits_rounds Let_def)

lemma next_cursors:
  "next_cursor 3 0 = 2" "next_cursor 3 2 = 1" "next_cursor 3 1 = 3" "next_cursor 3 3 = 0" "next_cursor 15 0 = 8"
proof -
  have m: "(3 :: u64) = mask 2" "(15 :: u64) = mask 4" by (simp_all add: mask_eq_exp_minus_1)
  show "next_cursor 3 0 = 2" "next_cursor 3 2 = 1" "next_cursor 3 1 = 3" "next_cursor 3 3 = 0" "next_cursor 15 0 = 8"
    by (rule next_cursorI [OF m(1)] next_cursorI [OF m(2)]; simp add: places [simplified])+
qed

lemma next_cursors_high:
  "next_cursor 3 4 = 2" "next_cursor 3 8 = 2" "next_cursor 3 16 = 2" "next_cursor 3 10 = 1" "next_cursor 3 18 = 1"
  "next_cursor 3 9 = 3" "next_cursor 3 17 = 3" "next_cursor 3 11 = 0" "next_cursor 3 19 = 0"
  by (subst next_cursor_low, simp add: next_cursors)+

lemma growing_scan_calls:
  "dictScan small_dict 0 = Some (2, [Entry 4 (Some 40)])"
  "dictScan sample_dict 2 = Some (1, [])"
  "dictScan sample_dict 1 = Some (3, [Entry 5 (Some 50), Entry 1 (Some 10)])"
  "dictScan sample_dict 3 = Some (0, [])"
  by (simp_all add: scan_eval small_dict_def sample_dict_def next_cursors)
    (simp_all add: scan_expansions.simps ht_bucket_def Let_def next_cursors next_cursors_high)

lemma growing_scan:
  "scan_calls [small_dict, sample_dict, sample_dict, sample_dict] 0 =
     Some (0, [Entry 4 (Some 40), Entry 5 (Some 50), Entry 1 (Some 10)])"
  by (simp add: growing_scan_calls)

theorem dictScan_complete_witness:
  "1 \<in> de_key ` set [Entry 4 (Some 40), Entry 5 (Some 50), Entry (1 :: nat) (Some (10 :: nat))]"
proof (rule dictScan_complete [OF _ _ _ growing_scan])
  show "\<forall>d \<in> set [small_dict, sample_dict, sample_dict, sample_dict].
      dict_wf d \<and> dict_sizes_le d (2 ^ 63) \<and> d_type d = sample_type"
    using sample_dict_wf small_dict_wf by (simp add: dict_sizes_le_def small_dict_def sample_dict_def dictReset_def)
  show "\<forall>d \<in> set [small_dict, sample_dict, sample_dict, sample_dict]. 1 \<in> dom (dict_map d)"
    by (simp add: dict_map_def dict_entries_def ht_entries_def small_dict_def sample_dict_def)
qed (simp_all add: scan_size_def dictIsRehashing_def small_dict_def sample_dict_def)

section \<open>Scanning a table that shrinks\<close>

definition wide_dict :: "(nat, nat, unit) dict" where
  "wide_dict = \<lparr>d_type = sample_type, d_privdata = (),
     ht0 = \<lparr>ht_table = [[], [], [], [], [Entry 4 (Some 40)], [], [], [], [], [], [], [], [], [], [], []],
            ht_size = 16, ht_sizemask = 15, ht_used = 1\<rparr>,
     ht1 = dictReset, rehashidx = -1, d_iterators = 0\<rparr>"

lemma all_less_upt: "(\<forall>i < n. P i) = list_all P [0..<n]"
  by (auto simp: list_all_iff)

lemma wide_dict_wf: "dict_wf wide_dict"
proof -
  have "\<exists>k. (16::nat) = 2 ^ k" by (rule exI [of _ 4]) simp
  then show ?thesis
    by (simp add: dict_wf_def ht_wf_def wide_dict_def sample_type_def dictReset_def all_less_upt upt_rec
        dictHashKey_def dict_entries_def ht_entries_def dictIsRehashing_def)
qed

definition shrinking_dict :: "(nat, nat, unit) dict" where
  "shrinking_dict = wide_dict\<lparr>ht1 := \<lparr>ht_table = [[], [], [], []], ht_size = 4, ht_sizemask = 3, ht_used = 0\<rparr>,
     rehashidx := 0\<rparr>"

lemma wide_dict_expand: "dictExpand wide_dict 4 = (shrinking_dict, DICT_OK)"
proof -
  have "dictNextPower 4 = 4"
    by (simp add: dictNextPower_def DICT_HT_INITIAL_SIZE_def LONG_MAX_def next_power_loop.simps)
  then show ?thesis
    by (simp add: dictExpand_def dictIsRehashing_def wide_dict_def shrinking_dict_def numeral_eq_Suc)
qed

lemma wide_dict_resize: "dictResize True wide_dict = (shrinking_dict, DICT_OK)"
  using wide_dict_expand
  by (simp add: dictResize_def dictIsRehashing_def wide_dict_def DICT_HT_INITIAL_SIZE_def)

lemma shrinking_scan_calls:
  "dictScan wide_dict 0 = Some (8, [])" "dictScan shrinking_dict 8 = Some (2, [])"
  "dictScan shrinking_dict 2 = Some (1, [])" "dictScan shrinking_dict 1 = Some (3, [])"
  "dictScan shrinking_dict 3 = Some (0, [])"
  by (simp_all add: scan_eval wide_dict_def shrinking_dict_def next_cursors)
    (simp_all add: scan_expansions.simps ht_bucket_def Let_def next_cursors next_cursors_high)

text \<open>
  C29: a scan of a table that shrinks can miss an entry that is there all the time. The table has sixteen
  buckets at the first call, \<open>dictResize\<close> then starts to move it to four, and the four calls after it end the
  scan. The loop over the expansions of the cursor counts upwards from the cursor's bits, but the calls before
  it went through them in reversed order.
\<close>

theorem dictScan_misses:
  "\<exists>d'. dictResize True wide_dict = (d', DICT_OK) \<and> dict_wf d' \<and> dict_map d' = dict_map wide_dict \<and>
     dict_map wide_dict 4 = Some (Some 40) \<and> scan_calls [wide_dict, d', d', d', d'] 0 = Some (0, [])"
proof -
  have "\<not> dictIsRehashing wide_dict" "ht_used (ht0 wide_dict) \<le> 4" "4 < LONG_MAX"
    by (simp_all add: dictIsRehashing_def wide_dict_def LONG_MAX_def)
  from dictExpand_ok [OF wide_dict_wf this] have "dict_keeps wide_dict shrinking_dict"
    by (simp add: wide_dict_expand)
  then have "dict_wf shrinking_dict \<and> dict_map shrinking_dict = dict_map wide_dict"
    using dict_keepsD [OF _ wide_dict_wf] by blast
  moreover have "dict_map wide_dict 4 = Some (Some 40)"
    by (simp add: dict_map_def dict_entries_def ht_entries_def wide_dict_def)
  moreover have "scan_calls [wide_dict, shrinking_dict, shrinking_dict, shrinking_dict, shrinking_dict] 0 = Some (0, [])"
    by (simp add: shrinking_scan_calls)
  ultimately show ?thesis using wide_dict_resize by blast
qed

end
