(* ===== verification/Dict_Iterator.thy ===== *)
theory Dict_Iterator
  imports Dict_Properties
begin

text \<open>
  The iterators of \<^verbatim>\<open>util/dict.c\<close>. A \<open>dictEntry *\<close> that an iterator keeps between two calls is the key of the
  entry: the keys of a dictionary are distinct, and an entry keeps its key from its creation until it is
  freed. To follow such a pointer is to find the entry; when it has been freed the result is \<open>None\<close>, as for an
  access outside a table, a failed \<open>assert\<close>, or a loop that does not end. The dictionary that \<open>iter->d\<close> points to is an
  argument and a result. \<open>p0\<close> and \<open>p1\<close> are the addresses of the two tables, which only the fingerprint uses; the shifts and
  sums of its \<open>long long\<close> wrap as on the two's complement machines the program is for.
\<close>

section \<open>Definitions\<close>

definition fingerprint_mix :: "u64 \<Rightarrow> u64 \<Rightarrow> u64" where
  "fingerprint_mix hash0 integer =
     (let h1 = hash0 + integer;
          h2 = NOT h1 + push_bit 21 h1;
          h3 = h2 XOR signed_drop_bit 24 h2;
          h4 = (h3 + push_bit 3 h3) + push_bit 8 h3;
          h5 = h4 XOR signed_drop_bit 14 h4;
          h6 = (h5 + push_bit 2 h5) + push_bit 4 h5;
          h7 = h6 XOR signed_drop_bit 28 h6
      in h7 + push_bit 31 h7)"

definition dictFingerprint :: "u64 \<Rightarrow> u64 \<Rightarrow> ('k, 'v, 'p) dict \<Rightarrow> u64" where
  "dictFingerprint p0 p1 d =
     foldl fingerprint_mix 0
       [p0, of_nat (ht_size (ht0 d)), of_nat (ht_used (ht0 d)),
        p1, of_nat (ht_size (ht1 d)), of_nat (ht_used (ht1 d))]"

record 'k dictIterator =
  it_index :: int
  it_table :: nat
  it_safe :: bool
  it_entry :: "'k option"
  it_next :: "'k option"
  it_fingerprint :: u64

text \<open>The fingerprint of a new iterator is not initialised; it is not read before \<open>dictNext\<close> sets it.\<close>

definition dictGetIterator :: "u64 \<Rightarrow> 'k dictIterator" where
  "dictGetIterator garbage =
     \<lparr>it_index = -1, it_table = 0, it_safe = False, it_entry = None, it_next = None, it_fingerprint = garbage\<rparr>"

definition dictGetSafeIterator :: "u64 \<Rightarrow> 'k dictIterator" where
  "dictGetSafeIterator garbage = (dictGetIterator garbage)\<lparr>it_safe := True\<rparr>"

text \<open>The \<open>next\<close> pointer of an entry that is reached by its address.\<close>

fun chain_after :: "'k \<Rightarrow> ('k, 'v) dictEntry list \<Rightarrow> 'k option option" where
  "chain_after k [] = None"
| "chain_after k (he # hes) =
     (if de_key he = k then Some (case hes of [] \<Rightarrow> None | he' # _ \<Rightarrow> Some (de_key he')) else chain_after k hes)"

fun entry_after :: "'k \<Rightarrow> ('k, 'v) dictEntry list list \<Rightarrow> 'k option option" where
  "entry_after k [] = None"
| "entry_after k (b # bs) = (case chain_after k b of Some r \<Rightarrow> Some r | None \<Rightarrow> entry_after k bs)"

definition entry_next :: "('k, 'v, 'p) dict \<Rightarrow> 'k \<Rightarrow> 'k option option" where
  "entry_next d k = entry_after k (ht_table (ht0 d) @ ht_table (ht1 d))"

text \<open>The first call counts a safe iterator, and takes the fingerprint for another one.\<close>

definition iter_open ::
  "u64 \<Rightarrow> u64 \<Rightarrow> ('k, 'v, 'p) dict \<Rightarrow> 'k dictIterator \<Rightarrow> ('k, 'v, 'p) dict \<times> 'k dictIterator" where
  "iter_open p0 p1 d it =
     (if it_index it = -1 \<and> it_table it = 0
      then (if it_safe it then (d\<lparr>d_iterators := d_iterators d + 1\<rparr>, it)
            else (d, it\<lparr>it_fingerprint := dictFingerprint p0 p1 d\<rparr>))
      else (d, it))"

text \<open>Go to the next bucket; the flag is the \<open>break\<close> at the end of the tables.\<close>

definition iter_bucket :: "('k, 'v, 'p) dict \<Rightarrow> 'k dictIterator \<Rightarrow> ('k dictIterator \<times> bool) option" where
  "iter_bucket d it =
     (let load = (\<lambda>it. do {
            b \<leftarrow> (if it_index it < 0 then None else ht_bucket (dict_ht d (it_table it)) (nat (it_index it)));
            Some (it\<lparr>it_entry := (case b of [] \<Rightarrow> None | he # _ \<Rightarrow> Some (de_key he))\<rparr>, False)
          });
          it1 = it\<lparr>it_index := it_index it + 1\<rparr>
      in if int (ht_size (dict_ht d (it_table it))) \<le> it_index it1
         then (if dictIsRehashing d \<and> it_table it1 = 0
               then load (it1\<lparr>it_table := it_table it1 + 1, it_index := 0\<rparr>)
               else Some (it1, True))
         else load it1)"

partial_function (option) dictNext ::
  "u64 \<Rightarrow> u64 \<Rightarrow> ('k, 'v, 'p) dict \<Rightarrow> 'k dictIterator \<Rightarrow> (('k, 'v, 'p) dict \<times> 'k dictIterator \<times> 'k option) option" where
  "dictNext p0 p1 d it = do {
     (d1, it1, at_end) \<leftarrow>
       (case it_entry it of
          None \<Rightarrow> (case iter_open p0 p1 d it of (d1, it0) \<Rightarrow> do {
              (it1, at_end) \<leftarrow> iter_bucket d1 it0;
              Some (d1, it1, at_end)
            })
        | Some _ \<Rightarrow> Some (d, it\<lparr>it_entry := it_next it\<rparr>, False));
     if at_end then Some (d1, it1, None)
     else (case it_entry it1 of
             Some he \<Rightarrow> do { nx \<leftarrow> entry_next d1 he; Some (d1, it1\<lparr>it_next := nx\<rparr>, Some he) }
           | None \<Rightarrow> dictNext p0 p1 d1 it1)
   }"

definition dictReleaseIterator ::
  "u64 \<Rightarrow> u64 \<Rightarrow> ('k, 'v, 'p) dict \<Rightarrow> 'k dictIterator \<Rightarrow> ('k, 'v, 'p) dict option" where
  "dictReleaseIterator p0 p1 d it =
     (if \<not> (it_index it = -1 \<and> it_table it = 0)
      then (if it_safe it then Some (d\<lparr>d_iterators := d_iterators d - 1\<rparr>)
            else if it_fingerprint it = dictFingerprint p0 p1 d then Some d else None)
      else Some d)"

text \<open>A caller's loop: it deletes some of the entries it is given, as the comment in \<open>dictNext\<close> allows.\<close>

partial_function (option) iterate_deleting ::
  "u64 \<Rightarrow> u64 \<Rightarrow> ('k \<Rightarrow> bool) \<Rightarrow> ('k, 'v, 'p) dict \<Rightarrow> 'k dictIterator \<Rightarrow>
     (('k, 'v, 'p) dict \<times> 'k dictIterator \<times> 'k list) option" where
  "iterate_deleting p0 p1 unwanted d it = do {
     (d1, it1, r) \<leftarrow> dictNext p0 p1 d it;
     (case r of
        None \<Rightarrow> Some (d1, it1, [])
      | Some he \<Rightarrow> do {
          d2 \<leftarrow> (if unwanted he then map_option fst (dictDelete d1 he) else Some d1);
          (d3, it3, hes) \<leftarrow> iterate_deleting p0 p1 unwanted d2 it1;
          Some (d3, it3, he # hes)
        })
   }"

section \<open>Chains of a dictionary\<close>

definition dict_chains :: "('k, 'v, 'p) dict \<Rightarrow> ('k, 'v) dictEntry list list" where
  "dict_chains d = ht_table (ht0 d) @ ht_table (ht1 d)"

lemma concat_chains: "concat (dict_chains d) = dict_entries d"
  by (simp add: dict_chains_def dict_entries_def ht_entries_def)

lemma chain_after_None: "k \<notin> de_key ` set b \<Longrightarrow> chain_after k b = None"
  by (induction b) auto

lemma chain_after_split:
  "k \<notin> de_key ` set pre \<Longrightarrow> chain_after k (pre @ Entry k v # post) =
     Some (case post of [] \<Rightarrow> None | e # _ \<Rightarrow> Some (de_key e))"
  by (induction pre) (auto split: list.split)

lemma entry_after_skip: "k \<notin> de_key ` set (concat bs) \<Longrightarrow> entry_after k (bs @ cs) = entry_after k cs"
  by (induction bs) (auto simp: chain_after_None image_Un)

lemma split_chain:
  "g < length bs \<Longrightarrow> bs ! g = pre @ e # post \<Longrightarrow> bs = take g bs @ (pre @ e # post) # drop (Suc g) bs"
  by (metis id_take_nth_drop)

text \<open>Following the pointer to an entry, given by the chain it is in.\<close>

lemma entry_next_chain:
  assumes "distinct (map de_key (dict_entries d))" "g < length (dict_chains d)" "dict_chains d ! g = pre @ e # post"
  shows "entry_next d (de_key e) = Some (case post of [] \<Rightarrow> None | e' # _ \<Rightarrow> Some (de_key e'))"
proof -
  note s = split_chain [OF assms(2,3)]
  have "dict_entries d = concat (take g (dict_chains d)) @ pre @ e # post @ concat (drop (Suc g) (dict_chains d))"
    unfolding concat_chains [symmetric] by (subst s) simp
  then have n: "de_key e \<notin> de_key ` set (concat (take g (dict_chains d)))" "de_key e \<notin> de_key ` set pre"
    using assms(1) by auto
  have "entry_next d (de_key e) = entry_after (de_key e) (take g (dict_chains d) @ (pre @ e # post) # drop (Suc g) (dict_chains d))"
    unfolding entry_next_def dict_chains_def [symmetric] by (subst s) simp
  also have "\<dots> = Some (case post of [] \<Rightarrow> None | e' # _ \<Rightarrow> Some (de_key e'))"
    using n chain_after_split [of "de_key e" pre "de_val e" post] by (simp add: entry_after_skip)
  finally show ?thesis .
qed

section \<open>Where an iterator stands\<close>

definition hd_key :: "('k, 'v) dictEntry list \<Rightarrow> 'k option" where
  "hd_key b = (case b of [] \<Rightarrow> None | he # _ \<Rightarrow> Some (de_key he))"

lemma hd_key_simps [simp]: "hd_key [] = None" "hd_key (e # es) = Some (de_key e)"
  by (simp_all add: hd_key_def)

text \<open>The number of buckets an iterator has opened, in both tables.\<close>

definition opened :: "('k, 'v, 'p) dict \<Rightarrow> 'k dictIterator \<Rightarrow> nat" where
  "opened d it = nat (it_index it + 1) + (if it_table it = 0 then 0 else ht_size (ht0 d))"

definition it_ok :: "('k, 'v, 'p) dict \<Rightarrow> 'k dictIterator \<Rightarrow> bool" where
  "it_ok d it \<longleftrightarrow> -1 \<le> it_index it \<and>
     (it_table it = 0 \<and> it_index it < int (ht_size (ht0 d)) \<or>
      it_table it = 1 \<and> dictIsRehashing d \<and> 0 \<le> it_index it \<and> it_index it < int (ht_size (ht1 d)))"

definition it_frame :: "'k dictIterator \<Rightarrow> 'k dictIterator \<Rightarrow> bool" where
  "it_frame it it' \<longleftrightarrow> it_safe it' = it_safe it \<and> it_fingerprint it' = it_fingerprint it"

lemma it_frame_trans: "it_frame a b \<Longrightarrow> it_frame b c \<Longrightarrow> it_frame a c"
  by (simp add: it_frame_def)

lemma it_frame_updates [simp]:
  "it_frame it it" "it_frame it (it\<lparr>it_index := i\<rparr>)" "it_frame it (it\<lparr>it_next := n\<rparr>)" "it_frame it (it\<lparr>it_entry := e\<rparr>)"
  by (simp_all add: it_frame_def)

lemma iter_open_opened [simp]: "0 \<le> it_index it \<Longrightarrow> iter_open p0 p1 d it = (d, it)"
  by (simp add: iter_open_def)

lemma chains_length:
  "dict_wf d \<Longrightarrow> length (dict_chains d) = ht_size (ht0 d) + (if dictIsRehashing d then ht_size (ht1 d) else 0)"
  by (auto simp: dict_wf_def dict_chains_def ht_wf_def)

lemma iter_bucket_ok:
  assumes wf: "dict_wf d" and it: "it_ok d it" and more: "opened d it < length (dict_chains d)"
  shows "\<exists>it'. iter_bucket d it = Some (it', False) \<and> opened d it' = Suc (opened d it) \<and> it_ok d it' \<and>
    0 \<le> it_index it' \<and> it_entry it' = hd_key (dict_chains d ! opened d it) \<and> it_frame it it' \<and> it_next it' = it_next it"
proof -
  have l: "length (ht_table (ht0 d)) = ht_size (ht0 d)" "length (ht_table (ht1 d)) = ht_size (ht1 d)"
    using wf by (simp_all add: dict_wf_def ht_wf_def)
  note more' = more [unfolded chains_length [OF wf]]
  show ?thesis
  proof (cases "it_table it = 0")
    case True
    show ?thesis
    proof (cases "it_index it + 1 < int (ht_size (ht0 d))")
      case lt: True
      let ?it = "it\<lparr>it_index := it_index it + 1, it_entry := hd_key (dict_chains d ! opened d it)\<rparr>"
      have "iter_bucket d it = Some (?it, False)"
        using True lt it l by (auto simp: iter_bucket_def it_ok_def opened_def dict_ht_def ht_bucket_def
            dict_chains_def nth_append hd_key_def)
      moreover have "opened d ?it = Suc (opened d it)" "it_ok d ?it" "0 \<le> it_index ?it" "it_frame it ?it"
        using True lt it by (auto simp: opened_def it_ok_def it_frame_def)
      ultimately show ?thesis by (intro exI [of _ ?it]) simp
    next
      case ge: False
      let ?it = "it\<lparr>it_index := 0, it_table := 1, it_entry := hd_key (dict_chains d ! opened d it)\<rparr>"
      have o: "opened d it = ht_size (ht0 d)" "dictIsRehashing d" "0 < ht_size (ht1 d)"
        using True ge it more' by (auto simp: opened_def it_ok_def split: if_splits)
      then have "iter_bucket d it = Some (?it, False)"
        using True ge l by (auto simp: iter_bucket_def dict_ht_def ht_bucket_def dict_chains_def nth_append hd_key_def)
      moreover have "opened d ?it = Suc (opened d it)" "it_ok d ?it" "0 \<le> it_index ?it" "it_frame it ?it"
        unfolding o(1) using o by (auto simp: opened_def it_ok_def it_frame_def)
      ultimately show ?thesis by (intro exI [of _ ?it]) simp
    qed
  next
    case False
    then have t: "it_table it = 1" "dictIsRehashing d" "0 \<le> it_index it" using it by (auto simp: it_ok_def)
    let ?it = "it\<lparr>it_index := it_index it + 1, it_entry := hd_key (dict_chains d ! opened d it)\<rparr>"
    have lt: "it_index it + 1 < int (ht_size (ht1 d))" using more' t by (auto simp: opened_def)
    then have "iter_bucket d it = Some (?it, False)"
      using t l by (auto simp: iter_bucket_def opened_def dict_ht_def ht_bucket_def dict_chains_def nth_append hd_key_def)
    moreover have "opened d ?it = Suc (opened d it)" "it_ok d ?it" "0 \<le> it_index ?it" "it_frame it ?it"
      using t lt by (auto simp: opened_def it_ok_def it_frame_def)
    ultimately show ?thesis by (intro exI [of _ ?it]) simp
  qed
qed

lemma iter_bucket_end:
  assumes wf: "dict_wf d" and it: "it_ok d it" and no_more: "\<not> opened d it < length (dict_chains d)"
  shows "iter_bucket d it = Some (it\<lparr>it_index := it_index it + 1\<rparr>, True)"
  using it no_more wf unfolding chains_length [OF wf]
  by (auto simp: iter_bucket_def it_ok_def opened_def dict_ht_def dict_wf_def Let_def split: if_splits)

text \<open>
  An iterator that has returned an entry: \<open>todo\<close> are the entries it has still to return. The rest of the current
  chain comes first, and the saved pointer is to its head.
\<close>

definition iter_inv :: "('k, 'v, 'p) dict \<Rightarrow> 'k dictIterator \<Rightarrow> ('k, 'v) dictEntry list \<Rightarrow> bool" where
  "iter_inv d it todo \<longleftrightarrow>
     dict_wf d \<and> it_ok d it \<and> 0 \<le> it_index it \<and> it_entry it \<noteq> None \<and> opened d it \<le> length (dict_chains d) \<and>
     (\<exists>pre rest. dict_chains d ! (opened d it - 1) = pre @ rest \<and> it_next it = hd_key rest \<and>
        todo = rest @ concat (drop (opened d it) (dict_chains d)))"

definition next_result ::
  "u64 \<Rightarrow> u64 \<Rightarrow> ('k, 'v, 'p) dict \<Rightarrow> 'k dictIterator \<Rightarrow> ('k, 'v, 'p) dict \<Rightarrow> 'k dictIterator \<Rightarrow>
     ('k, 'v) dictEntry list \<Rightarrow> bool" where
  "next_result p0 p1 d it d' it0 todo \<longleftrightarrow>
     (\<exists>it'. dictNext p0 p1 d it = Some (d', it', hd_key todo) \<and> it_frame it0 it' \<and> 0 \<le> it_index it' \<and>
        (todo \<noteq> [] \<longrightarrow> iter_inv d' it' (tl todo)))"

lemma next_from_bucket:
  assumes "iter_open p0 p1 d0 it = (d, it0)" "it_entry it = None" "dict_wf d" "it_ok d it0"
  shows "next_result p0 p1 d0 it d it0 (concat (drop (opened d it0) (dict_chains d)))"
  using assms
proof (induction "length (dict_chains d) - opened d it0" arbitrary: d0 it it0 rule: less_induct)
  case less
  note wf = less.prems(3)
  show ?case
  proof (cases "opened d it0 < length (dict_chains d)")
    case False
    note b = iter_bucket_end [OF wf less.prems(4) False]
    have "dictNext p0 p1 d0 it = Some (d, it0\<lparr>it_index := it_index it0 + 1\<rparr>, None)"
      using less.prems(1,2) b by (subst dictNext.simps) simp
    moreover have "0 \<le> it_index it0 + 1" using less.prems(4) by (simp add: it_ok_def)
    ultimately show ?thesis using False by (simp add: next_result_def)
  next
    case True
    obtain it1 where it1: "iter_bucket d it0 = Some (it1, False)" "opened d it1 = Suc (opened d it0)" "it_ok d it1"
      "0 \<le> it_index it1" "it_entry it1 = hd_key (dict_chains d ! opened d it0)" "it_frame it0 it1"
      using iter_bucket_ok [OF wf less.prems(4) True] by blast
    note dr = Cons_nth_drop_Suc [OF True, symmetric]
    show ?thesis
    proof (cases "dict_chains d ! opened d it0")
      case Nil
      have "next_result p0 p1 d it1 d it1 (concat (drop (opened d it1) (dict_chains d)))"
        using it1 Nil True wf by (intro less.hyps) simp_all
      moreover have "dictNext p0 p1 d0 it = dictNext p0 p1 d it1"
        using less.prems(1,2) it1(1,5) Nil by (subst dictNext.simps) simp
      moreover have "concat (drop (opened d it0) (dict_chains d)) = concat (drop (opened d it1) (dict_chains d))"
        unfolding dr it1(2) using Nil by simp
      ultimately show ?thesis using it_frame_trans [OF it1(6)] by (auto simp: next_result_def)
    next
      case (Cons e es)
      have dis: "distinct (map de_key (dict_entries d))" using wf by (simp add: dict_wf_def)
      have "entry_next d (de_key e) = Some (hd_key es)"
        using entry_next_chain [OF dis True, of "[]" e es] Cons by (simp add: hd_key_def)
      then have "dictNext p0 p1 d0 it = Some (d, it1\<lparr>it_next := hd_key es\<rparr>, Some (de_key e))"
        using less.prems(1,2) it1(1,5) Cons by (subst dictNext.simps) simp
      moreover have td: "concat (drop (opened d it0) (dict_chains d)) = e # es @ concat (drop (opened d it1) (dict_chains d))"
        unfolding dr it1(2) using Cons by simp
      moreover have "iter_inv d (it1\<lparr>it_next := hd_key es\<rparr>) (es @ concat (drop (opened d it1) (dict_chains d)))"
      proof -
        have o: "opened d (it1\<lparr>it_next := hd_key es\<rparr>) = opened d it1" "it_ok d (it1\<lparr>it_next := hd_key es\<rparr>)"
          using it1(3) by (simp_all add: opened_def it_ok_def)
        show ?thesis
          unfolding iter_inv_def o(1)
          using wf it1(2,4,5) o(2) Cons True by (auto intro!: exI [of _ "[e]"] exI [of _ es])
      qed
      moreover have "it_frame it0 (it1\<lparr>it_next := hd_key es\<rparr>)" using it1(6) by (simp add: it_frame_def)
      ultimately show ?thesis using it1(4) by (simp add: next_result_def)
    qed
  qed
qed

lemma next_from_entry:
  assumes inv: "iter_inv d it todo"
  shows "next_result p0 p1 d it d it todo"
proof -
  obtain pre rest where r: "dict_chains d ! (opened d it - 1) = pre @ rest" "it_next it = hd_key rest"
    "todo = rest @ concat (drop (opened d it) (dict_chains d))"
    using inv by (auto simp: iter_inv_def)
  have i: "dict_wf d" "it_ok d it" "0 \<le> it_index it" "it_entry it \<noteq> None" "opened d it \<le> length (dict_chains d)"
    using inv by (simp_all add: iter_inv_def)
  have o: "opened d it - 1 < length (dict_chains d)" "0 < opened d it"
    using i(3,5) by (auto simp: opened_def)
  obtain k where k: "it_entry it = Some k" using i(4) by auto
  let ?it = "it\<lparr>it_entry := hd_key rest\<rparr>"
  show ?thesis
  proof (cases rest)
    case Nil
    have "next_result p0 p1 d ?it d ?it (concat (drop (opened d ?it) (dict_chains d)))"
      using i Nil by (intro next_from_bucket) (simp_all add: it_ok_def)
    moreover have "dictNext p0 p1 d it = dictNext p0 p1 d ?it"
      using k r(2) Nil by (subst dictNext.simps) simp
    moreover have "opened d ?it = opened d it" by (simp add: opened_def)
    ultimately show ?thesis using r(3) Nil by (simp add: next_result_def it_frame_def)
  next
    case (Cons e es)
    have dis: "distinct (map de_key (dict_entries d))" using i(1) by (simp add: dict_wf_def)
    have "entry_next d (de_key e) = Some (hd_key es)"
      using entry_next_chain [OF dis o(1), of pre e es] r(1) Cons by (simp add: hd_key_def)
    then have n: "dictNext p0 p1 d it = Some (d, ?it\<lparr>it_next := hd_key es\<rparr>, Some (de_key e))"
      using k r(2) Cons by (subst dictNext.simps) simp
    have "opened d (?it\<lparr>it_next := hd_key es\<rparr>) = opened d it" "it_ok d (?it\<lparr>it_next := hd_key es\<rparr>)"
      using i(2) by (simp_all add: opened_def it_ok_def)
    then have "iter_inv d (?it\<lparr>it_next := hd_key es\<rparr>) (es @ concat (drop (opened d it) (dict_chains d)))"
      using i r(1) Cons by (auto simp: iter_inv_def intro!: exI [of _ "pre @ [e]"] exI [of _ es])
    then show ?thesis using n r(3) Cons i(3) by (simp add: next_result_def it_frame_def)
  qed
qed

section \<open>Deleting under an iterator\<close>

lemma filter_remove_nth:
  assumes "distinct (map f xs)" "j < length xs"
  shows "take j xs @ drop (Suc j) xs = filter (\<lambda>x. f x \<noteq> f (xs ! j)) xs"
  using assms
proof (induction xs arbitrary: j)
  case (Cons a xs)
  show ?case
  proof (cases j)
    case 0
    have "\<forall>x \<in> set xs. f x \<noteq> f a" using Cons.prems(1) by (force simp: image_iff)
    with 0 show ?thesis by simp
  next
    case (Suc j')
    with Cons.prems(2) have "f (xs ! j') \<in> f ` set xs" by simp
    with Cons.prems(1) have "f a \<noteq> f (xs ! j')" by auto
    with Cons Suc show ?thesis by simp
  qed
qed simp

lemma filter_chains_remove:
  assumes dis: "distinct (map f (concat xss))" and i: "i < length xss" and j: "j < length (xss ! i)"
  shows "xss[i := take j (xss ! i) @ drop (Suc j) (xss ! i)] = map (filter (\<lambda>x. f x \<noteq> f (xss ! i ! j))) xss"
proof (rule nth_equalityI)
  let ?P = "\<lambda>x. f x \<noteq> f (xss ! i ! j)"
  have s: "xss = take i xss @ xss ! i # drop (Suc i) xss" using i by (rule id_take_nth_drop)
  have d: "distinct (map f (concat (take i xss) @ xss ! i @ concat (drop (Suc i) xss)))"
    using dis by (subst (asm) s) simp
  fix n assume n: "n < length (xss[i := take j (xss ! i) @ drop (Suc j) (xss ! i)])"
  show "xss[i := take j (xss ! i) @ drop (Suc j) (xss ! i)] ! n = map (filter ?P) xss ! n"
  proof (cases "n = i")
    case True
    have "distinct (map f (xss ! i))" using d by simp
    from filter_remove_nth [OF this j] True i show ?thesis by simp
  next
    case False
    have "x \<in> set (concat (take i xss)) \<union> set (concat (drop (Suc i) xss))" if "x \<in> set (xss ! n)" for x
    proof (cases "n < i")
      case True
      then have "xss ! n \<in> set (take i xss)" using n i by (metis length_list_update length_take min.absorb2 less_imp_le nth_mem nth_take)
      then show ?thesis using that by auto
    next
      case ge: False
      then have "drop (Suc i) xss ! (n - Suc i) = xss ! n" "n - Suc i < length (drop (Suc i) xss)"
        using n False by simp_all
      then have "xss ! n \<in> set (drop (Suc i) xss)" by (metis nth_mem)
      then show ?thesis using that by auto
    qed
    moreover have "f (xss ! i ! j) \<in> f ` set (xss ! i)" using j by simp
    ultimately have "\<forall>x \<in> set (xss ! n). ?P x" using d by (fastforce simp: image_iff)
    then have "filter ?P (xss ! n) = xss ! n" by (simp add: filter_id_conv)
    then show ?thesis using False n by simp
  qed
qed simp

lemma filter_other_chains:
  assumes "k \<notin> f ` set (concat xss)"
  shows "map (filter (\<lambda>x. f x \<noteq> k)) xss = xss"
  using assms by (induction xss) (auto simp: filter_id_conv image_Un)

lemma dict_unlink_chains:
  assumes wf: "dict_wf d" and loc: "valid_loc d loc" and e: "dict_entry_at d loc = Some (Entry key v)"
    and un: "dict_unlink d loc = Some d'"
  shows "dict_chains d' = map (filter (\<lambda>e. de_key e \<noteq> key)) (dict_chains d)"
proof -
  obtain t i j where l: "loc = (t, i, j)" by (cases loc)
  let ?T = "ht_table (dict_ht d t)"
  note V = valid_locD [OF wf loc [unfolded l]]
  have key: "key = de_key (?T ! i ! j)" using V(5) e l by simp
  have d': "d' = dict_set_ht d t ((dict_ht d t)\<lparr>ht_table := ?T[i := take j (?T ! i) @ drop (Suc j) (?T ! i)],
      ht_used := ht_used (dict_ht d t) - 1\<rparr>)"
    using un V(7) l by (simp add: dict_unlink_def Let_def)
  have dis: "distinct (map de_key (concat (ht_table (ht0 d)) @ concat (ht_table (ht1 d))))"
    using wf by (simp add: dict_wf_def dict_entries_def ht_entries_def)
  then have "distinct (map de_key (concat ?T))" by (simp add: dict_ht_def)
  note this_table = filter_chains_remove [OF this V(2,3), folded key]
  have "?T ! i ! j \<in> set (concat ?T)" using V(2,3) by (auto intro!: bexI [of _ "?T ! i"])
  then have k: "key \<in> de_key ` set (concat ?T)" by (auto simp: key)
  consider "t = 0" | "t = 1" using V(1) by linarith
  then show ?thesis
  proof cases
    case 1
    then have "key \<notin> de_key ` set (concat (ht_table (ht1 d)))" using k dis by (auto simp: dict_ht_def)
    from filter_other_chains [OF this] this_table 1 show ?thesis
      by (simp add: d' dict_chains_def dict_set_ht_def dict_ht_def)
  next
    case 2
    then have "key \<notin> de_key ` set (concat (ht_table (ht0 d)))" using k dis by (auto simp: dict_ht_def)
    from filter_other_chains [OF this] this_table 2 show ?thesis
      by (simp add: d' dict_chains_def dict_set_ht_def dict_ht_def)
  qed
qed

lemma dict_unlink_rehashidx: "dict_unlink d loc = Some d' \<Longrightarrow> rehashidx d' = rehashidx d"
  by (auto simp: dict_unlink_def Let_def dict_set_ht_def split: prod.splits if_splits)

lemma dictDelete_counted:
  assumes wf: "dict_wf d" and ok: "type_ok d" and counted: "d_iterators d \<noteq> 0" and k: "k \<in> dom (dict_map d)"
  shows "\<exists>d' r. dictDelete d k = Some (d', r) \<and> dict_wf d' \<and> same_frame d d' \<and> same_sizes d d' \<and>
    rehashidx d' = rehashidx d \<and> dict_map d' = (dict_map d)(k := None) \<and>
    dict_chains d' = map (filter (\<lambda>e. de_key e \<noteq> k)) (dict_chains d)"
proof -
  have pos: "0 < ht_size (ht0 d)"
    using k wf by (intro Nat.gr0I) (auto simp: dict_map_def dict_wf_def ht_wf_def dict_entries_def ht_entries_def split: if_splits)
  have re: "rehash_on_use d = Some d" using counted by (simp add: rehash_on_use_def dictRehashStep_def)
  obtain loc v where r: "dict_find_both d k (dictHashKey d k) = Some (Some loc)" "valid_loc d loc"
    "dict_entry_at d loc = Some (Entry k v)"
    using dict_find_both_ok [OF wf ok pos, of k] k by (auto split: option.splits)
  obtain d' where d': "dict_unlink d loc = Some d'" "dict_wf d'" "same_frame d d'" "same_sizes d d'"
    "dict_map d' = (dict_map d)(k := None)"
    using dict_unlink_ok [OF wf r(2,3)] by blast
  have "dictDelete d k = Some (d', DICT_OK, dictFreeKey d (Entry k v) @ dictFreeVal d (Entry k v))"
    using pos re r(1,3) d'(1) by (simp add: dictDelete_def dictGenericDelete_def)
  then show ?thesis
    using d' dict_unlink_rehashidx [OF d'(1)] dict_unlink_chains [OF wf r(2,3) d'(1)] by auto
qed

text \<open>Deleting an entry that is not to be returned any more leaves the iterator where it is.\<close>

lemma iter_inv_delete:
  assumes inv: "iter_inv d it todo" and wf: "dict_wf d'" and s: "same_sizes d d'" "rehashidx d' = rehashidx d"
    and ch: "dict_chains d' = map (filter (\<lambda>e. de_key e \<noteq> k)) (dict_chains d)" and k: "k \<notin> de_key ` set todo"
  shows "iter_inv d' it todo"
proof -
  have o: "opened d' it = opened d it" "it_ok d' it = it_ok d it"
    using s by (simp_all add: opened_def it_ok_def same_sizes_def dictIsRehashing_def)
  obtain pre rest where r: "dict_chains d ! (opened d it - 1) = pre @ rest" "it_next it = hd_key rest"
    "todo = rest @ concat (drop (opened d it) (dict_chains d))"
    using inv by (auto simp: iter_inv_def)
  have i: "0 \<le> it_index it" "opened d it \<le> length (dict_chains d)" using inv by (simp_all add: iter_inv_def)
  then have lt: "opened d it - 1 < length (dict_chains d)" by (auto simp: opened_def)
  have "filter (\<lambda>e. de_key e \<noteq> k) rest = rest" using k r(3) by (auto simp: filter_id_conv)
  moreover have "map (filter (\<lambda>e. de_key e \<noteq> k)) (drop (opened d it) (dict_chains d)) = drop (opened d it) (dict_chains d)"
    using k r(3) by (intro filter_other_chains) auto
  ultimately show ?thesis
    using inv r lt wf unfolding iter_inv_def o ch
    by (auto simp: drop_map intro!: exI [of _ "filter (\<lambda>e. de_key e \<noteq> k) pre"] exI [of _ rest])
qed

section \<open>Properties\<close>

lemma iterate_deleting_ok:
  assumes "next_result p0 p1 d0 it d it0 todo" "dict_wf d" "type_ok d" "d_iterators d \<noteq> 0 \<or> (\<forall>k. \<not> unwanted k)"
    "distinct (map de_key todo)" "set todo \<subseteq> set (dict_entries d)"
  shows "\<exists>d' it'. iterate_deleting p0 p1 unwanted d0 it = Some (d', it', map de_key todo) \<and> dict_wf d' \<and>
    same_frame d d' \<and> it_frame it0 it' \<and> 0 \<le> it_index it' \<and>
    dict_map d' = dict_map d |` (- {k \<in> de_key ` set todo. unwanted k}) \<and> ((\<forall>k. \<not> unwanted k) \<longrightarrow> d' = d)"
  using assms
proof (induction todo arbitrary: d0 it d it0)
  case Nil
  then obtain it' where "dictNext p0 p1 d0 it = Some (d, it', None)" "it_frame it0 it'" "0 \<le> it_index it'"
    by (auto simp: next_result_def)
  with Nil.prems(2) show ?case by (subst iterate_deleting.simps) (simp add: restrict_map_def)
next
  case (Cons e todo)
  note wf = Cons.prems(2)
  obtain it1 where it1:
    "dictNext p0 p1 d0 it = Some (d, it1, Some (de_key e))" "it_frame it0 it1" "iter_inv d it1 todo"
    using Cons.prems(1) by (auto simp: next_result_def)
  have td: "distinct (map de_key todo)" "de_key e \<notin> de_key ` set todo" using Cons.prems(5) by simp_all
  show ?case
  proof (cases "unwanted (de_key e)")
    case False
    have "set todo \<subseteq> set (dict_entries d)" using Cons.prems(6) by simp
    from Cons.IH [OF next_from_entry [OF it1(3)] wf Cons.prems(3,4) td(1) this] obtain d' it' where r:
      "iterate_deleting p0 p1 unwanted d it1 = Some (d', it', map de_key todo)" "dict_wf d'" "same_frame d d'"
      "it_frame it1 it'" "0 \<le> it_index it'" "dict_map d' = dict_map d |` (- {k \<in> de_key ` set todo. unwanted k})"
      "(\<forall>k. \<not> unwanted k) \<longrightarrow> d' = d"
      by blast
    have "{k \<in> de_key ` set (e # todo). unwanted k} = {k \<in> de_key ` set todo. unwanted k}" using False by auto
    then show ?thesis
      using it1(1) False r it_frame_trans [OF it1(2) r(4)] by (subst iterate_deleting.simps) simp
  next
    case True
    then have c: "d_iterators d \<noteq> 0" using Cons.prems(4) by blast
    have "de_key e \<in> dom (dict_map d)"
      using Cons.prems(6) dict_map_None_iff [of d "de_key e"] by auto
    from dictDelete_counted [OF wf Cons.prems(3) c this] obtain d1 ev where d1:
      "dictDelete d (de_key e) = Some (d1, ev)" "dict_wf d1" "same_frame d d1" "same_sizes d d1" "rehashidx d1 = rehashidx d"
      "dict_map d1 = (dict_map d)(de_key e := None)"
      "dict_chains d1 = map (filter (\<lambda>x. de_key x \<noteq> de_key e)) (dict_chains d)" by blast
    have inv: "iter_inv d1 it1 todo" by (rule iter_inv_delete [OF it1(3) d1(2,4,5,7) td(2)])
    have "dict_entries d1 = filter (\<lambda>x. de_key x \<noteq> de_key e) (dict_entries d)"
      unfolding concat_chains [symmetric] d1(7) by (simp add: filter_concat)
    then have sub: "set todo \<subseteq> set (dict_entries d1)" using Cons.prems(6) td(2) by (force simp: image_iff)
    have t1: "type_ok d1" "d_iterators d1 \<noteq> 0 \<or> (\<forall>k. \<not> unwanted k)"
      using same_frame_cong [OF d1(3)] Cons.prems(3) d1(3) c by (simp_all add: same_frame_def)
    from Cons.IH [OF next_from_entry [OF inv] d1(2) t1 td(1) sub] obtain d' it' where r:
      "iterate_deleting p0 p1 unwanted d1 it1 = Some (d', it', map de_key todo)" "dict_wf d'" "same_frame d1 d'"
      "it_frame it1 it'" "0 \<le> it_index it'" "dict_map d' = dict_map d1 |` (- {k \<in> de_key ` set todo. unwanted k})"
      by blast
    have "dict_map d' = dict_map d |` (- {k \<in> de_key ` set (e # todo). unwanted k})"
      unfolding r(6) d1(6) using True by (auto simp: restrict_map_def fun_eq_iff)
    then show ?thesis
      using it1(1) True d1(1) r(1,2,5) same_frame_trans [OF d1(3) r(3)] it_frame_trans [OF it1(2) r(4)]
      by (subst iterate_deleting.simps) auto
  qed
qed

lemma iterate_from_start:
  assumes "iter_open p0 p1 d0 it = (d, it0)" "it_entry it = None" "it_ok d it0" "opened d it0 = 0"
    and wf: "dict_wf d" and ok: "type_ok d" and c: "d_iterators d \<noteq> 0 \<or> (\<forall>k. \<not> unwanted k)"
  shows "\<exists>d' it'. iterate_deleting p0 p1 unwanted d0 it = Some (d', it', map de_key (dict_entries d)) \<and> dict_wf d' \<and>
    same_frame d d' \<and> it_frame it0 it' \<and> 0 \<le> it_index it' \<and>
    dict_map d' = dict_map d |` (- {k. unwanted k}) \<and> ((\<forall>k. \<not> unwanted k) \<longrightarrow> d' = d)"
proof -
  have "next_result p0 p1 d0 it d it0 (dict_entries d)"
    using next_from_bucket [OF assms(1,2) wf assms(3)] assms(4) by (simp add: concat_chains)
  moreover have "distinct (map de_key (dict_entries d))" using wf by (simp add: dict_wf_def)
  moreover have "dict_map d |` (- {k \<in> de_key ` set (dict_entries d). unwanted k}) = dict_map d |` (- {k. unwanted k})"
    using dict_map_None_iff [of d] by (auto simp: restrict_map_def fun_eq_iff)
  ultimately show ?thesis
    using iterate_deleting_ok [OF _ wf ok c, of p0 p1 d0 it it0 "dict_entries d"] by auto
qed

lemma dict_wf_count [simp]: "dict_wf (d\<lparr>d_iterators := n\<rparr>) = dict_wf d"
  "dict_entries (d\<lparr>d_iterators := n\<rparr>) = dict_entries d" "dict_map (d\<lparr>d_iterators := n\<rparr>) = dict_map d"
  "type_ok (d\<lparr>d_iterators := n\<rparr>) = type_ok d"
proof -
  have h: "dictHashKey (d\<lparr>d_iterators := n\<rparr>) = dictHashKey d" by (simp add: dictHashKey_def fun_eq_iff)
  show e: "dict_entries (d\<lparr>d_iterators := n\<rparr>) = dict_entries d" by (simp add: dict_entries_def)
  show "dict_wf (d\<lparr>d_iterators := n\<rparr>) = dict_wf d" by (simp add: dict_wf_def h e dictIsRehashing_def)
  show "dict_map (d\<lparr>d_iterators := n\<rparr>) = dict_map d" by (simp add: dict_map_def e)
  show "type_ok (d\<lparr>d_iterators := n\<rparr>) = type_ok d"
  proof -
    have "d_type (d\<lparr>d_iterators := n\<rparr>) = d_type d" "d_privdata (d\<lparr>d_iterators := n\<rparr>) = d_privdata d" by simp_all
    then show ?thesis by (simp only: type_ok_def dictCompareKeys_def dict_key_copy_def dict_val_copy_def)
  qed
qed

text \<open>
  C4: under a safe iterator the caller may delete the entries it is given. Whatever subset it deletes, every
  entry that was in the dictionary is returned exactly once, no freed entry is touched, the loop ends, what is
  left is the map without the deleted keys, and after the iterator is released no iterator is counted that was
  not counted before.
\<close>

theorem safe_iterator_deleting:
  assumes "dict_wf d" "type_ok d" "0 \<le> d_iterators d"
  shows "\<exists>d1 it1 d2. iterate_deleting p0 p1 unwanted d (dictGetSafeIterator garbage) =
      Some (d1, it1, map de_key (dict_entries d)) \<and> dictReleaseIterator p0 p1 d1 it1 = Some d2 \<and>
    dict_wf d2 \<and> dict_map d2 = dict_map d |` (- {k. unwanted k}) \<and> d_iterators d2 = d_iterators d"
proof -
  let ?d = "d\<lparr>d_iterators := d_iterators d + 1\<rparr>" and ?it = "dictGetSafeIterator garbage"
  have "iter_open p0 p1 d ?it = (?d, ?it)" "it_entry ?it = None" "it_ok ?d ?it" "opened ?d ?it = 0"
    by (simp_all add: iter_open_def dictGetSafeIterator_def dictGetIterator_def it_ok_def opened_def)
  from iterate_from_start [OF this, of unwanted] assms obtain d1 it1 where r:
    "iterate_deleting p0 p1 unwanted d ?it = Some (d1, it1, map de_key (dict_entries d))" "dict_wf d1"
    "same_frame ?d d1" "it_frame ?it it1" "0 \<le> it_index it1" "dict_map d1 = dict_map d |` (- {k. unwanted k})"
    by auto
  have "it_safe it1" using r(4) by (simp add: it_frame_def dictGetSafeIterator_def)
  then have "dictReleaseIterator p0 p1 d1 it1 = Some (d1\<lparr>d_iterators := d_iterators d1 - 1\<rparr>)"
    using r(5) by (simp add: dictReleaseIterator_def)
  moreover have "d_iterators d1 = d_iterators d + 1" using r(3) by (simp add: same_frame_def)
  ultimately show ?thesis using r(1,2,6) by auto
qed

theorem safe_iterator_deleting_witness:
  "\<exists>d1 it1 d2. iterate_deleting 0 0 (\<lambda>k. k = 5) sample_dict (dictGetSafeIterator 0) =
      Some (d1, it1, map de_key (dict_entries sample_dict)) \<and> dictReleaseIterator 0 0 d1 it1 = Some d2 \<and>
    dict_wf d2 \<and> dict_map d2 = dict_map sample_dict |` (- {k. k = 5}) \<and> d_iterators d2 = d_iterators sample_dict"
  by (rule safe_iterator_deleting [OF sample_ok]) (simp add: sample_dict_def)

text \<open>
  The other iterator, used without changing the dictionary, returns every entry exactly once as well, leaves
  the dictionary as it was, and its release passes the check of the fingerprint.
\<close>

lemma plain_iterator_visits_all:
  assumes "dict_wf d" "type_ok d"
  shows "\<exists>it1. iterate_deleting p0 p1 (\<lambda>_. False) d (dictGetIterator garbage) =
      Some (d, it1, map de_key (dict_entries d)) \<and> dictReleaseIterator p0 p1 d it1 = Some d"
proof -
  let ?it = "dictGetIterator garbage"
  let ?opened_it = "?it\<lparr>it_fingerprint := dictFingerprint p0 p1 d\<rparr>"
  have "iter_open p0 p1 d ?it = (d, ?opened_it)" "it_entry ?it = None" "it_ok d ?opened_it" "opened d ?opened_it = 0"
    by (simp_all add: iter_open_def dictGetIterator_def it_ok_def opened_def)
  from iterate_from_start [OF this assms, of "\<lambda>_. False"] obtain it1 where r:
    "iterate_deleting p0 p1 (\<lambda>_. False) d ?it = Some (d, it1, map de_key (dict_entries d))" "it_frame ?opened_it it1"
    "0 \<le> it_index it1"
    by auto
  then have "dictReleaseIterator p0 p1 d it1 = Some d"
    by (simp add: dictReleaseIterator_def it_frame_def dictGetIterator_def)
  with r(1) show ?thesis by blast
qed

lemma plain_iterator_visits_all_witness:
  "\<exists>it1. iterate_deleting 1 2 (\<lambda>_. False) sample_dict (dictGetIterator 0) =
      Some (sample_dict, it1, map de_key (dict_entries sample_dict)) \<and>
    dictReleaseIterator 1 2 sample_dict it1 = Some sample_dict"
  by (rule plain_iterator_visits_all [OF sample_ok])

end
