(* ===== verification/Hash_Functions.thy ===== *)
theory Hash_Functions
  imports Prelude
begin

text \<open>
  The hash functions of \<^verbatim>\<open>util/dict.c\<close> (integer mix, MurmurHash2, case-insensitive djb hash) and
  \<^verbatim>\<open>util/xhash.c\<close> (multiplicative hashing by shifts), at their machine widths. A key buffer with
  its length is the list of its bytes; the static seed is an argument. The build is 64-bit
  and little-endian.
\<close>

unbundle bit_operations_syntax

section \<open>Thomas Wang's integer mix\<close>

definition dictIntHashFunction :: "u32 \<Rightarrow> u32" where
  "dictIntHashFunction key0 =
     (let key1 = key0 + NOT (push_bit 15 key0);
          key2 = key1 XOR drop_bit 10 key1;
          key3 = key2 + push_bit 3 key2;
          key4 = key3 XOR drop_bit 6 key3;
          key5 = key4 + NOT (push_bit 11 key4);
          key6 = key5 XOR drop_bit 16 key5
      in key6)"

text \<open>Each line of the mix can be undone: a shift-and-xor is injective,\<close>

lemma xorshift_inj:
  fixes x y :: "'a::len word"
  assumes n: "0 < n" and eq: "x XOR drop_bit n x = y XOR drop_bit n y"
  shows "x = y"
proof (rule bit_word_eqI)
  fix i assume "i < LENGTH('a)"
  have "bit x i = bit y i" for i
  proof (induction "LENGTH('a) - i" arbitrary: i rule: less_induct)
    case less
    show ?case
    proof (cases "i < LENGTH('a)")
      case False
      then show ?thesis by (meson bit_imp_le_length not_le)
    next
      case True
      have "LENGTH('a) - (n + i) < LENGTH('a) - i" using n True by arith
      then have "bit x (n + i) = bit y (n + i)" by (rule less)
      moreover have "bit (x XOR drop_bit n x) i = bit (y XOR drop_bit n y) i" by (simp add: eq)
      ultimately show ?thesis by (auto simp: bit_xor_iff bit_drop_bit_eq)
    qed
  qed
  then show "bit x i = bit y i" .
qed

text \<open>and the additions are multiplications by an odd constant, up to a constant term.\<close>

lemma odd_mult_inj:
  fixes c c' :: "'a::len word"
  assumes "c' * c = 1" "c * x = c * y"
  shows "x = y"
proof -
  have "c' * (c * x) = c' * (c * y)" by (simp add: assms(2))
  then show ?thesis by (simp add: assms(1) flip: mult.assoc)
qed

lemma add_push_bit: "x + push_bit n x = (1 + 2 ^ n) * (x :: 'a::len word)"
  by (simp add: push_bit_eq_mult algebra_simps)

lemma add_not_push_bit: "x + NOT (push_bit n x) = (1 - 2 ^ n) * x - (1 :: 'a::len word)"
  by (simp add: push_bit_eq_mult not_eq_complement algebra_simps)

lemma add_push_bit_inj:
  fixes x y :: u32
  shows "x + push_bit 3 x = y + push_bit 3 y \<Longrightarrow> x = y"
    and "x + NOT (push_bit 15 x) = y + NOT (push_bit 15 y) \<Longrightarrow> x = y"
    and "x + NOT (push_bit 11 x) = y + NOT (push_bit 11 y) \<Longrightarrow> x = y"
  unfolding add_push_bit add_not_push_bit
  using odd_mult_inj [of 954437177 "9 :: u32" x y]
    odd_mult_inj [of 1073774593 "1 - 2 ^ 15 :: u32" x y]
    odd_mult_inj [of 4196353 "1 - 2 ^ 11 :: u32" x y]
  by simp_all

lemma dictIntHashFunction_comp:
  "dictIntHashFunction =
     (\<lambda>x. x XOR drop_bit 16 x) \<circ> (\<lambda>x. x + NOT (push_bit 11 x)) \<circ>
     (\<lambda>x. x XOR drop_bit 6 x) \<circ> (\<lambda>x. x + push_bit 3 x) \<circ>
     (\<lambda>x. x XOR drop_bit 10 x) \<circ> (\<lambda>x. x + NOT (push_bit 15 x))"
  by (rule ext) (simp only: dictIntHashFunction_def Let_def comp_def)

lemma mix_step_inj:
  "0 < n \<Longrightarrow> inj (\<lambda>x :: u32. x XOR drop_bit n x)"
  "inj (\<lambda>x :: u32. x + push_bit 3 x)"
  "inj (\<lambda>x :: u32. x + NOT (push_bit 15 x))"
  "inj (\<lambda>x :: u32. x + NOT (push_bit 11 x))"
  by (rule injI, erule (1) xorshift_inj)
    (rule injI, erule add_push_bit_inj)+

lemma dictIntHashFunction_inj: "inj dictIntHashFunction"
  unfolding dictIntHashFunction_comp by (intro inj_compose mix_step_inj) simp_all

section \<open>MurmurHash2\<close>

definition murmur_m :: u32 where
  "murmur_m = 0x5bd1e995"

text \<open>A four-byte little-endian load.\<close>

definition load_le32 :: "u8 \<Rightarrow> u8 \<Rightarrow> u8 \<Rightarrow> u8 \<Rightarrow> u32" where
  "load_le32 b0 b1 b2 b3 =
     ucast b0 OR push_bit 8 (ucast b1) OR
     push_bit 16 (ucast b2) OR push_bit 24 (ucast b3)"

fun murmur_blocks :: "u32 \<Rightarrow> u8 list \<Rightarrow> u32 \<times> u8 list" where
  "murmur_blocks h (b0 # b1 # b2 # b3 # data) =
     (let k0 = load_le32 b0 b1 b2 b3;
          k1 = k0 * murmur_m;
          k2 = k1 XOR drop_bit 24 k1;
          k3 = k2 * murmur_m;
          h1 = h * murmur_m
      in murmur_blocks (h1 XOR k3) data)"
| "murmur_blocks h data = (h, data)"

text \<open>The \<open>switch\<close> on the bytes that are left, with its fall-through cases.\<close>

fun murmur_tail :: "u32 \<Rightarrow> u8 list \<Rightarrow> u32" where
  "murmur_tail h [b0, b1, b2] =
     murmur_tail (h XOR push_bit 16 (ucast b2)) [b0, b1]"
| "murmur_tail h [b0, b1] = murmur_tail (h XOR push_bit 8 (ucast b1)) [b0]"
| "murmur_tail h [b0] = (h XOR ucast b0) * murmur_m"
| "murmur_tail h data = h"

definition dictGenHashFunction :: "u32 \<Rightarrow> u8 list \<Rightarrow> u32" where
  "dictGenHashFunction seed key =
     (case murmur_blocks (seed XOR word_of_nat (length key)) key of (h0, rest) \<Rightarrow>
        let h1 = murmur_tail h0 rest;
            h2 = h1 XOR drop_bit 13 h1;
            h3 = h2 * murmur_m;
            h4 = h3 XOR drop_bit 15 h3
        in h4)"

text \<open>The block loop leaves fewer than four bytes for the \<open>switch\<close>.\<close>

lemma murmur_blocks_rest: "snd (murmur_blocks h data) = drop (4 * (length data div 4)) data"
proof (induction h data rule: murmur_blocks.induct)
  case (1 h b0 b1 b2 b3 data)
  have "(4 + length data) div 4 = Suc (length data div 4)" by simp
  moreover have "drop (4 + n) (b0 # b1 # b2 # b3 # data) = drop n data" for n
    by (simp add: eval_nat_numeral)
  ultimately show ?case using 1 by (simp add: Let_def)
qed simp_all

text \<open>Every step of the hash can be undone, so one block that differs is enough.\<close>

lemma xor_cancel: "(x :: 'a::len word) XOR y = x XOR z \<longleftrightarrow> y = z" "y XOR x = z XOR x \<longleftrightarrow> y = z"
proof -
  show "x XOR y = x XOR z \<longleftrightarrow> y = z"
  proof
    assume "x XOR y = x XOR z"
    then have "x XOR (x XOR y) = x XOR (x XOR z)" by simp
    then show "y = z" by (simp flip: xor.assoc)
  qed simp
  then show "y XOR x = z XOR x \<longleftrightarrow> y = z" by (simp add: xor.commute)
qed

lemma murmur_m_inj: "x * murmur_m = y * murmur_m \<longleftrightarrow> x = y" "murmur_m * x = murmur_m * y \<longleftrightarrow> x = y"
  using odd_mult_inj [of 3852147133 murmur_m x y]
  by (auto simp: murmur_m_def mult.commute)

definition murmur_block :: "u32 \<Rightarrow> u32" where
  "murmur_block k = (k * murmur_m XOR drop_bit 24 (k * murmur_m)) * murmur_m"

lemma murmur_block_inj: "murmur_block k = murmur_block k' \<longleftrightarrow> k = k'"
  using xorshift_inj [of 24 "k * murmur_m" "k' * murmur_m"]
  by (auto simp: murmur_block_def murmur_m_inj)

lemma murmur_blocks_step:
  "murmur_blocks h (b0 # b1 # b2 # b3 # data) =
     murmur_blocks (h * murmur_m XOR murmur_block (load_le32 b0 b1 b2 b3)) data"
  by (simp add: murmur_block_def Let_def)

lemma murmur_blocks_short: "length s < 4 \<Longrightarrow> murmur_blocks h s = (h, s)"
  by (cases "(h, s)" rule: murmur_blocks.cases) simp_all

declare murmur_blocks.simps(1) [simp del] murmur_blocks_step [simp] murmur_blocks_short [simp]

lemma quads_induct [case_names short more]:
  fixes s :: "'a list"
  assumes "\<And>s. length s < 4 \<Longrightarrow> P s" "\<And>b0 b1 b2 b3 s. P s \<Longrightarrow> P (b0 # b1 # b2 # b3 # s)"
  shows "P s"
proof (induction s rule: length_induct)
  case (1 s)
  show ?case
  proof (cases "length s < 4")
    case False
    then obtain b0 b1 b2 b3 t where "s = b0 # b1 # b2 # b3 # t"
      by (auto simp: not_less numeral_eq_Suc Suc_le_length_iff)
    with 1 assms(2) show ?thesis by simp
  qed (rule assms(1))
qed

lemma murmur_blocks_inj: "fst (murmur_blocks h s) = fst (murmur_blocks h' s) \<longleftrightarrow> h = h'"
  by (induction s arbitrary: h h' rule: quads_induct) (simp_all add: xor_cancel murmur_m_inj)

lemma murmur_blocks_append:
  "length p mod 4 = 0 \<Longrightarrow> murmur_blocks h (p @ s) = murmur_blocks (fst (murmur_blocks h p)) s"
  by (induction p arbitrary: h rule: quads_induct) simp_all

lemma load_le32_byte:
  "drop_bit 0 (ucast (load_le32 b0 b1 b2 b3)) = b0"
  "ucast (drop_bit 8 (load_le32 b0 b1 b2 b3)) = b1"
  "ucast (drop_bit 16 (load_le32 b0 b1 b2 b3)) = b2"
  "ucast (drop_bit 24 (load_le32 b0 b1 b2 b3)) = b3"
  by (rule bit_word_eqI; auto simp: load_le32_def bit_simps dest: bit_imp_le_length)+

lemma load_le32_inj:
  "load_le32 a0 a1 a2 a3 = load_le32 b0 b1 b2 b3 \<longleftrightarrow> [a0, a1, a2, a3] = [b0, b1, b2, b3]"
  by (metis load_le32_byte list.inject)

text \<open>The \<open>switch\<close> mixes the bytes that are left like a block padded with zeros.\<close>

definition tail_word :: "u8 list \<Rightarrow> u32" where
  "tail_word s = (case s of [b0] \<Rightarrow> load_le32 b0 0 0 0 | [b0, b1] \<Rightarrow> load_le32 b0 b1 0 0
     | [b0, b1, b2] \<Rightarrow> load_le32 b0 b1 b2 0 | _ \<Rightarrow> 0)"

lemma load_le32_xor:
  "load_le32 b0 b1 b2 b3 =
     ucast b0 XOR push_bit 8 (ucast b1) XOR push_bit 16 (ucast b2) XOR push_bit 24 (ucast b3)"
  unfolding load_le32_def
  by (rule bit_word_eqI) (auto simp: bit_simps dest: bit_imp_le_length)

lemma short_list_cases:
  assumes "s \<noteq> []" "length s < 4"
  obtains b0 where "s = [b0]" | b0 b1 where "s = [b0, b1]" | b0 b1 b2 where "s = [b0, b1, b2]"
proof -
  have "0 < length s" using assms(1) by simp
  then consider "length s = 1" | "length s = 2" | "length s = 3"
    using assms(2) by linarith
  then show thesis
    by cases (auto simp: length_Suc_conv numeral_2_eq_2 numeral_3_eq_3 intro: that)
qed

lemma murmur_tail_word:
  assumes "s \<noteq> []" "length s < 4"
  shows "murmur_tail h s = (h XOR tail_word s) * murmur_m"
  using assms
  by (cases rule: short_list_cases)
    (simp_all add: tail_word_def load_le32_xor murmur_m_inj ac_simps)

lemma tail_word_inj:
  assumes "tail_word s = tail_word t" "length s = length t" "length s < 4"
  shows "s = t"
proof (cases "s = []")
  case False
  then have t: "t \<noteq> []" "length t < 4" using assms by auto
  show ?thesis
    using False assms(3)
    by (cases rule: short_list_cases)
      (use t in \<open>cases rule: short_list_cases;
        use assms in \<open>simp add: tail_word_def load_le32_inj\<close>\<close>)+
qed (use assms in simp)

definition murmur_final :: "u32 \<Rightarrow> u32" where
  "murmur_final h = (let h2 = (h XOR drop_bit 13 h) * murmur_m in h2 XOR drop_bit 15 h2)"

lemma murmur_final_inj: "murmur_final h = murmur_final h' \<longleftrightarrow> h = h'"
  using xorshift_inj [of 13 h h']
    xorshift_inj [of 15 "(h XOR drop_bit 13 h) * murmur_m" "(h' XOR drop_bit 13 h') * murmur_m"]
  by (auto simp: murmur_final_def Let_def murmur_m_inj)

lemma dictGenHashFunction_final:
  "dictGenHashFunction seed key =
     murmur_final (case murmur_blocks (seed XOR word_of_nat (length key)) key of (h, rest) \<Rightarrow> murmur_tail h rest)"
  by (simp add: dictGenHashFunction_def murmur_final_def Let_def split: prod.split)

section \<open>The case-insensitive hash\<close>

text \<open>\<open>tolower\<close> of the C locale.\<close>

definition tolower :: "u8 \<Rightarrow> u8" where
  "tolower c = (if 65 \<le> c \<and> c \<le> 90 then c + 32 else c)"

fun case_hash_loop :: "u32 \<Rightarrow> u8 list \<Rightarrow> u32" where
  "case_hash_loop hash [] = hash"
| "case_hash_loop hash (c # buf) =
     case_hash_loop ((push_bit 5 hash + hash) + ucast (tolower c)) buf"

definition dictGenCaseHashFunction :: "u32 \<Rightarrow> u8 list \<Rightarrow> u32" where
  "dictGenCaseHashFunction seed buf = case_hash_loop seed buf"

text \<open>The loop is Horner's rule for base 33.\<close>

lemma case_hash_loop_horner:
  "case_hash_loop h buf =
     h * 33 ^ length buf + (\<Sum>i<length buf. ucast (tolower (buf ! i)) * 33 ^ (length buf - 1 - i))"
proof (induction buf arbitrary: h)
  case (Cons c buf)
  have "push_bit 5 h + h = 33 * h" by (simp add: push_bit_eq_mult algebra_simps)
  moreover have "(\<Sum>i<length (c # buf). ucast (tolower ((c # buf) ! i)) *
        33 ^ (length (c # buf) - 1 - i)) =
      ucast (tolower c) * 33 ^ length buf +
      (\<Sum>i<length buf. ucast (tolower (buf ! i)) * (33 :: u32) ^ (length buf - 1 - i))"
    by (simp add: sum.lessThan_Suc_shift del: sum.lessThan_Suc)
  ultimately show ?case
    using Cons.IH by (simp add: algebra_simps)
qed simp

lemma case_hash_loop_tolower: "case_hash_loop h (map tolower buf) = case_hash_loop h buf"
proof (induction buf arbitrary: h)
  case (Cons c buf)
  have "tolower (tolower c) = tolower c"
    by (auto simp: tolower_def word_le_nat_alt unat_word_ariths)
  with Cons show ?case by simp
qed simp

section \<open>Multiplicative hashing of a long\<close>

definition GOLDEN_RATIO_PRIME :: u64 where
  "GOLDEN_RATIO_PRIME = 0x9e37fffffffc0001"

text \<open>
  \<open>hash_long\<close>; \<open>None\<close> when the final shift amount \<open>BITS_PER_LONG - bits\<close> is not below the
  width, where C leaves the result undefined.
\<close>

definition hash_long :: "u64 \<Rightarrow> u32 \<Rightarrow> u64 option" where
  "hash_long val bits =
     (let n0 = push_bit 18 val;
          hash0 = val - n0;
          n1 = push_bit 33 n0;
          hash1 = hash0 - n1;
          n2 = push_bit 3 n1;
          hash2 = hash1 + n2;
          n3 = push_bit 3 n2;
          hash3 = hash2 - n3;
          n4 = push_bit 4 n3;
          hash4 = hash3 + n4;
          n5 = push_bit 2 n4;
          hash5 = hash4 + n5;
          shift = unat (64 - bits)
      in if shift < 64 then Some (drop_bit shift hash5) else None)"

definition hash_ptr :: "u64 \<Rightarrow> u32 \<Rightarrow> u64 option" where
  "hash_ptr ptr bits = hash_long ptr bits"

text \<open>The shifts and additions are the multiplication by the prime of the header comment.\<close>

lemma hash_long_multiplies:
  assumes "0 < bits" "bits \<le> 64"
  shows "hash_long val bits = Some (drop_bit (64 - unat bits) (val * GOLDEN_RATIO_PRIME))"
proof -
  have "unat (64 - bits) = 64 - unat bits" "0 < unat bits"
    using assms by (simp_all add: unat_sub unat_gt_0 word_less_nat_alt)
  moreover have "val - push_bit 18 val - push_bit 33 (push_bit 18 val) +
      push_bit 3 (push_bit 33 (push_bit 18 val)) -
      push_bit 3 (push_bit 3 (push_bit 33 (push_bit 18 val))) +
      push_bit 4 (push_bit 3 (push_bit 3 (push_bit 33 (push_bit 18 val)))) +
      push_bit 2 (push_bit 4 (push_bit 3 (push_bit 3 (push_bit 33 (push_bit 18 val)))))
    = val * GOLDEN_RATIO_PRIME"
    by (simp add: push_bit_eq_mult GOLDEN_RATIO_PRIME_def algebra_simps)
  ultimately show ?thesis
    by (simp add: hash_long_def Let_def)
qed

lemma hash_long_bound:
  assumes "0 < bits" "bits \<le> 64" "hash_long val bits = Some h"
  shows "unat h < 2 ^ unat bits"
proof -
  have b: "unat bits \<le> 64" using assms(2) by (simp add: word_le_nat_alt)
  have "h = drop_bit (64 - unat bits) (val * GOLDEN_RATIO_PRIME)"
    using hash_long_multiplies [OF assms(1,2)] assms(3) by simp
  then have "unat h = unat (val * GOLDEN_RATIO_PRIME) div 2 ^ (64 - unat bits)"
    by (simp only: unat_drop_bit_eq drop_bit_eq_div [where 'a = nat])
  moreover have "unat (val * GOLDEN_RATIO_PRIME) < 2 ^ (64 - unat bits) * 2 ^ unat bits"
    using unsigned_less [of "val * GOLDEN_RATIO_PRIME"] b by (simp flip: power_add)
  ultimately show ?thesis by (simp add: less_mult_imp_div_less ac_simps)
qed

section \<open>Properties\<close>

text \<open>
  The integer mix \<open>dictIntHashFunction\<close> is a permutation of the 32-bit words: no two integer keys
  share a hash.
\<close>

lemma dictIntHashFunction_bij: "bij dictIntHashFunction"
proof -
  have "finite (UNIV :: u32 set)" by simp
  from finite_UNIV_inj_surj [OF this dictIntHashFunction_inj] show ?thesis
    using dictIntHashFunction_inj by (simp add: bij_def)
qed

text \<open>
  \<open>dictGenHashFunction\<close> (MurmurHash2) separates all keys of the same length that differ in one
  aligned four-byte block only, or in the last one to three bytes only, whatever the seed.
\<close>

lemma dictGenHashFunction_separates:
  assumes "length x = length y" "length p mod 4 = 0"
    and "length x = 4 \<or> length x < 4 \<and> q = []" "x \<noteq> y"
  shows "dictGenHashFunction seed (p @ x @ q) \<noteq> dictGenHashFunction seed (p @ y @ q)"
proof
  assume eq: "dictGenHashFunction seed (p @ x @ q) = dictGenHashFunction seed (p @ y @ q)"
  define h where "h = fst (murmur_blocks (seed XOR word_of_nat (length (p @ x @ q))) p)"
  let ?t = "\<lambda>s. case murmur_blocks h s of (g, rest) \<Rightarrow> murmur_tail g rest"
  have split: "murmur_blocks (seed XOR word_of_nat (length (p @ z @ q))) (p @ z @ q) =
      murmur_blocks h (z @ q)" if "length z = length x" for z
    using that assms(2) by (simp add: murmur_blocks_append h_def)
  have teq: "?t (x @ q) = ?t (y @ q)"
    using eq assms(1) split [of x] split [of y]
    by (simp add: dictGenHashFunction_final murmur_final_inj)
  show False
  proof (cases "length x = 4")
    case True
    obtain a0 a1 a2 a3 where x: "x = [a0, a1, a2, a3]"
      using True by (auto simp: length_Suc_conv numeral_eq_Suc)
    obtain b0 b1 b2 b3 where y: "y = [b0, b1, b2, b3]"
      using True assms(1) by (auto simp: length_Suc_conv numeral_eq_Suc)
    have tail: "murmur_tail g s = murmur_tail g' s \<longleftrightarrow> g = g'" if "length s < 4" for g g' s
      using murmur_tail_word [of s g] murmur_tail_word [of s g'] that
      by (cases "s = []") (simp_all add: murmur_m_inj xor_cancel)
    have rest: "snd (murmur_blocks g q) = drop (4 * (length q div 4)) q" for g
      by (rule murmur_blocks_rest)
    have "length (drop (4 * (length q div 4)) q) < 4" by simp
    then have "load_le32 a0 a1 a2 a3 = load_le32 b0 b1 b2 b3"
      using teq by (simp add: x y split_beta rest tail murmur_blocks_inj xor_cancel murmur_block_inj)
    then show False using assms(4) by (simp add: x y load_le32_inj)
  next
    case False
    then have l: "length x < 4" "length y < 4" "q = []" "x \<noteq> []" "y \<noteq> []"
      using assms by auto
    then have "tail_word x = tail_word y"
      using teq by (simp add: murmur_tail_word murmur_m_inj xor_cancel)
    then show False using tail_word_inj l assms by blast
  qed
qed

lemma dictGenHashFunction_separates_witness:
  "dictGenHashFunction 5381 ([1, 2, 3, 4] @ [5, 6] @ []) \<noteq>
   dictGenHashFunction 5381 ([1, 2, 3, 4] @ [5, 7] @ [])"
  by (rule dictGenHashFunction_separates) simp_all

text \<open>
  \<open>dictGenCaseHashFunction\<close> is the polynomial \<open>seed * 33 ^ n + \<Sum> tolower (buf i) * 33 ^ (n - 1 - i)\<close> in
  32-bit arithmetic; so keys that differ in the case of their letters have the same hash.
\<close>

lemma dictGenCaseHashFunction_horner:
  "dictGenCaseHashFunction seed buf =
     seed * 33 ^ length buf +
     (\<Sum>i<length buf. ucast (tolower (buf ! i)) * 33 ^ (length buf - 1 - i)) \<and>
   dictGenCaseHashFunction seed (map tolower buf) = dictGenCaseHashFunction seed buf"
  by (simp add: dictGenCaseHashFunction_def case_hash_loop_tolower case_hash_loop_horner [of seed buf])

text \<open>
  The shifts, additions and subtractions of \<open>hash_long\<close> multiply by the golden ratio prime of the
  header comment modulo \<open>2 ^ 64\<close> and keep the top \<open>bits\<close> bits, for \<open>bits\<close> from 1 to 64: the
  result is a valid index of a table of \<open>2 ^ bits\<close> slots. For every other value of \<open>bits\<close>, 0
  included, the code shifts by at least the width of the word.
\<close>

lemma hash_long_spec:
  "hash_long val bits =
     (if 0 < bits \<and> bits \<le> 64
      then Some (drop_bit (64 - unat bits)
             (val * (2 ^ 63 + 2 ^ 61 - 2 ^ 57 + 2 ^ 54 - 2 ^ 51 - 2 ^ 18 + 1)))
      else None) \<and>
   (case hash_long val bits of Some h \<Rightarrow> unat h < 2 ^ unat bits | None \<Rightarrow> True)"
proof -
  have p: "2 ^ 63 + 2 ^ 61 - 2 ^ 57 + 2 ^ 54 - 2 ^ 51 - 2 ^ 18 + 1 = GOLDEN_RATIO_PRIME"
    by (simp add: GOLDEN_RATIO_PRIME_def)
  show ?thesis
  proof (cases "0 < bits \<and> bits \<le> 64")
    case True
    then show ?thesis
      unfolding p using hash_long_multiplies [of bits val] hash_long_bound [of bits val] by simp
  next
    case False
    have "64 \<le> unat (64 - bits)"
    proof (cases "bits = 0")
      case False
      with \<open>\<not> (0 < bits \<and> bits \<le> 64)\<close> have b: "64 < unat bits"
        by (auto simp: word_gt_0 word_le_nat_alt not_le)
      have "unat (64 - bits) = unat (64 :: u32) + 2 ^ 32 - unat bits"
        using b by (simp add: unat_sub_if_size word_le_nat_alt word_size)
      then show ?thesis using unsigned_less [of bits, where 'a = nat] by simp
    qed simp
    with False show ?thesis by (auto simp: hash_long_def Let_def)
  qed
qed

end
