(* ===== verification/Dict_Extra.thy ===== *)
theory Dict_Extra
  imports Dict_Properties Hash_Functions
begin

text \<open>
  The rest of \<^verbatim>\<open>util/dict.c\<close>: its two static variables, rehashing for an amount of time, random entries, the
  statistics, and the dictionary types for C strings. The results of \<open>random\<close> and the readings of the clock are
  lists, in the order of the calls; a list that is used up gives \<open>None\<close>.
\<close>

section \<open>Static variables\<close>

record dict_statics =
  dict_hash_function_seed :: u32
  dict_can_resize :: bool

definition dict_statics_start :: dict_statics where
  "dict_statics_start = \<lparr>dict_hash_function_seed = 5381, dict_can_resize = True\<rparr>"

definition dictSetHashFunctionSeed :: "u32 \<Rightarrow> dict_statics \<Rightarrow> dict_statics" where
  "dictSetHashFunctionSeed seed s = s\<lparr>dict_hash_function_seed := seed\<rparr>"

definition dictGetHashFunctionSeed :: "dict_statics \<Rightarrow> u32" where
  "dictGetHashFunctionSeed s = dict_hash_function_seed s"

definition dictEnableResize :: "dict_statics \<Rightarrow> dict_statics" where
  "dictEnableResize s = s\<lparr>dict_can_resize := True\<rparr>"

definition dictDisableResize :: "dict_statics \<Rightarrow> dict_statics" where
  "dictDisableResize s = s\<lparr>dict_can_resize := False\<rparr>"

section \<open>Rehashing for an amount of time\<close>

text \<open>A reading of the clock, from the seconds and microseconds of a \<open>timeval\<close>.\<close>

definition timeInMilliseconds :: "int \<times> int \<Rightarrow> int" where
  "timeInMilliseconds tv = fst tv * 1000 + snd tv div 1000"

fun rehash_ms_loop ::
  "('k, 'v, 'p) dict \<Rightarrow> int \<Rightarrow> int \<Rightarrow> nat \<Rightarrow> (int \<times> int) list \<Rightarrow> (('k, 'v, 'p) dict \<times> nat) option" where
  "rehash_ms_loop d ms start rehashes clock = do {
     (d', more) \<leftarrow> dictRehash d 100;
     if \<not> more then Some (d', rehashes)
     else (case clock of
             [] \<Rightarrow> None
           | tv # tvs \<Rightarrow>
               if ms < timeInMilliseconds tv - start then Some (d', rehashes + 100)
               else rehash_ms_loop d' ms start (rehashes + 100) tvs)
   }"

declare rehash_ms_loop.simps [simp del]

definition dictRehashMilliseconds ::
  "('k, 'v, 'p) dict \<Rightarrow> int \<Rightarrow> (int \<times> int) list \<Rightarrow> (('k, 'v, 'p) dict \<times> nat) option" where
  "dictRehashMilliseconds d ms clock =
     (case clock of [] \<Rightarrow> None | tv # tvs \<Rightarrow> rehash_ms_loop d ms (timeInMilliseconds tv) 0 tvs)"

section \<open>A random entry\<close>

definition random_bucket :: "('k, 'v, 'p) dict \<Rightarrow> nat \<Rightarrow> ('k, 'v) dictEntry list option" where
  "random_bucket d r =
     (if dictIsRehashing d
      then (let h = r mod (ht_size (ht0 d) + ht_size (ht1 d)) in
            if ht_size (ht0 d) \<le> h then ht_bucket (ht1 d) (h - ht_size (ht0 d)) else ht_bucket (ht0 d) h)
      else ht_bucket (ht0 d) (r AND ht_sizemask (ht0 d)))"

text \<open>The \<open>do\<close> loops: draw until the bucket is not empty.\<close>

fun random_chain ::
  "('k, 'v, 'p) dict \<Rightarrow> nat list \<Rightarrow> (('k, 'v) dictEntry list \<times> nat list) option" where
  "random_chain d [] = None"
| "random_chain d (r # draws) = do {
     he \<leftarrow> random_bucket d r;
     if he = [] then random_chain d draws else Some (he, draws)
   }"

text \<open>The last loop: \<open>listele\<close> steps along the chain.\<close>

fun chain_walk :: "nat \<Rightarrow> ('k, 'v) dictEntry list \<Rightarrow> ('k, 'v) dictEntry option" where
  "chain_walk 0 (he # _) = Some he"
| "chain_walk (Suc listele) (_ # hes) = chain_walk listele hes"
| "chain_walk _ [] = None"

definition dictGetRandomKey ::
  "('k, 'v, 'p) dict \<Rightarrow> nat list \<Rightarrow> (('k, 'v, 'p) dict \<times> ('k, 'v) dictEntry option \<times> nat list) option" where
  "dictGetRandomKey d draws =
     (if dictSize d = 0 then Some (d, None, draws)
      else do {
        d1 \<leftarrow> rehash_on_use d;
        (orighe, draws1) \<leftarrow> random_chain d1 draws;
        (case draws1 of
           [] \<Rightarrow> None
         | r # draws2 \<Rightarrow> Some (d1, chain_walk (r mod length orighe) orighe, draws2))
      })"

section \<open>Statistics\<close>

definition DICT_STATS_VECTLEN :: nat where
  "DICT_STATS_VECTLEN = 50"

record dict_stats =
  st_slots :: nat
  st_maxchainlen :: nat
  st_totchainlen :: nat
  st_clvector :: "nat list"

definition stats_bucket :: "('k, 'v) dictEntry list \<Rightarrow> dict_stats \<Rightarrow> dict_stats" where
  "stats_bucket he st =
     (let count = (\<lambda>i. (st_clvector st)[i := st_clvector st ! i + 1]) in
      if he = [] then st\<lparr>st_clvector := count 0\<rparr>
      else (let chainlen = length he in
            st\<lparr>st_slots := st_slots st + 1,
               st_maxchainlen := (if st_maxchainlen st < chainlen then chainlen else st_maxchainlen st),
               st_totchainlen := st_totchainlen st + chainlen,
               st_clvector := count (if chainlen < DICT_STATS_VECTLEN then chainlen else DICT_STATS_VECTLEN - 1)\<rparr>))"

definition dictStatsHt :: "('k, 'v) dictht \<Rightarrow> dict_stats" where
  "dictStatsHt ht =
     fold stats_bucket (take (ht_size ht) (ht_table ht))
       \<lparr>st_slots = 0, st_maxchainlen = 0, st_totchainlen = 0, st_clvector = replicate DICT_STATS_VECTLEN 0\<rparr>"

text \<open>The lines of the distribution that are printed: chain length and number of chains.\<close>

definition dictPrintedChains :: "dict_stats \<Rightarrow> (nat \<times> nat) list" where
  "dictPrintedChains st =
     map (\<lambda>i. (i, st_clvector st ! i)) (filter (\<lambda>i. st_clvector st ! i \<noteq> 0) [0..<DICT_STATS_VECTLEN - 1])"

text \<open>The statistics printed for one table; \<open>None\<close> is the message for an empty one.\<close>

definition dictPrintStatsHt :: "('k, 'v) dictht \<Rightarrow> (nat \<times> nat \<times> dict_stats \<times> (nat \<times> nat) list) option" where
  "dictPrintStatsHt ht =
     (if ht_used ht = 0 then None
      else Some (ht_size ht, ht_used ht, dictStatsHt ht, dictPrintedChains (dictStatsHt ht)))"

definition dictPrintStats ::
  "('k, 'v, 'p) dict \<Rightarrow> (nat \<times> nat \<times> dict_stats \<times> (nat \<times> nat) list) option list" where
  "dictPrintStats d =
     dictPrintStatsHt (ht0 d) # (if dictIsRehashing d then [dictPrintStatsHt (ht1 d)] else [])"

section \<open>Dictionaries with C strings\<close>

text \<open>A C string is the bytes before its terminating zero; \<open>c_block\<close> are the bytes in memory.\<close>

typedef cstring = "{s :: u8 list. 0 \<notin> set s}"
  morphisms bytes_of cstring_of by (rule exI [of _ "[]"]) simp

instantiation cstring :: equal
begin

definition equal_cstring :: "cstring \<Rightarrow> cstring \<Rightarrow> bool" where
  "equal_cstring s t \<longleftrightarrow> bytes_of s = bytes_of t"

instance
  by standard (simp add: equal_cstring_def bytes_of_inject)

end

definition c_block :: "cstring \<Rightarrow> u8 list" where
  "c_block s = bytes_of s @ [0]"

text \<open>The string in a block, up to its first zero; \<open>None\<close> when there is none and \<open>strlen\<close> would leave the block.\<close>

definition c_string_at :: "u8 list \<Rightarrow> cstring option" where
  "c_string_at block = (if 0 \<in> set block then Some (cstring_of (takeWhile (\<lambda>c. c \<noteq> 0) block)) else None)"

definition dictStringCopyHTHashFunction :: "u32 \<Rightarrow> cstring \<Rightarrow> u32" where
  "dictStringCopyHTHashFunction seed key = dictGenHashFunction seed (bytes_of key)"

text \<open>\<open>_dictStringDup\<close> with the new block as \<open>malloc\<close> gives it, of any contents.\<close>

definition dictStringDup_block :: "u8 list \<Rightarrow> cstring \<Rightarrow> u8 list option" where
  "dictStringDup_block fresh key =
     (let len = length (bytes_of key) in do {
        copy \<leftarrow> memcpy fresh 0 (c_block key) 0 (int len);
        if len < length copy then Some (copy[len := 0]) else None
      })"

text \<open>With a block of \<open>len + 1\<close> bytes the cases without a result do not arise.\<close>

definition dictStringDup :: "'p \<Rightarrow> cstring \<Rightarrow> cstring" where
  "dictStringDup privdata key =
     (case dictStringDup_block (replicate (length (bytes_of key) + 1) 0) key of
        Some copy \<Rightarrow> (case c_string_at copy of Some s \<Rightarrow> s | None \<Rightarrow> key)
      | None \<Rightarrow> key)"

definition dictStringCopyHTKeyCompare :: "'p \<Rightarrow> cstring \<Rightarrow> cstring \<Rightarrow> bool" where
  "dictStringCopyHTKeyCompare privdata key1 key2 \<longleftrightarrow> bytes_of key1 = bytes_of key2"

definition dictTypeHeapStringCopyKey :: "u32 \<Rightarrow> (cstring, 'v, 'p) dictType" where
  "dictTypeHeapStringCopyKey seed =
     \<lparr>hashFunction = dictStringCopyHTHashFunction seed, keyDup = Some dictStringDup, valDup = None,
      keyCompare = Some dictStringCopyHTKeyCompare, keyDestructor = True, valDestructor = False\<rparr>"

definition dictTypeHeapStrings :: "u32 \<Rightarrow> (cstring, 'v, 'p) dictType" where
  "dictTypeHeapStrings seed =
     \<lparr>hashFunction = dictStringCopyHTHashFunction seed, keyDup = None, valDup = None,
      keyCompare = Some dictStringCopyHTKeyCompare, keyDestructor = True, valDestructor = False\<rparr>"

definition dictTypeHeapStringCopyKeyValue :: "u32 \<Rightarrow> (cstring, cstring, 'p) dictType" where
  "dictTypeHeapStringCopyKeyValue seed =
     \<lparr>hashFunction = dictStringCopyHTHashFunction seed, keyDup = Some dictStringDup, valDup = Some dictStringDup,
      keyCompare = Some dictStringCopyHTKeyCompare, keyDestructor = True, valDestructor = True\<rparr>"

section \<open>String keys\<close>

lemma bytes_of_no_zero: "0 \<notin> set (bytes_of s)"
  using bytes_of [of s] by simp

lemma c_string_at_block [simp]: "c_string_at (c_block s @ rest) = Some s"
proof -
  have "takeWhile (\<lambda>c. c \<noteq> 0) (c_block s @ rest) = bytes_of s"
    using bytes_of_no_zero [of s] by (simp add: c_block_def takeWhile_append2 takeWhile_tail) (metis (mono_tags, lifting) append_Nil2 takeWhile.simps(2) takeWhile_append2)
  then show ?thesis by (simp add: c_string_at_def c_block_def bytes_of_inverse)
qed

text \<open>The copy is the string, whatever the new block held, and the copy stays within its block.\<close>

lemma dictStringDup_block_ok:
  assumes "length fresh = length (bytes_of key) + 1"
  shows "dictStringDup_block fresh key = Some (c_block key)"
proof -
  have "memcpy fresh 0 (c_block key) 0 (int (length (bytes_of key))) =
      Some (bytes_of key @ drop (length (bytes_of key)) fresh)"
    using memcpy_ok [of 0 "length (bytes_of key)" fresh 0 "c_block key"] assms by (simp add: c_block_def)
  moreover obtain x where "drop (length (bytes_of key)) fresh = [x]"
    using assms by (metis Cons_nth_drop_Suc add.commute drop_all le_refl lessI plus_1_eq_Suc)
  ultimately show ?thesis by (simp add: dictStringDup_block_def c_block_def)
qed

lemma dictStringDup_id [simp]: "dictStringDup p key = key"
  using c_string_at_block [of key "[]"] by (simp add: dictStringDup_def dictStringDup_block_ok)


section \<open>Random entries\<close>

lemma random_bucket_ok:
  assumes wf: "dict_wf d" and ne: "dictSize d \<noteq> 0"
  shows "\<exists>b. random_bucket d r = Some b \<and> b \<in> set (ht_table (ht0 d) @ ht_table (ht1 d))"
proof -
  have w: "ht_wf (dictHashKey d) (ht0 d)" "ht_wf (dictHashKey d) (ht1 d)" using wf by (simp_all add: dict_wf_def)
  then have l: "length (ht_table (ht0 d)) = ht_size (ht0 d)" "length (ht_table (ht1 d)) = ht_size (ht1 d)"
    by (simp_all add: ht_wf_def)
  show ?thesis
  proof (cases "dictIsRehashing d")
    case True
    let ?n = "ht_size (ht0 d) + ht_size (ht1 d)"
    have "r mod ?n < ?n" using wf True by (simp add: dict_wf_def)
    then show ?thesis using True l by (auto simp: random_bucket_def ht_bucket_def Let_def)
  next
    case False
    have "0 < ht_size (ht0 d)"
      using ne wf False by (intro Nat.gr0I) (auto simp: dict_wf_def dictSize_def ht_wf_def ht_entries_def)
    from ht_index_less [OF w(1) this, of r] ht_bucket_ok [OF w(1) this, of r] False l
    show ?thesis by (simp add: random_bucket_def)
  qed
qed

lemma in_concat_nth: "e \<in> set (concat xs) \<Longrightarrow> \<exists>i < length xs. e \<in> set (xs ! i)"
  by (metis concat_eq_concat_iff in_set_conv_nth set_concat UN_E)

text \<open>Every bucket is drawn by some number.\<close>

lemma random_bucket_surj:
  assumes wf: "dict_wf d" and e: "e \<in> set (dict_entries d)"
  shows "\<exists>r b. random_bucket d r = Some b \<and> e \<in> set b \<and> r < dictSlots d"
proof -
  have w: "ht_wf (dictHashKey d) (ht0 d)" "ht_wf (dictHashKey d) (ht1 d)" using wf by (simp_all add: dict_wf_def)
  then have l: "length (ht_table (ht0 d)) = ht_size (ht0 d)" "length (ht_table (ht1 d)) = ht_size (ht1 d)"
    by (simp_all add: ht_wf_def)
  have "e \<in> set (concat (ht_table (ht0 d))) \<or> e \<in> set (concat (ht_table (ht1 d)))"
    using e by (simp add: dict_entries_def ht_entries_def)
  then show ?thesis
  proof
    assume "e \<in> set (concat (ht_table (ht0 d)))"
    from in_concat_nth [OF this] obtain i where i: "i < ht_size (ht0 d)" "e \<in> set (ht_table (ht0 d) ! i)"
      using l by auto
    have "random_bucket d i = Some (ht_table (ht0 d) ! i)"
    proof (cases "dictIsRehashing d")
      case False
      have "i AND ht_sizemask (ht0 d) = i"
        using w(1) i(1) by (auto simp: ht_wf_def nat_and_mask)
      with False i l show ?thesis by (simp add: random_bucket_def ht_bucket_def)
    qed (use i l in \<open>simp add: random_bucket_def ht_bucket_def\<close>)
    with i show ?thesis by (intro exI [of _ i]) (simp add: dictSlots_def)
  next
    assume "e \<in> set (concat (ht_table (ht1 d)))"
    from in_concat_nth [OF this] obtain i where i: "i < ht_size (ht1 d)" "e \<in> set (ht_table (ht1 d) ! i)"
      using l by auto
    have "dictIsRehashing d" using i wf by (auto simp: dict_wf_def split: if_splits)
    then have "random_bucket d (ht_size (ht0 d) + i) = Some (ht_table (ht1 d) ! i)"
      using i l by (simp add: random_bucket_def ht_bucket_def)
    with i show ?thesis by (intro exI [of _ "ht_size (ht0 d) + i"]) (simp add: dictSlots_def)
  qed
qed

lemma chain_walk_nth: "n < length b \<Longrightarrow> chain_walk n b = Some (b ! n)"
  by (induction n b rule: chain_walk.induct) auto

lemma random_chain_ok:
  assumes wf: "dict_wf d" and ne: "dictSize d \<noteq> 0"
  shows "random_chain d draws = Some (b, draws') \<Longrightarrow> b \<noteq> [] \<and> set b \<subseteq> set (dict_entries d)"
proof (induction draws)
  case (Cons r draws)
  from random_bucket_ok [OF wf ne, of r] obtain b' where
    "random_bucket d r = Some b'" "b' \<in> set (ht_table (ht0 d) @ ht_table (ht1 d))" by blast
  with Cons show ?case by (auto simp: dict_entries_def ht_entries_def split: if_splits)
qed simp

text \<open>
  \<open>dictGetRandomKey\<close> on a dictionary with entries returns one of them, on every sequence of random numbers, and
  each of them on some sequence of two numbers, the first below the number of buckets; the step of
  rehashing it takes keeps the map. An empty dictionary gives no entry.
\<close>

lemma dictGetRandomKey_spec:
  assumes "dict_wf d"
  shows "if dictSize d = 0 then dictGetRandomKey d draws = Some (d, None, draws)
    else \<exists>d1. dict_wf d1 \<and> dict_map d1 = dict_map d \<and>
      (\<forall>draws d2 r rest. dictGetRandomKey d draws = Some (d2, r, rest) \<longrightarrow>
         d2 = d1 \<and> (\<exists>e \<in> set (dict_entries d1). r = Some e)) \<and>
      (\<forall>e \<in> set (dict_entries d1). \<exists>r1 < dictSlots d1. \<exists>r2. dictGetRandomKey d [r1, r2] = Some (d1, Some e, []))"
proof (cases "dictSize d = 0")
  case True
  then show ?thesis by (simp add: dictGetRandomKey_def)
next
  case False
  obtain d1 where d1: "rehash_on_use d = Some d1" "rehash_keeps d d1"
    using rehash_on_use_ok [OF assms] by blast
  note k = rehash_keepsD [OF d1(2) assms]
  have ne: "dictSize d1 \<noteq> 0" using k(4) False by simp
  have "d2 = d1 \<and> (\<exists>e \<in> set (dict_entries d1). r = Some e)"
    if "dictGetRandomKey d draws = Some (d2, r, rest)" for draws d2 r rest
  proof -
    from that False d1(1) obtain b ds where c: "random_chain d1 draws = Some (b, ds)"
      "(case ds of [] \<Rightarrow> None | r # draws2 \<Rightarrow> Some (d1, chain_walk (r mod length b) b, draws2)) = Some (d2, r, rest)"
      by (auto simp: dictGetRandomKey_def)
    then obtain n ns where b: "random_chain d1 draws = Some (b, n # ns)" "d2 = d1" "r = chain_walk (n mod length b) b"
      by (cases ds) auto
    from random_chain_ok [OF k(1) ne b(1)] have "b \<noteq> []" "set b \<subseteq> set (dict_entries d1)" by simp_all
    then have "n mod length b < length b" "b ! (n mod length b) \<in> set (dict_entries d1)"
      by (auto intro: nth_mem)
    with b show ?thesis by (simp add: chain_walk_nth)
  qed
  moreover have "\<exists>r1 < dictSlots d1. \<exists>r2. dictGetRandomKey d [r1, r2] = Some (d1, Some e, [])"
    if e: "e \<in> set (dict_entries d1)" for e
  proof -
    obtain r b where r: "random_bucket d1 r = Some b" "e \<in> set b" "r < dictSlots d1"
      using random_bucket_surj [OF k(1) e] by blast
    then obtain n where n: "n < length b" "b ! n = e" by (auto simp: in_set_conv_nth)
    have "dictGetRandomKey d [r, n] = Some (d1, Some e, [])"
      using False d1(1) r n by (auto simp: dictGetRandomKey_def chain_walk_nth)
    with r(3) show ?thesis by blast
  qed
  ultimately show ?thesis unfolding if_not_P [OF False] using k(1,3) by (intro exI [of _ d1]) blast
qed

lemma dictGetRandomKey_spec_witness:
  "if dictSize sample_dict = 0 then dictGetRandomKey sample_dict [0] = Some (sample_dict, None, [0])
    else \<exists>d1. dict_wf d1 \<and> dict_map d1 = dict_map sample_dict \<and>
      (\<forall>draws d2 r rest. dictGetRandomKey sample_dict draws = Some (d2, r, rest) \<longrightarrow>
         d2 = d1 \<and> (\<exists>e \<in> set (dict_entries d1). r = Some e)) \<and>
      (\<forall>e \<in> set (dict_entries d1). \<exists>r1 < dictSlots d1. \<exists>r2. dictGetRandomKey sample_dict [r1, r2] = Some (d1, Some e, []))"
  by (rule dictGetRandomKey_spec [OF sample_dict_wf])

section \<open>Rehashing for an amount of time\<close>

text \<open>However long it takes, the map and the invariant stay; without the time limit the rehash is finished.\<close>

lemma rehash_ms_loop_ok:
  assumes "dict_wf d" "rehash_ms_loop d ms start n clock = Some (d', m)"
  shows "rehash_keeps d d' \<and> n \<le> m \<and> 100 dvd m - n \<and>
    (dictIsRehashing d' \<longrightarrow> (\<exists>tv \<in> set clock. ms < timeInMilliseconds tv - start))"
  using assms
proof (induction d ms start n clock rule: rehash_ms_loop.induct)
  case (1 d ms start n clock)
  obtain d1 b where d1: "dictRehash d 100 = Some (d1, b)" "rehash_keeps d d1" "b = dictIsRehashing d1"
    using dictRehash_ok [OF "1.prems"(1)] by blast
  note eq = rehash_ms_loop.simps [of d ms start n clock]
  show ?case
  proof (cases b)
    case False
    with d1 "1.prems"(2) show ?thesis unfolding eq by auto
  next
    case True
    then obtain tv tvs where c: "clock = tv # tvs" using "1.prems"(2) d1(1) unfolding eq by (auto split: list.splits)
    show ?thesis
    proof (cases "ms < timeInMilliseconds tv - start")
      case lt: True
      with d1 "1.prems"(2) c True show ?thesis unfolding eq by auto
    next
      case False
      have wf1: "dict_wf d1" using rehash_keepsD [OF d1(2) "1.prems"(1)] by simp
      have "rehash_ms_loop d1 ms start (n + 100) tvs = Some (d', m)"
        using "1.prems"(2) d1(1) c True False unfolding eq by auto
      from "1.IH" [OF d1(1) refl _ c False wf1 this] True
      have r: "rehash_keeps d1 d'" "n + 100 \<le> m" "100 dvd m - (n + 100)"
        "dictIsRehashing d' \<longrightarrow> (\<exists>tv \<in> set tvs. ms < timeInMilliseconds tv - start)"
        by auto
      have "m - n = m - (n + 100) + 100" using r(2) by simp
      then have "100 dvd m - n" using r(3) by (metis dvd_add dvd_refl)
      with r c rehash_keeps_trans [OF d1(2) r(1)] show ?thesis by auto
    qed
  qed
qed

section \<open>Statistics\<close>

lemma stats_bucket_sums:
  assumes "length (st_clvector st) = DICT_STATS_VECTLEN"
  shows "length (st_clvector (stats_bucket b st)) = DICT_STATS_VECTLEN"
    "st_totchainlen (stats_bucket b st) = st_totchainlen st + length b"
    "sum_list (st_clvector (stats_bucket b st)) = sum_list (st_clvector st) + 1"
    "st_slots (stats_bucket b st) = st_slots st + (if b = [] then 0 else 1)"
    "st_maxchainlen (stats_bucket b st) = max (st_maxchainlen st) (length b)"
proof -
  have s: "sum_list ((st_clvector st)[i := st_clvector st ! i + 1]) = sum_list (st_clvector st) + 1"
    if "i < DICT_STATS_VECTLEN" for i
    using that assms by (subst sum_list_update) (auto simp: elem_le_sum_list)
  show "length (st_clvector (stats_bucket b st)) = DICT_STATS_VECTLEN"
    "st_totchainlen (stats_bucket b st) = st_totchainlen st + length b"
    "st_slots (stats_bucket b st) = st_slots st + (if b = [] then 0 else 1)"
    "st_maxchainlen (stats_bucket b st) = max (st_maxchainlen st) (length b)"
    using assms by (simp_all add: stats_bucket_def Let_def max_def)
  show "sum_list (st_clvector (stats_bucket b st)) = sum_list (st_clvector st) + 1"
    using s [of 0] s [of "length b"] s [of "DICT_STATS_VECTLEN - 1"]
    by (auto simp: stats_bucket_def Let_def DICT_STATS_VECTLEN_def)
qed

lemma stats_fold_sums:
  assumes "length (st_clvector st) = DICT_STATS_VECTLEN"
  shows "st_totchainlen (fold stats_bucket bs st) = st_totchainlen st + length (concat bs) \<and>
    sum_list (st_clvector (fold stats_bucket bs st)) = sum_list (st_clvector st) + length bs \<and>
    st_slots (fold stats_bucket bs st) = st_slots st + length (filter (\<lambda>b. b \<noteq> []) bs) \<and>
    st_maxchainlen (fold stats_bucket bs st) = Max (insert (st_maxchainlen st) (length ` set bs))"
  using assms
proof (induction bs arbitrary: st)
  case (Cons b bs)
  have "Max (insert (max (st_maxchainlen st) (length b)) (length ` set bs)) =
      Max (insert (st_maxchainlen st) (insert (length b) (length ` set bs)))"
    by (cases "bs = []") (simp_all add: max.assoc)
  with Cons.IH [OF stats_bucket_sums(1) [OF Cons.prems, of b]] stats_bucket_sums [OF Cons.prems, of b] show ?case
    by simp
qed simp

text \<open>The counters agree with the table: chains, entries, buckets and the longest chain.\<close>

lemma dictStatsHt_counts:
  assumes "ht_wf H h"
  shows "st_totchainlen (dictStatsHt h) = ht_used h" "sum_list (st_clvector (dictStatsHt h)) = ht_size h"
    "st_slots (dictStatsHt h) = length (filter (\<lambda>b. b \<noteq> []) (ht_table h))"
    "st_maxchainlen (dictStatsHt h) = Max (insert 0 (length ` set (ht_table h)))"
  using assms stats_fold_sums [of "\<lparr>st_slots = 0, st_maxchainlen = 0, st_totchainlen = 0,
      st_clvector = replicate DICT_STATS_VECTLEN 0\<rparr>" "ht_table h"]
  by (simp_all add: dictStatsHt_def ht_wf_def ht_entries_def sum_list_replicate)

text \<open>The last element of the vector counts the chains of 49 and more entries, and is never printed.\<close>

lemma long_chains_not_printed: "n \<ge> 49 \<Longrightarrow> (n, c) \<notin> set (dictPrintedChains st)"
  by (auto simp: dictPrintedChains_def DICT_STATS_VECTLEN_def)

end
