(* ===== verification/Byte_Fifo.thy ===== *)
theory Byte_Fifo
  imports Prelude
begin

text \<open>
  The interface between the ring buffer and the code that streams packets through it: a
  bounded queue of bytes. A provider gives \<open>put\<close> (accept as many of the bytes as fit) and
  \<open>get\<close> (hand out at most \<open>n\<close> bytes), an invariant and the queue it stands for; \<open>None\<close> is
  undefined behaviour of the provider. What a client may conclude about a whole run of
  operations is proved here once, from the laws alone.
\<close>

datatype fifo_op = Put "u8 list" | Get nat

locale byte_fifo =
  fixes inv :: "'s \<Rightarrow> bool"
    and contents :: "'s \<Rightarrow> u8 list"
    and bound :: "'s \<Rightarrow> nat"
    and put :: "'s \<Rightarrow> u8 list \<Rightarrow> ('s \<times> nat) option"
    and get :: "'s \<Rightarrow> nat \<Rightarrow> ('s \<times> u8 list) option"
  assumes within_bound: "inv s \<Longrightarrow> length (contents s) \<le> bound s"
    and put_law: "inv s \<Longrightarrow> \<exists>s' k. put s bs = Some (s', k) \<and> inv s' \<and> bound s' = bound s \<and>
      k = min (length bs) (bound s - length (contents s)) \<and>
      contents s' = contents s @ take k bs"
    and get_law: "inv s \<Longrightarrow> \<exists>s'. get s n = Some (s', take n (contents s)) \<and> inv s' \<and>
      bound s' = bound s \<and> contents s' = drop n (contents s)"
begin

text \<open>A run collects the bytes accepted by the puts and the bytes handed out by the gets.\<close>

fun run :: "'s \<Rightarrow> fifo_op list \<Rightarrow> ('s \<times> u8 list \<times> u8 list) option" where
  "run s [] = Some (s, [], [])"
| "run s (Put bs # ops) = do {
     (s1, k) \<leftarrow> put s bs;
     (s2, acc, out) \<leftarrow> run s1 ops;
     Some (s2, take k bs @ acc, out)
   }"
| "run s (Get n # ops) = do {
     (s1, xs) \<leftarrow> get s n;
     (s2, acc, out) \<leftarrow> run s1 ops;
     Some (s2, acc, xs @ out)
   }"

lemma run_stream:
  assumes "inv s"
  shows "\<exists>s' acc out. run s ops = Some (s', acc, out) \<and> inv s' \<and> bound s' = bound s \<and>
           contents s @ acc = out @ contents s'"
  using assms
proof (induction ops arbitrary: s)
  case Nil
  then show ?case by simp
next
  case (Cons op ops)
  show ?case
  proof (cases op)
    case (Put bs)
    obtain s1 k where s1: "put s bs = Some (s1, k)" "inv s1" "bound s1 = bound s"
      "contents s1 = contents s @ take k bs"
      using put_law [OF Cons.prems] by metis
    with Cons.IH [OF s1(2)] show ?thesis by (auto simp: Put)
  next
    case (Get n)
    obtain s1 where s1: "get s n = Some (s1, take n (contents s))" "inv s1" "bound s1 = bound s"
      "contents s1 = drop n (contents s)"
      using get_law [OF Cons.prems] by metis
    obtain s2 acc out where IH: "run s1 ops = Some (s2, acc, out)" "inv s2" "bound s2 = bound s1"
      "contents s1 @ acc = out @ contents s2"
      using Cons.IH [OF s1(2)] by blast
    have "contents s @ acc = take n (contents s) @ contents s1 @ acc"
      by (simp add: s1(4) flip: append_assoc)
    with s1 IH show ?thesis by (simp add: Get)
  qed
qed

end

end
