(* ===== verification/Ring_Buffer.thy ===== *)
theory Ring_Buffer
  imports Byte_Fifo
begin

text \<open>
  The byte ring buffer of \<^verbatim>\<open>cevent/ce_ringbuffer.c\<close>: the record \<open>ce_rb\<close>, one definition per
  function, and the proof that it is a bounded first-in first-out queue of bytes although
  \<open>ce_rb_read\<close> clears the flag \<open>wrap\<close> only on one of its two paths.

  A \<open>ce_rb_t *\<close> is a \<open>ce_rb option\<close> (\<open>None\<close> is NULL). The pointer that \<open>ce_rb_read\<close> stores
  through its \<open>data\<close> argument is a value of \<open>rb_ptr\<close>: it points into the ring itself when the
  requested bytes do not reach the end of the ring, and into the scratch block \<open>retval\<close>
  otherwise. Cells of \<open>retval\<close> are \<open>None\<close> while uninitialised. Results are \<open>None\<close> when the
  C function would have undefined behaviour. Allocation is taken to succeed, as the code
  does, and \<open>ce_assert\<close> is the empty macro of a release build. Sums such as
  \<open>capacity + tail\<close> are unbounded integers: they are at most twice the capacity, so for capacities up
  to \<open>2 ^ 30\<close> they stay inside \<open>int\<close>, as \<open>index_sums_fit\<close> shows.
\<close>

section \<open>State\<close>

record ce_rb =
  rb_buffer :: "u8 list"
  rb_head :: int
  rb_tail :: int
  rb_wrap :: int
  rb_capacity :: int
  rb_retval_buffer :: "u8 option list option"
  rb_retval_size :: int

datatype rb_ptr = Null_ptr | Buffer_at int | Retval_ptr

text \<open>What \<open>n\<close> bytes read through a pointer are; \<open>None\<close> when the access is out of bounds.\<close>

definition rb_deref :: "ce_rb \<Rightarrow> rb_ptr \<Rightarrow> int \<Rightarrow> u8 option list option" where
  "rb_deref rb p n =
     (case p of
        Null_ptr \<Rightarrow> None
      | Buffer_at i \<Rightarrow>
          (if 0 \<le> i \<and> 0 \<le> n \<and> i + n \<le> int (length (rb_buffer rb))
           then Some (map Some (take (nat n) (drop (nat i) (rb_buffer rb)))) else None)
      | Retval_ptr \<Rightarrow>
          (case rb_retval_buffer rb of
             None \<Rightarrow> None
           | Some b \<Rightarrow> (if 0 \<le> n \<and> n \<le> int (length b) then Some (take (nat n) b) else None)))"

section \<open>Operations\<close>

text \<open>\<open>ce_malloc\<close> of a size that is not positive returns NULL, and \<open>memset\<close> would write there.\<close>

definition ce_rb_new :: "int \<Rightarrow> ce_rb option" where
  "ce_rb_new capacity =
     (if capacity \<le> 0 then None
      else Some \<lparr>rb_buffer = replicate (nat capacity) 0, rb_head = 0, rb_tail = 0, rb_wrap = 0,
                 rb_capacity = capacity, rb_retval_buffer = None, rb_retval_size = 0\<rparr>)"

definition can_read :: "ce_rb \<Rightarrow> int" where
  "can_read rb =
     (if rb_tail rb = rb_head rb then (if rb_wrap rb \<noteq> 0 then rb_capacity rb else 0)
      else if rb_tail rb > rb_head rb then rb_tail rb - rb_head rb
      else rb_capacity rb + rb_tail rb - rb_head rb)"

definition ce_rb_can_read :: "ce_rb option \<Rightarrow> int" where
  "ce_rb_can_read p = (case p of None \<Rightarrow> 0 | Some rb \<Rightarrow> can_read rb)"

definition ce_rb_can_write :: "ce_rb option \<Rightarrow> int option" where
  "ce_rb_can_write p = (case p of None \<Rightarrow> None | Some rb \<Rightarrow> Some (rb_capacity rb - ce_rb_can_read p))"

text \<open>The scratch block grows to the largest request so far; a fresh block is uninitialised.\<close>

definition rb_reserve :: "ce_rb \<Rightarrow> int \<Rightarrow> ce_rb" where
  "rb_reserve rb n =
     (if rb_retval_size rb < n
      then rb\<lparr>rb_retval_size := n, rb_retval_buffer := Some (replicate (nat n) None)\<rparr>
      else rb)"

text \<open>The path of \<open>ce_rb_read\<close> that copies: one or two \<open>memcpy\<close> calls into \<open>retval\<close>.\<close>

definition rb_read_copy :: "ce_rb \<Rightarrow> int \<Rightarrow> ce_rb option" where
  "rb_read_copy rb0 count =
     (let tail_chunk = min count (rb_capacity rb0 - rb_head rb0);
          head_chunk = count - tail_chunk;
          rb = rb_reserve rb0 (tail_chunk + head_chunk);
          cells = map Some (rb_buffer rb);
          head1 = (rb_head rb + tail_chunk) mod rb_capacity rb
      in do {
        r0 \<leftarrow> rb_retval_buffer rb;
        r1 \<leftarrow> memcpy r0 0 cells (rb_head rb) tail_chunk;
        if tail_chunk < count
        then do {
          r2 \<leftarrow> memcpy r1 tail_chunk cells head1 head_chunk;
          Some (rb\<lparr>rb_retval_buffer := Some r2,
                   rb_head := (head1 + head_chunk) mod rb_capacity rb, rb_wrap := 0\<rparr>)
        }
        else Some (rb\<lparr>rb_retval_buffer := Some r1, rb_head := head1, rb_wrap := 0\<rparr>)
      })"

text \<open>
  \<open>ce_rb_read rb data count\<close> returns the new ring, the pointer stored in \<open>*data\<close> (\<open>None\<close> when
  the call returns before storing one) and the C result. \<open>data_ok\<close> is \<open>data != NULL\<close>.
\<close>

definition ce_rb_read ::
  "ce_rb option \<Rightarrow> bool \<Rightarrow> int \<Rightarrow> (ce_rb option \<times> rb_ptr option \<times> int) option" where
  "ce_rb_read p data_ok count0 =
     (case p of
        None \<Rightarrow> Some (p, None, 0)
      | Some rb \<Rightarrow>
          if \<not> data_ok \<or> count0 < 0 then Some (p, None, 0)
          else
            let count = min count0 (ce_rb_can_read p) in
            if count = 0 then Some (p, Some Null_ptr, 0)
            else if rb_capacity rb - rb_head rb > count
            then Some (Some (rb\<lparr>rb_head := (rb_head rb + count) mod rb_capacity rb\<rparr>),
                       Some (Buffer_at (rb_head rb)), count)
            else do {
              rb' \<leftarrow> rb_read_copy rb count;
              Some (Some rb', Some Retval_ptr, count)
            })"

text \<open>The writing path of \<open>ce_rb_write\<close>, for a positive \<open>count\<close> that fits.\<close>

definition rb_write_bytes :: "ce_rb \<Rightarrow> u8 list \<Rightarrow> int \<Rightarrow> ce_rb option" where
  "rb_write_bytes rb data count =
     (let tail_chunk = min count (rb_capacity rb - rb_tail rb);
          tail1 = (rb_tail rb + tail_chunk) mod rb_capacity rb
      in do {
        b1 \<leftarrow> memcpy (rb_buffer rb) (rb_tail rb) data 0 tail_chunk;
        (b2, tail2) \<leftarrow>
          (if tail_chunk < count
           then let head_chunk = count - tail_chunk in do {
             b \<leftarrow> memcpy b1 tail1 data tail_chunk head_chunk;
             Some (b, (tail1 + head_chunk) mod rb_capacity rb)
           }
           else Some (b1, tail1));
        Some (rb\<lparr>rb_buffer := b2, rb_tail := tail2,
                 rb_wrap := (if rb_head rb = tail2 then 1 else rb_wrap rb)\<rparr>)
      })"

definition ce_rb_write ::
  "ce_rb option \<Rightarrow> u8 list option \<Rightarrow> int \<Rightarrow> (ce_rb option \<times> int) option" where
  "ce_rb_write p data count0 =
     (case (p, data) of
        (Some rb, Some bytes) \<Rightarrow>
          if count0 \<le> 0 then Some (p, 0)
          else do {
            room \<leftarrow> ce_rb_can_write p;
            let count = min count0 room in
            if count = 0 then Some (p, 0)
            else do {
              rb' \<leftarrow> rb_write_bytes rb bytes count;
              Some (Some rb', count)
            }
          }
      | _ \<Rightarrow> Some (p, 0))"

text \<open>
  \<open>ce_rb_free\<close> takes the address of a ring pointer: the blocks it frees, in order, and the
  pointer afterwards. An outer \<open>None\<close> is the null address.
\<close>

datatype rb_block = Retval_block | Buffer_block | Struct_block

definition ce_rb_free :: "ce_rb option option \<Rightarrow> rb_block list \<times> ce_rb option option" where
  "ce_rb_free pp =
     (case pp of
        Some (Some rb) \<Rightarrow>
          ((if rb_retval_buffer rb \<noteq> None then [Retval_block] else []) @ [Buffer_block, Struct_block],
           Some None)
      | _ \<Rightarrow> ([], pp))"

section \<open>Invariant and abstraction\<close>

text \<open>
  \<open>wrap\<close> may stay set after a read that did not reach the end of the ring. What holds in every
  state is weaker than "\<open>wrap\<close> is set exactly when the ring is full": while it is set, the
  tail has gone round the end of the ring and the head has not.
\<close>

definition retval_ok :: "u8 option list option \<Rightarrow> int \<Rightarrow> bool" where
  "retval_ok buf sz \<longleftrightarrow>
     (case buf of None \<Rightarrow> sz = 0 | Some b \<Rightarrow> 0 < sz \<and> int (length b) = sz)"

definition rb_inv :: "ce_rb \<Rightarrow> bool" where
  "rb_inv rb \<longleftrightarrow>
     0 < rb_capacity rb \<and> int (length (rb_buffer rb)) = rb_capacity rb \<and>
     0 \<le> rb_head rb \<and> rb_head rb < rb_capacity rb \<and>
     0 \<le> rb_tail rb \<and> rb_tail rb < rb_capacity rb \<and>
     rb_wrap rb \<in> {0, 1} \<and> (rb_wrap rb = 1 \<longrightarrow> rb_tail rb \<le> rb_head rb) \<and>
     retval_ok (rb_retval_buffer rb) (rb_retval_size rb)"

text \<open>The queue of bytes a ring stands for.\<close>

definition rb_contents :: "ce_rb \<Rightarrow> u8 list" where
  "rb_contents rb = ring_slice (rb_buffer rb) (nat (rb_head rb)) (nat (can_read rb))"

lemma can_read_bounds:
  assumes "rb_inv rb"
  shows "0 \<le> can_read rb" "can_read rb \<le> rb_capacity rb"
  using assms by (auto simp: rb_inv_def can_read_def)

lemma length_rb_contents [simp]: "rb_inv rb \<Longrightarrow> int (length (rb_contents rb)) = can_read rb"
  using can_read_bounds(1) [of rb] by (simp add: rb_contents_def)

text \<open>The tail is the head advanced by the number of readable bytes.\<close>

lemma tail_eq_head_plus:
  assumes "rb_inv rb"
  shows "rb_tail rb = (rb_head rb + can_read rb) mod rb_capacity rb"
proof -
  have *: "(rb_capacity rb + x) mod rb_capacity rb = x" if "0 \<le> x" "x < rb_capacity rb" for x
    using that by simp
  show ?thesis
    using assms * [of "rb_tail rb"] * [of "rb_head rb"]
    by (auto simp: rb_inv_def can_read_def algebra_simps)
qed


lemma nat_tail_eq:
  assumes "rb_inv rb"
  shows "nat (rb_tail rb) = (nat (rb_head rb) + nat (can_read rb)) mod length (rb_buffer rb)"
  using tail_eq_head_plus [OF assms] can_read_bounds [OF assms] assms
  by (metis rb_inv_def nat_int nat_mod_distrib nat_add_distrib add_nonneg_nonneg of_nat_0_le_iff)

lemma index_sums_fit:
  assumes "rb_inv rb" "rb_capacity rb \<le> 2 ^ 30" "0 \<le> n" "n \<le> rb_capacity rb"
  shows "rb_capacity rb + rb_tail rb < 2 ^ 31" "rb_head rb + n < 2 ^ 31" "rb_tail rb + n < 2 ^ 31"
  using assms by (auto simp: rb_inv_def)

section \<open>Writing\<close>

text \<open>Whatever the two \<open>memcpy\<close> calls do, the block they leave is the circular store.\<close>

lemma rb_write_bytes_store:
  assumes inv: "rb_inv rb" and n: "0 < n" "int n \<le> rb_capacity rb" "n \<le> length data"
  shows "rb_write_bytes rb data (int n) =
    (let tail' = (rb_tail rb + int n) mod rb_capacity rb
     in Some (rb\<lparr>rb_buffer := ring_store (rb_buffer rb) (nat (rb_tail rb)) (take n data),
               rb_tail := tail', rb_wrap := (if rb_head rb = tail' then 1 else rb_wrap rb)\<rparr>))"
proof -
  obtain t where t: "rb_tail rb = int t" and tc: "t < length (rb_buffer rb)"
    and cap: "rb_capacity rb = int (length (rb_buffer rb))"
    using inv by (metis rb_inv_def nonneg_int_cases of_nat_less_iff)
  have nc: "n \<le> length (rb_buffer rb)" using n(2) cap by simp
  define k where "k = length (rb_buffer rb) - t"
  have k: "rb_capacity rb - rb_tail rb = int k" "t + k = length (rb_buffer rb)"
    using t tc cap by (auto simp: k_def)
  show ?thesis
  proof (cases "n \<le> k")
    case True
    then have "min (int n) (int k) = int n" by simp
    moreover have "memcpy (rb_buffer rb) (int t) data 0 (int n) =
        Some (ring_store (rb_buffer rb) t (take n data))"
      using memcpy_ok [of t n "rb_buffer rb" 0 data] n(3) True k(2) tc
        ring_store_linear [of t "rb_buffer rb" "take n data"] by simp
    ultimately show ?thesis
      using k(1) t by (simp add: rb_write_bytes_def Let_def)
  next
    case False
    let ?b1 = "take t (rb_buffer rb) @ take k data @ drop (t + k) (rb_buffer rb)"
    have m: "min (int n) (int k) = int k" using False by simp
    have c1: "memcpy (rb_buffer rb) (int t) data 0 (int k) = Some ?b1"
      using memcpy_ok [of t k "rb_buffer rb" 0 data] k(2) False n(3) by simp
    have t1: "(int t + int k) mod rb_capacity rb = 0"
      using k(2) cap by (simp flip: of_nat_add)
    have d1: "drop (t + k) (rb_buffer rb) = []" using k(2) by simp
    have c2: "memcpy ?b1 0 data (int k) (int n - int k) =
        Some (ring_store (rb_buffer rb) t (take n data))"
    proof -
      have "memcpy ?b1 (int 0) data (int k) (int (n - k)) =
          Some (take 0 ?b1 @ take (n - k) (drop k data) @ drop (0 + (n - k)) ?b1)"
        using False n(3) nc k(2) by (intro memcpy_ok) auto
      also have "take (n - k) (drop k data) = drop k (take n data)"
        by (simp add: drop_take)
      also have "drop (0 + (n - k)) ?b1 =
          drop (length (take n data) - k) (take t (rb_buffer rb)) @ take k (take n data)"
        using False n(3) nc k(2) by (simp add: d1 min_def)
      finally show ?thesis
        using ring_store_wrapped [of t "rb_buffer rb" "take n data"] False n(3) nc tc
        by (simp add: k_def [symmetric] of_nat_diff)
    qed
    have t2: "(0 + (int n - int k)) mod rb_capacity rb = (rb_tail rb + int n) mod rb_capacity rb"
    proof -
      have "rb_tail rb + int n = (int n - int k) + rb_capacity rb" using k by simp
      then show ?thesis by (simp only: mod_add_self2 add_0)
    qed
    show ?thesis
      unfolding rb_write_bytes_def Let_def k(1) m
      using False c1 c2 t1 t2 t by (simp add: cap)
  qed
qed

lemma rb_write_bytes_correct:
  assumes inv: "rb_inv rb" and n: "0 < n" "int n \<le> rb_capacity rb - can_read rb" "n \<le> length data"
  shows "\<exists>rb'. rb_write_bytes rb data (int n) = Some rb' \<and> rb_inv rb' \<and>
           rb_contents rb' = rb_contents rb @ take n data \<and> rb_capacity rb' = rb_capacity rb"
proof -
  note b = can_read_bounds [OF inv]
  define tail' where "tail' = (rb_tail rb + int n) mod rb_capacity rb"
  define rb' where "rb' = rb\<lparr>rb_buffer := ring_store (rb_buffer rb) (nat (rb_tail rb)) (take n data),
    rb_tail := tail', rb_wrap := (if rb_head rb = tail' then 1 else rb_wrap rb)\<rparr>"
  have w: "rb_write_bytes rb data (int n) = Some rb'"
    using rb_write_bytes_store [OF inv n(1) _ n(3)] n(2) b by (simp add: rb'_def tail'_def Let_def)
  have range: "0 \<le> rb_tail rb" "rb_tail rb < rb_capacity rb" "0 \<le> rb_head rb"
    "rb_head rb < rb_capacity rb"
    using inv by (auto simp: rb_inv_def)
  have tail': "tail' = (if rb_tail rb + int n < rb_capacity rb then rb_tail rb + int n
      else rb_tail rb + int n - rb_capacity rb)"
    using range n b mod_once_int [of "rb_tail rb + int n" "rb_capacity rb"] by (simp add: tail'_def)
  have cr: "can_read rb' = can_read rb + int n"
    using inv n range unfolding rb'_def can_read_def rb_inv_def
    by (auto simp: tail' split: if_splits)
  have inv': "rb_inv rb'"
    using inv n range unfolding rb'_def can_read_def rb_inv_def
    by (auto simp: tail' split: if_splits)
  let ?h = "nat (rb_head rb)" and ?m = "nat (can_read rb)" and ?b = "rb_buffer rb"
  have lenb: "int (length ?b) = rb_capacity rb" using inv by (simp add: rb_inv_def)
  have t: "nat (rb_tail rb) = (?h + ?m) mod length ?b"
    by (rule nat_tail_eq [OF inv])
  have lt: "?h < length ?b" "?m + length (take n data) \<le> length ?b"
    using lenb range n b by auto
  have "rb_contents rb' = ring_slice (ring_store ?b ((?h + ?m) mod length ?b) (take n data)) ?h (?m + n)"
    using cr b by (simp add: rb_contents_def rb'_def nat_add_distrib flip: t)
  also have "\<dots> = ring_slice ?b ?h ?m @ take n data"
  proof -
    let ?s = "ring_store ?b ((?h + ?m) mod length ?b) (take n data)"
    have "ring_slice ?s (?h + ?m) n = ring_slice ?s ((?h + ?m) mod length ?s) n"
      by (rule ring_slice_mod [symmetric])
    also have "\<dots> = take n data"
    proof -
      have "(?h + ?m) mod length ?b < length ?b" using lt(1) by (intro mod_less_divisor) linarith
      then show ?thesis
        using ring_slice_store_same [of "(?h + ?m) mod length ?b" ?b "take n data"] lt(2) n(3)
        by simp
    qed
    finally show ?thesis
      using ring_slice_store_other [OF lt] by (simp add: ring_slice_append)
  qed
  finally have c: "rb_contents rb' = rb_contents rb @ take n data"
    by (simp add: rb_contents_def)
  show ?thesis
    using w inv' c by (auto simp: rb'_def)
qed

section \<open>Reading\<close>

lemma rb_reserve_simps [simp]:
  "rb_buffer (rb_reserve rb n) = rb_buffer rb" "rb_head (rb_reserve rb n) = rb_head rb"
  "rb_tail (rb_reserve rb n) = rb_tail rb" "rb_capacity (rb_reserve rb n) = rb_capacity rb"
  "rb_wrap (rb_reserve rb n) = rb_wrap rb"
  by (simp_all add: rb_reserve_def)

lemma rb_reserve_retval:
  assumes "rb_inv rb" "0 < n"
  shows "\<exists>r. rb_retval_buffer (rb_reserve rb (int n)) = Some r \<and> n \<le> length r \<and>
           int (length r) = rb_retval_size (rb_reserve rb (int n))"
  using assms by (auto simp: rb_reserve_def rb_inv_def retval_ok_def split: option.splits)

text \<open>
  The bytes in the return buffer \<open>r0\<close>: the \<open>k\<close> bytes from \<open>h\<close> to the end of the buffer, then the \<open>j\<close> bytes from its start.
\<close>

lemma two_copies:
  fixes b :: "u8 list" and r0 :: "u8 option list"
  defines "c \<equiv> map Some b"
  assumes k: "h + k = length b" "0 < k" and j: "j \<le> h" and r0: "k + j \<le> length r0"
    and r1: "r1 = take k (drop h c) @ drop k r0" and r2: "r2 = take k r1 @ take j c @ drop (k + j) r1"
  shows "memcpy r0 0 c (int h) (int k) = Some r1" "memcpy r1 (int k) c 0 (int j) = Some r2"
    "take (k + j) r2 = map Some (ring_slice b h (k + j))" "length r2 = length r0" "j = 0 \<Longrightarrow> r2 = r1"
proof -
  have l: "length (take k (drop h c)) = k" "take k (drop h c) = drop h c" "length (take j c) = j"
    using k(1) j by (simp_all add: c_def)
  have lr1: "length r1 = length r0" using l(1) r0 by (simp add: r1)
  have t1: "take k r1 = drop h c" using l by (simp add: r1)
  show "memcpy r0 0 c (int h) (int k) = Some r1"
    using memcpy_ok [of 0 k r0 h c] k r0 by (simp add: r1 c_def)
  show "memcpy r1 (int k) c 0 (int j) = Some r2"
    using memcpy_ok [of k j r1 0 c] k(1) j r0 lr1 by (simp add: r2 c_def)
  have kh: "k = length b - h" and "h < length b" using k by simp_all
  then have "ring_slice b h (k + j) = drop h b @ take j b"
    using ring_slice_wrapped [of h b j] j unfolding kh by simp
  moreover have "take (k + j) r2 = drop h c @ take j c"
    using l unfolding r2 t1 by (simp add: c_def)
  ultimately show "take (k + j) r2 = map Some (ring_slice b h (k + j))"
    by (simp only: map_append c_def take_map drop_map)
  show "length r2 = length r0" using lr1 l(3) r0 by (simp add: r2)
  show "r2 = r1" if "j = 0" using that by (simp add: r2)
qed

lemma rb_read_copy_retval:
  assumes inv: "rb_inv rb" and n: "0 < n" "int n \<le> rb_capacity rb"
    and wraps: "rb_capacity rb - rb_head rb \<le> int n"
  shows "\<exists>r. rb_read_copy rb (int n) = Some ((rb_reserve rb (int n))
               \<lparr>rb_retval_buffer := Some r,
                rb_head := (rb_head rb + int n) mod rb_capacity rb, rb_wrap := 0\<rparr>) \<and>
             n \<le> length r \<and> int (length r) = rb_retval_size (rb_reserve rb (int n)) \<and>
             take n r = map Some (ring_slice (rb_buffer rb) (nat (rb_head rb)) n)"
proof -
  let ?b = "rb_buffer rb"
  obtain h where h: "rb_head rb = int h" and hc: "h < length ?b"
    and cap: "rb_capacity rb = int (length ?b)"
    using inv by (metis rb_inv_def nonneg_int_cases of_nat_less_iff)
  define k where "k = length ?b - h"
  have k: "rb_capacity rb - rb_head rb = int k" "h + k = length ?b" "k \<le> n" "0 < k"
    using h hc cap wraps by (simp_all add: k_def of_nat_diff)
  obtain j where j: "n = k + j" "j \<le> h"
    using k n(2) cap by (metis le_add_diff_inverse le_diff_conv add.commute of_nat_le_iff)
  obtain r0 where r0: "rb_retval_buffer (rb_reserve rb (int n)) = Some r0" "n \<le> length r0"
    "int (length r0) = rb_retval_size (rb_reserve rb (int n))"
    using rb_reserve_retval [OF inv n(1)] by blast
  define r1 where "r1 = take k (drop h (map Some ?b)) @ drop k r0"
  define r2 where "r2 = take k r1 @ take j (map Some ?b) @ drop (k + j) r1"
  have "k + j \<le> length r0" using r0(2) j(1) by simp
  note c = two_copies [OF k(2,4) j(2) this r1_def r2_def]
  have m: "min (int n) (int k) = int k" using k by simp
  have h1: "(int h + int k) mod rb_capacity rb = 0"
    using k(2) cap by (simp flip: of_nat_add)
  have "rb_head rb + int n = int j + rb_capacity rb" using k(1) j(1) by linarith
  then have hn: "(rb_head rb + int n) mod rb_capacity rb = int j mod rb_capacity rb"
    by (simp only: mod_add_self2)
  have "rb_read_copy rb (int n) = Some ((rb_reserve rb (int n))
      \<lparr>rb_retval_buffer := Some r2, rb_head := (rb_head rb + int n) mod rb_capacity rb, rb_wrap := 0\<rparr>)"
  proof (cases "k < n")
    case True
    then show ?thesis
      using k(1) j(1) m c(1,2) h1 r0(1) h unfolding rb_read_copy_def Let_def hn by simp
  next
    case False
    then have "j = 0" using k(3) j(1) by simp
    then show ?thesis
      using k(1) j(1) c(1,5) h1 r0(1) h unfolding rb_read_copy_def Let_def by simp
  qed
  then show ?thesis
    using c(3,4) r0(2,3) h by (intro exI [of _ r2] conjI) (simp_all only: j(1) nat_int)
qed

text \<open>Advancing the head by \<open>n\<close> readable bytes drops \<open>n\<close> bytes of the queue.\<close>

lemma advance_head:
  assumes inv: "rb_inv rb" and n: "0 < n" "int n \<le> can_read rb"
    and rb': "rb_buffer rb' = rb_buffer rb" "rb_capacity rb' = rb_capacity rb"
      "rb_tail rb' = rb_tail rb" "rb_head rb' = (rb_head rb + int n) mod rb_capacity rb"
    and wrap: "rb_wrap rb' = (if rb_head rb + int n < rb_capacity rb then rb_wrap rb else 0)"
  shows "can_read rb' = can_read rb - int n" "rb_contents rb' = drop n (rb_contents rb)"
    "rb_wrap rb' = 1 \<Longrightarrow> rb_tail rb' \<le> rb_head rb'"
proof -
  note b = can_read_bounds [OF inv]
  have head': "rb_head rb' = (if rb_head rb + int n < rb_capacity rb then rb_head rb + int n
      else rb_head rb + int n - rb_capacity rb)"
    using inv n b mod_once_int [of "rb_head rb + int n" "rb_capacity rb"]
    by (simp add: rb_inv_def rb')
  show cr: "can_read rb' = can_read rb - int n"
    using inv n unfolding can_read_def rb_inv_def
    by (auto simp: head' rb' wrap split: if_splits)
  show "rb_tail rb' \<le> rb_head rb'" if "rb_wrap rb' = 1"
    using that inv n unfolding can_read_def rb_inv_def
    by (auto simp: head' rb' wrap split: if_splits)
  have "nat (rb_head rb') = (nat (rb_head rb) + n) mod length (rb_buffer rb)"
  proof -
    have "rb_head rb + int n = int (nat (rb_head rb) + n)"
      "rb_capacity rb = int (length (rb_buffer rb))"
      using inv by (auto simp: rb_inv_def)
    then show ?thesis by (simp only: rb' nat_int flip: zmod_int)
  qed
  then show "rb_contents rb' = drop n (rb_contents rb)"
    using n b by (simp add: rb_contents_def cr rb' ring_slice_drop nat_diff_distrib)
qed

section \<open>The two operations against the queue\<close>

lemma ce_rb_write_correct:
  assumes "rb_inv rb" "0 < n" "n \<le> length bytes"
  shows "\<exists>rb' k. ce_rb_write (Some rb) (Some bytes) (int n) = Some (Some rb', int k) \<and>
           k = min n (nat (rb_capacity rb) - length (rb_contents rb)) \<and> rb_inv rb' \<and>
           rb_contents rb' = rb_contents rb @ take k bytes \<and> rb_capacity rb' = rb_capacity rb"
proof -
  define k where "k = min n (nat (rb_capacity rb) - length (rb_contents rb))"
  have len: "int (length (rb_contents rb)) = can_read rb"
    using assms(1) by simp
  have k: "min (int n) (rb_capacity rb - can_read rb) = int k"
    using can_read_bounds [OF assms(1)] len by (auto simp: k_def min_def)
  show ?thesis
  proof (cases "k = 0")
    case True
    then have "ce_rb_write (Some rb) (Some bytes) (int n) = Some (Some rb, int k)"
      using k assms(2) by (simp add: ce_rb_write_def ce_rb_can_write_def ce_rb_can_read_def Let_def)
    with True assms(1) k_def show ?thesis by (intro exI [of _ rb] exI [of _ k]) simp
  next
    case False
    then have "0 < k" "int k \<le> rb_capacity rb - can_read rb" "k \<le> length bytes"
      using k assms(3) by (auto simp: k_def)
    from rb_write_bytes_correct [OF assms(1) this] obtain rb' where
      "rb_write_bytes rb bytes (int k) = Some rb'" "rb_inv rb'"
      "rb_contents rb' = rb_contents rb @ take k bytes" "rb_capacity rb' = rb_capacity rb"
      by blast
    moreover from this(1) k False assms(2)
    have "ce_rb_write (Some rb) (Some bytes) (int n) = Some (Some rb', int k)"
      by (simp add: ce_rb_write_def ce_rb_can_write_def ce_rb_can_read_def Let_def)
    ultimately show ?thesis using k_def by blast
  qed
qed

text \<open>Reading takes the first bytes of the queue, and the pointer it hands out reads as them.\<close>

text \<open>A read that does not reach the end of the buffer points into it; one that does is copied.\<close>

lemma rb_read_in_place:
  assumes inv: "rb_inv rb" and k: "0 < k" "int k \<le> can_read rb" and room: "int k < rb_capacity rb - rb_head rb"
    and rb': "rb' = rb\<lparr>rb_head := (rb_head rb + int k) mod rb_capacity rb\<rparr>"
  shows "rb_inv rb'" "rb_contents rb' = drop k (rb_contents rb)"
    "rb_deref rb' (Buffer_at (rb_head rb)) (int k) = Some (map Some (take k (rb_contents rb)))"
proof -
  have h: "0 \<le> rb_head rb" "rb_head rb < rb_capacity rb" "int (length (rb_buffer rb)) = rb_capacity rb"
    using inv by (auto simp: rb_inv_def)
  have "rb_head rb + int k < rb_capacity rb" using room by simp
  then show "rb_inv rb'" "rb_contents rb' = drop k (rb_contents rb)"
    using advance_head [OF inv k, of rb'] inv h by (simp_all add: rb' rb_inv_def)
  have "rb_deref rb' (Buffer_at (rb_head rb)) (int k) =
      Some (map Some (take k (drop (nat (rb_head rb)) (rb_buffer rb))))"
    using room h by (simp add: rb_deref_def rb')
  also have "take k (drop (nat (rb_head rb)) (rb_buffer rb)) = take k (rb_contents rb)"
    using room h k by (simp add: rb_contents_def ring_slice_take ring_slice_linear nat_less_iff)
  finally show "rb_deref rb' (Buffer_at (rb_head rb)) (int k) = Some (map Some (take k (rb_contents rb)))" .
qed

lemma rb_read_copied:
  assumes inv: "rb_inv rb" and k: "0 < k" "int k \<le> can_read rb" and wraps: "rb_capacity rb - rb_head rb \<le> int k"
  obtains rb' where "rb_read_copy rb (int k) = Some rb'" "rb_inv rb'" "rb_contents rb' = drop k (rb_contents rb)"
    "rb_capacity rb' = rb_capacity rb" "rb_deref rb' Retval_ptr (int k) = Some (map Some (take k (rb_contents rb)))"
proof -
  have h: "0 \<le> rb_head rb" "rb_head rb < rb_capacity rb" "int (length (rb_buffer rb)) = rb_capacity rb"
    using inv by (auto simp: rb_inv_def)
  have le: "int k \<le> rb_capacity rb" using k can_read_bounds [OF inv] by simp
  obtain r where r: "rb_read_copy rb (int k) = Some ((rb_reserve rb (int k))
        \<lparr>rb_retval_buffer := Some r,
         rb_head := (rb_head rb + int k) mod rb_capacity rb, rb_wrap := 0\<rparr>)"
      "k \<le> length r" "int (length r) = rb_retval_size (rb_reserve rb (int k))"
      "take k r = map Some (ring_slice (rb_buffer rb) (nat (rb_head rb)) k)"
    using rb_read_copy_retval [OF inv k(1) le wraps] by blast
  let ?rb = "(rb_reserve rb (int k))\<lparr>rb_retval_buffer := Some r,
    rb_head := (rb_head rb + int k) mod rb_capacity rb, rb_wrap := 0\<rparr>"
  have "\<not> rb_head rb + int k < rb_capacity rb" using wraps by simp
  then have "rb_inv ?rb" "rb_contents ?rb = drop k (rb_contents rb)"
    using advance_head [OF inv k, of ?rb] inv h r(2,3) k(1) by (simp_all add: rb_inv_def retval_ok_def)
  moreover have "rb_deref ?rb Retval_ptr (int k) = Some (map Some (take k (rb_contents rb)))"
    using r(2,4) k by (simp add: rb_deref_def rb_contents_def ring_slice_take)
  ultimately show thesis using r(1) by (intro that [of ?rb]) simp_all
qed

lemma ce_rb_read_correct:
  assumes inv: "rb_inv rb"
  shows "\<exists>rb' q k. ce_rb_read (Some rb) True (int n) = Some (Some rb', Some q, int k) \<and>
           k = min n (length (rb_contents rb)) \<and> rb_inv rb' \<and>
           rb_contents rb' = drop n (rb_contents rb) \<and> rb_capacity rb' = rb_capacity rb \<and>
           (0 < k \<longrightarrow> rb_deref rb' q (int k) = Some (map Some (take n (rb_contents rb))))"
proof -
  define k where "k = min n (length (rb_contents rb))"
  have len: "int (length (rb_contents rb)) = can_read rb" using inv by simp
  have k: "min (int n) (can_read rb) = int k" using len by (auto simp: k_def)
  have take_k: "take k (rb_contents rb) = take n (rb_contents rb)"
    and drop_k: "drop k (rb_contents rb) = drop n (rb_contents rb)"
    by (auto simp: k_def min_def)
  show ?thesis
  proof (cases "k = 0")
    case True
    then have "ce_rb_read (Some rb) True (int n) = Some (Some rb, Some Null_ptr, int k)"
      using k by (simp add: ce_rb_read_def ce_rb_can_read_def Let_def)
    with True inv k_def drop_k show ?thesis
      by (intro exI [of _ rb] exI [of _ Null_ptr] exI [of _ k]) auto
  next
    case False
    then have kpos: "0 < k" "int k \<le> can_read rb" using k by auto
    show ?thesis
    proof (cases "rb_capacity rb - rb_head rb > int k")
      case True
      define rb' where "rb' = rb\<lparr>rb_head := (rb_head rb + int k) mod rb_capacity rb\<rparr>"
      have "ce_rb_read (Some rb) True (int n) = Some (Some rb', Some (Buffer_at (rb_head rb)), int k)"
        using k kpos True by (simp add: ce_rb_read_def ce_rb_can_read_def Let_def rb'_def)
      with rb_read_in_place [OF inv kpos True rb'_def] show ?thesis
        using k_def take_k drop_k
        by (intro exI [of _ rb'] exI [of _ "Buffer_at (rb_head rb)"] exI [of _ k]) (simp add: rb'_def)
    next
      case False
      obtain rb' where rb': "rb_read_copy rb (int k) = Some rb'" "rb_inv rb'" "rb_contents rb' = drop k (rb_contents rb)"
        "rb_capacity rb' = rb_capacity rb" "rb_deref rb' Retval_ptr (int k) = Some (map Some (take k (rb_contents rb)))"
        using rb_read_copied [OF inv kpos] False by (metis not_less)
      then have "ce_rb_read (Some rb) True (int n) = Some (Some rb', Some Retval_ptr, int k)"
        using k kpos False by (simp add: ce_rb_read_def ce_rb_can_read_def Let_def)
      with rb' show ?thesis
        using k_def take_k drop_k by (intro exI [of _ rb'] exI [of _ Retval_ptr] exI [of _ k]) simp
    qed
  qed
qed

lemma ce_rb_new_correct:
  assumes "0 < n"
  shows "\<exists>rb. ce_rb_new (int n) = Some rb \<and> rb_inv rb \<and> rb_contents rb = [] \<and>
           rb_capacity rb = int n"
  using assms
  by (simp add: ce_rb_new_def rb_inv_def rb_contents_def can_read_def retval_ok_def)

section \<open>The ring buffer as a bounded queue of bytes\<close>

text \<open>
  A client's view of the two calls: \<open>rb_put\<close> offers a whole buffer, and \<open>rb_get\<close> reads the
  bytes through the returned pointer straight away; \<open>None\<close> also covers reading a cell of
  \<open>retval\<close> that no \<open>memcpy\<close> has filled.
\<close>

definition rb_put :: "ce_rb \<Rightarrow> u8 list \<Rightarrow> (ce_rb \<times> nat) option" where
  "rb_put rb bs = do {
     (p, k) \<leftarrow> ce_rb_write (Some rb) (Some bs) (int (length bs));
     rb' \<leftarrow> p;
     Some (rb', nat k)
   }"

definition rb_get :: "ce_rb \<Rightarrow> nat \<Rightarrow> (ce_rb \<times> u8 list) option" where
  "rb_get rb n = do {
     (p, q, k) \<leftarrow> ce_rb_read (Some rb) True (int n);
     rb' \<leftarrow> p;
     if k = 0 then Some (rb', [])
     else do {
       q' \<leftarrow> q;
       cells \<leftarrow> rb_deref rb' q' k;
       xs \<leftarrow> those cells;
       Some (rb', xs)
     }
   }"

lemma those_map_Some [simp]: "those (map Some xs) = Some xs"
  by (induction xs) auto

lemma rb_put_law:
  assumes "rb_inv rb"
  shows "\<exists>rb' k. rb_put rb bs = Some (rb', k) \<and> rb_inv rb' \<and> rb_capacity rb' = rb_capacity rb \<and>
           k = min (length bs) (nat (rb_capacity rb) - length (rb_contents rb)) \<and>
           rb_contents rb' = rb_contents rb @ take k bs"
proof (cases "bs = []")
  case True
  with assms show ?thesis by (simp add: rb_put_def ce_rb_write_def)
next
  case False
  with ce_rb_write_correct [OF assms, of "length bs" bs] show ?thesis
    by (force simp: rb_put_def)
qed

lemma rb_get_law:
  assumes "rb_inv rb"
  shows "\<exists>rb'. rb_get rb n = Some (rb', take n (rb_contents rb)) \<and> rb_inv rb' \<and>
           rb_capacity rb' = rb_capacity rb \<and> rb_contents rb' = drop n (rb_contents rb)"
proof -
  obtain rb' q k where r: "ce_rb_read (Some rb) True (int n) = Some (Some rb', Some q, int k)"
    "k = min n (length (rb_contents rb))" "rb_inv rb'"
    "rb_contents rb' = drop n (rb_contents rb)" "rb_capacity rb' = rb_capacity rb"
    "0 < k \<longrightarrow> rb_deref rb' q (int k) = Some (map Some (take n (rb_contents rb)))"
    using ce_rb_read_correct [OF assms, of n] by metis
  have "rb_get rb n = Some (rb', take n (rb_contents rb))"
  proof (cases "k = 0")
    case True
    then have "take n (rb_contents rb) = []" using r(2) by (auto simp: min_def split: if_splits)
    with True r(1) show ?thesis by (simp add: rb_get_def)
  next
    case False
    with r(1,6) show ?thesis by (simp add: rb_get_def)
  qed
  with r show ?thesis by blast
qed

interpretation ring: byte_fifo rb_inv rb_contents "\<lambda>rb. nat (rb_capacity rb)" rb_put rb_get
proof (unfold_locales, goal_cases)
  case (1 rb)
  then show ?case using can_read_bounds(2) [OF 1] length_rb_contents [OF 1] by linarith
next
  case (2 rb bs)
  then show ?case using rb_put_law [OF 2, of bs] by (metis eq_nat_nat_iff)
next
  case (3 rb n)
  then show ?case using rb_get_law [OF 3, of n] by auto
qed

text \<open>
  A pointer into the ring stays good across a later write, as long as that write puts no more
  bytes than were free before the read: the cells a read gives up are reused last.
\<close>

lemma ce_rb_write_buffer:
  assumes inv: "rb_inv rb" and n: "n \<le> length bs"
    and wr: "ce_rb_write (Some rb) (Some bs) (int n) = Some (Some rb', w)"
  shows "\<exists>j \<le> n. rb_buffer rb' = ring_store (rb_buffer rb) (nat (rb_tail rb)) (take j bs)"
proof (cases "rb' = rb")
  case True
  then show ?thesis by (intro exI [of _ 0]) simp
next
  case False
  define j where "j = nat (min (int n) (rb_capacity rb - can_read rb))"
  have j: "int j = min (int n) (rb_capacity rb - can_read rb)"
    using can_read_bounds [OF inv] by (simp add: j_def)
  have w: "rb_write_bytes rb bs (int j) = Some rb'" and "int j \<noteq> 0"
    using wr False unfolding j
    by (auto simp: ce_rb_write_def ce_rb_can_write_def ce_rb_can_read_def Let_def split: if_splits)
  with j n can_read_bounds [OF inv] rb_write_bytes_store [OF inv, of j bs]
  show ?thesis by (intro exI [of _ j]) (auto simp: Let_def)
qed

lemma read_pointer_stable:
  assumes inv: "rb_inv rb"
    and rd: "ce_rb_read (Some rb) True (int n) = Some (Some rb1, Some (Buffer_at i), k)"
    and wr: "ce_rb_write (Some rb1) (Some bs) (int m) = Some (Some rb2, w)"
    and room: "m \<le> length bs" "int m \<le> rb_capacity rb - can_read rb"
  shows "rb_deref rb2 (Buffer_at i) k = rb_deref rb1 (Buffer_at i) k"
proof -
  let ?b = "rb_buffer rb" and ?h = "nat (rb_head rb)"
  have h: "0 \<le> rb_head rb" "rb_head rb < rb_capacity rb" "int (length ?b) = rb_capacity rb"
    using inv by (auto simp: rb_inv_def)
  have rb1: "rb_buffer rb1 = ?b" "rb_tail rb1 = rb_tail rb" "i = rb_head rb"
    and k: "k < rb_capacity rb - rb_head rb" "0 \<le> k" "k \<le> can_read rb"
    using rd can_read_bounds [OF inv]
    by (auto simp: ce_rb_read_def ce_rb_can_read_def Let_def split: if_splits)
  have "rb_inv rb1" using ce_rb_read_correct [OF inv, of n] rd by auto
  from ce_rb_write_buffer [OF this room(1) wr] obtain j where j: "j \<le> m"
    "rb_buffer rb2 = ring_store ?b (nat (rb_tail rb)) (take j bs)"
    using rb1 by auto
  have t: "nat (rb_tail rb) = (?h + nat (can_read rb)) mod length ?b"
    by (rule nat_tail_eq [OF inv])
  have seg: "take (nat k) (drop ?h xs) = take (nat k) (ring_slice xs ?h (nat (can_read rb)))"
    if "length xs = length ?b" for xs
    using that k h by (simp add: ring_slice_take ring_slice_linear nat_le_eq_zle)
  have "take (nat k) (drop ?h (rb_buffer rb2)) = take (nat k) (drop ?h ?b)"
  proof -
    have lt: "?h < length ?b" "nat (can_read rb) + length (take j bs) \<le> length ?b"
      using h j(1) room k by auto
    show ?thesis
      using ring_slice_store_other [OF lt] by (simp add: seg j(2) t)
  qed
  then show ?thesis
    using rb1 j by (simp add: rb_deref_def)
qed

section \<open>Properties\<close>



text \<open>A ring that has wrapped: capacity 3, two bytes readable across its end.\<close>

definition wrapped_ring :: ce_rb where
  "wrapped_ring = \<lparr>rb_buffer = [7, 8, 9], rb_head = 2, rb_tail = 1, rb_wrap = 0, rb_capacity = 3,
     rb_retval_buffer = None, rb_retval_size = 0\<rparr>"

lemma wrapped_ring_inv: "rb_inv wrapped_ring"
  by (simp add: rb_inv_def wrapped_ring_def retval_ok_def)





text \<open>
  A pointer that \<open>ce_rb_read\<close> hands out into the ring itself survives the next write. If that
  write offers no more bytes than were free before the read, what is read through the pointer
  does not change, although the cells behind it already belong to the free part of the ring.
\<close>

lemma ce_rb_pointer_stable:
  assumes "rb_inv rb"
    and "ce_rb_read (Some rb) True (int n) = Some (Some rb1, Some (Buffer_at i), k)"
    and "ce_rb_write (Some rb1) (Some bs) (int m) = Some (Some rb2, w)"
    and "m \<le> length bs" "int m \<le> rb_capacity rb - can_read rb"
  shows "rb_deref rb2 (Buffer_at i) k = rb_deref rb1 (Buffer_at i) k"
  using assms by (rule read_pointer_stable)

lemma ce_rb_pointer_stable_witness:
  "rb_deref (wrapped_ring\<lparr>rb_buffer := [7, 5, 9], rb_head := 1, rb_tail := 2\<rparr>) (Buffer_at 0) 1 =
   rb_deref (wrapped_ring\<lparr>rb_head := 1, rb_tail := 1\<rparr>) (Buffer_at 0) 1"
  by (rule ce_rb_pointer_stable [of "wrapped_ring\<lparr>rb_head := 0\<rparr>" 1 _ 0 1 "[5]" 1])
    (simp_all add: wrapped_ring_def rb_inv_def retval_ok_def can_read_def ce_rb_read_def
      ce_rb_can_read_def ce_rb_write_def ce_rb_can_write_def rb_write_bytes_def memcpy_def Let_def)

end
