(* ===== verification/Base64.thy ===== *)
theory Base64
  imports Prelude
begin

text \<open>
  The base 64 codec of \<^verbatim>\<open>util/base64.c\<close>, standard and URL alphabets. An \<open>ngx_str_t\<close> with its
  data is the list of its bytes; the destination is the list of the bytes stored through \<open>d\<close>,
  and the caller owes it \<open>ngx_base64_encoded_length\<close> or \<open>ngx_base64_decoded_length\<close> bytes of
  room. \<open>NGX_ERROR\<close> is \<open>None\<close>. What ties the two directions together is one contract on the pair of
  tables (\<open>base64_alphabet\<close>), shown once and interpreted on both pairs.
\<close>

unbundle bit_operations_syntax

section \<open>The code\<close>

definition PAD :: u8 where
  "PAD = 61"

definition ngx_base64_encoded_length :: "nat \<Rightarrow> nat" where
  "ngx_base64_encoded_length len = ((len + 2) div 3) * 4"

definition ngx_base64_decoded_length :: "nat \<Rightarrow> nat" where
  "ngx_base64_decoded_length len = ((len + 3) div 4) * 3"

fun ngx_encode_base64_internal :: "u8 list \<Rightarrow> bool \<Rightarrow> u8 list \<Rightarrow> u8 list" where
  "ngx_encode_base64_internal basis padding (s0 # s1 # s2 # s) =
     [basis ! unat (drop_bit 2 s0 AND 0x3f),
      basis ! unat (push_bit 4 (s0 AND 3) OR drop_bit 4 s1),
      basis ! unat (push_bit 2 (s1 AND 0x0f) OR drop_bit 6 s2),
      basis ! unat (s2 AND 0x3f)] @ ngx_encode_base64_internal basis padding s"
| "ngx_encode_base64_internal basis padding [s0, s1] =
     [basis ! unat (drop_bit 2 s0 AND 0x3f),
      basis ! unat (push_bit 4 (s0 AND 3) OR drop_bit 4 s1),
      basis ! unat (push_bit 2 (s1 AND 0x0f))] @ (if padding then [PAD] else [])"
| "ngx_encode_base64_internal basis padding [s0] =
     [basis ! unat (drop_bit 2 s0 AND 0x3f),
      basis ! unat (push_bit 4 (s0 AND 3))] @
     (if padding then [PAD] else []) @ (if padding then [PAD] else [])"
| "ngx_encode_base64_internal basis padding [] = []"

text \<open>The first loop of the decoder: the length up to the padding, or the error.\<close>

fun decode_scan :: "u8 list \<Rightarrow> u8 list \<Rightarrow> nat \<Rightarrow> nat option" where
  "decode_scan basis [] len = Some len"
| "decode_scan basis (c # data) len =
     (if c = PAD then Some len
      else if basis ! unat c = 77 then None
      else decode_scan basis data (len + 1))"

text \<open>The second loop and the two conditionals on the characters that are left.\<close>

fun decode_loop :: "u8 list \<Rightarrow> u8 list \<Rightarrow> u8 list" where
  "decode_loop basis (s0 # s1 # s2 # s3 # s) =
     [push_bit 2 (basis ! unat s0) OR drop_bit 4 (basis ! unat s1),
      push_bit 4 (basis ! unat s1) OR drop_bit 2 (basis ! unat s2),
      push_bit 6 (basis ! unat s2) OR basis ! unat s3] @ decode_loop basis s"
| "decode_loop basis s =
     (if length s > 1
      then [push_bit 2 (basis ! unat (s ! 0)) OR drop_bit 4 (basis ! unat (s ! 1))] else []) @
     (if length s > 2
      then [push_bit 4 (basis ! unat (s ! 1)) OR drop_bit 2 (basis ! unat (s ! 2))] else [])"

definition ngx_decode_base64_internal :: "u8 list \<Rightarrow> u8 list \<Rightarrow> u8 list option" where
  "ngx_decode_base64_internal basis src = do {
     len \<leftarrow> decode_scan basis src 0;
     if len mod 4 = 1 then None else Some (decode_loop basis (take len src))
   }"

definition basis64_encode :: "u8 list" where
  "basis64_encode =
     map of_char ''ABCDEFGHIJKLMNOPQRSTUVWXYZabcdefghijklmnopqrstuvwxyz0123456789+/''"

definition basis64_encode_url :: "u8 list" where
  "basis64_encode_url =
     map of_char ''ABCDEFGHIJKLMNOPQRSTUVWXYZabcdefghijklmnopqrstuvwxyz0123456789-_''"

definition basis64_decode :: "u8 list" where
  "basis64_decode = [
        77, 77, 77, 77, 77, 77, 77, 77, 77, 77, 77, 77, 77, 77, 77, 77,
        77, 77, 77, 77, 77, 77, 77, 77, 77, 77, 77, 77, 77, 77, 77, 77,
        77, 77, 77, 77, 77, 77, 77, 77, 77, 77, 77, 62, 77, 77, 77, 63,
        52, 53, 54, 55, 56, 57, 58, 59, 60, 61, 77, 77, 77, 77, 77, 77,
        77, 0, 1, 2, 3, 4, 5, 6, 7, 8, 9, 10, 11, 12, 13, 14,
        15, 16, 17, 18, 19, 20, 21, 22, 23, 24, 25, 77, 77, 77, 77, 77,
        77, 26, 27, 28, 29, 30, 31, 32, 33, 34, 35, 36, 37, 38, 39, 40,
        41, 42, 43, 44, 45, 46, 47, 48, 49, 50, 51, 77, 77, 77, 77, 77,

        77, 77, 77, 77, 77, 77, 77, 77, 77, 77, 77, 77, 77, 77, 77, 77,
        77, 77, 77, 77, 77, 77, 77, 77, 77, 77, 77, 77, 77, 77, 77, 77,
        77, 77, 77, 77, 77, 77, 77, 77, 77, 77, 77, 77, 77, 77, 77, 77,
        77, 77, 77, 77, 77, 77, 77, 77, 77, 77, 77, 77, 77, 77, 77, 77,
        77, 77, 77, 77, 77, 77, 77, 77, 77, 77, 77, 77, 77, 77, 77, 77,
        77, 77, 77, 77, 77, 77, 77, 77, 77, 77, 77, 77, 77, 77, 77, 77,
        77, 77, 77, 77, 77, 77, 77, 77, 77, 77, 77, 77, 77, 77, 77, 77,
        77, 77, 77, 77, 77, 77, 77, 77, 77, 77, 77, 77, 77, 77, 77, 77]"

definition basis64_decode_url :: "u8 list" where
  "basis64_decode_url = [
        77, 77, 77, 77, 77, 77, 77, 77, 77, 77, 77, 77, 77, 77, 77, 77,
        77, 77, 77, 77, 77, 77, 77, 77, 77, 77, 77, 77, 77, 77, 77, 77,
        77, 77, 77, 77, 77, 77, 77, 77, 77, 77, 77, 77, 77, 62, 77, 77,
        52, 53, 54, 55, 56, 57, 58, 59, 60, 61, 77, 77, 77, 77, 77, 77,
        77, 0, 1, 2, 3, 4, 5, 6, 7, 8, 9, 10, 11, 12, 13, 14,
        15, 16, 17, 18, 19, 20, 21, 22, 23, 24, 25, 77, 77, 77, 77, 63,
        77, 26, 27, 28, 29, 30, 31, 32, 33, 34, 35, 36, 37, 38, 39, 40,
        41, 42, 43, 44, 45, 46, 47, 48, 49, 50, 51, 77, 77, 77, 77, 77,

        77, 77, 77, 77, 77, 77, 77, 77, 77, 77, 77, 77, 77, 77, 77, 77,
        77, 77, 77, 77, 77, 77, 77, 77, 77, 77, 77, 77, 77, 77, 77, 77,
        77, 77, 77, 77, 77, 77, 77, 77, 77, 77, 77, 77, 77, 77, 77, 77,
        77, 77, 77, 77, 77, 77, 77, 77, 77, 77, 77, 77, 77, 77, 77, 77,
        77, 77, 77, 77, 77, 77, 77, 77, 77, 77, 77, 77, 77, 77, 77, 77,
        77, 77, 77, 77, 77, 77, 77, 77, 77, 77, 77, 77, 77, 77, 77, 77,
        77, 77, 77, 77, 77, 77, 77, 77, 77, 77, 77, 77, 77, 77, 77, 77,
        77, 77, 77, 77, 77, 77, 77, 77, 77, 77, 77, 77, 77, 77, 77, 77]"

definition ngx_encode_base64 :: "u8 list \<Rightarrow> u8 list" where
  "ngx_encode_base64 src = ngx_encode_base64_internal basis64_encode True src"

definition ngx_encode_base64url :: "u8 list \<Rightarrow> u8 list" where
  "ngx_encode_base64url src = ngx_encode_base64_internal basis64_encode_url False src"

definition ngx_decode_base64 :: "u8 list \<Rightarrow> u8 list option" where
  "ngx_decode_base64 src = ngx_decode_base64_internal basis64_decode src"

definition ngx_decode_base64url :: "u8 list \<Rightarrow> u8 list option" where
  "ngx_decode_base64url src = ngx_decode_base64_internal basis64_decode_url src"

section \<open>Six-bit groups\<close>

lemma u8_eqI:
  fixes x y :: u8
  assumes "bit x 0 = bit y 0" "bit x 1 = bit y 1" "bit x 2 = bit y 2" "bit x 3 = bit y 3"
    "bit x 4 = bit y 4" "bit x 5 = bit y 5" "bit x 6 = bit y 6" "bit x 7 = bit y 7"
  shows "x = y"
proof (rule bit_word_eqI)
  fix n assume "n < LENGTH(8)"
  then have "n \<in> {0, 1, 2, 3, 4, 5, 6, 7}" by auto
  then show "bit x n = bit y n" using assms by auto
qed

lemma u8_less_64_iff: "(x :: u8) < 64 \<longleftrightarrow> \<not> bit x 6 \<and> \<not> bit x 7"
proof
  assume "x < 64"
  then have "unat x < 2 ^ 6" by (simp add: word_less_nat_alt)
  then have "\<not> bit (unat x) n" if "n \<ge> 6" for n
    using that by (metis bit_take_bit_iff leD take_bit_nat_eq_self)
  then show "\<not> bit x 6 \<and> \<not> bit x 7" by (simp add: bit_unsigned_iff)
next
  assume "\<not> bit x 6 \<and> \<not> bit x 7"
  then have "x = take_bit 6 x"
    by (intro u8_eqI) (simp_all add: bit_simps)
  then have "unat x = take_bit 6 (unat x)"
    by (metis unsigned_take_bit_eq)
  then have "unat x < 2 ^ 6" by (metis take_bit_nat_less_exp)
  then show "x < 64" by (simp add: word_less_nat_alt)
qed

lemma bit_u8_high: "8 \<le> n \<Longrightarrow> \<not> bit (x :: u8) n"
  by (auto dest: bit_imp_le_length)

text \<open>The groups of the encoder are below 64, and the decoder puts them together again.\<close>

lemma groups_bound:
  fixes s0 s1 s2 :: u8
  shows "drop_bit 2 s0 AND 0x3f < 64"
    and "push_bit 4 (s0 AND 3) OR drop_bit 4 s1 < 64"
    and "push_bit 4 (s0 AND 3) < 64"
    and "push_bit 2 (s1 AND 0x0f) OR drop_bit 6 s2 < 64"
    and "push_bit 2 (s1 AND 0x0f) < 64"
    and "s2 AND 0x3f < 64"
  by (simp_all add: u8_less_64_iff bit_simps bit_u8_high)

lemma groups_join:
  fixes s0 s1 s2 :: u8
  shows "push_bit 2 (drop_bit 2 s0 AND 0x3f) OR drop_bit 4 (push_bit 4 (s0 AND 3) OR drop_bit 4 s1) = s0"
    and "push_bit 2 (drop_bit 2 s0 AND 0x3f) OR drop_bit 4 (push_bit 4 (s0 AND 3)) = s0"
    and "push_bit 4 (push_bit 4 (s0 AND 3) OR drop_bit 4 s1) OR
         drop_bit 2 (push_bit 2 (s1 AND 0x0f) OR drop_bit 6 s2) = s1"
    and "push_bit 4 (push_bit 4 (s0 AND 3) OR drop_bit 4 s1) OR
         drop_bit 2 (push_bit 2 (s1 AND 0x0f)) = s1"
    and "push_bit 6 (push_bit 2 (s1 AND 0x0f) OR drop_bit 6 s2) OR (s2 AND 0x3f) = s2"
  by (rule u8_eqI; simp add: bit_simps)+

section \<open>What both tables together promise\<close>

text \<open>The text the decoder looks at: all up to the first padding character.\<close>

abbreviation unpadded :: "u8 list \<Rightarrow> u8 list" where
  "unpadded \<equiv> takeWhile (\<lambda>c. c \<noteq> PAD)"

lemma decode_scan_eq:
  "decode_scan tab data n =
     (if \<exists>c\<in>set (unpadded data). tab ! unat c = 77 then None else Some (n + length (unpadded data)))"
  by (induction data arbitrary: n) auto

lemma decode_internal_eq:
  "ngx_decode_base64_internal tab src =
     (if (\<exists>c\<in>set (unpadded src). tab ! unat c = 77) \<or> length (unpadded src) mod 4 = 1
      then None else Some (decode_loop tab (unpadded src)))"
  by (simp add: ngx_decode_base64_internal_def decode_scan_eq takeWhile_eq_take [symmetric])

lemma length_decode_loop: "length (decode_loop tab s) = length s * 3 div 4"
  by (induction tab s rule: decode_loop.induct) simp_all

lemma decoded_length_bound:
  assumes "ngx_decode_base64_internal tab src = Some out"
  shows "length out \<le> ngx_base64_decoded_length (length src)"
proof -
  have "length (unpadded src) \<le> length src" by (rule length_takeWhile_le)
  with assms show ?thesis
    by (auto simp: decode_internal_eq length_decode_loop ngx_base64_decoded_length_def split: if_splits)
qed

lemma length_encode:
  "length (ngx_encode_base64_internal basis padding s) =
     (if padding then ngx_base64_encoded_length (length s) else (4 * length s + 2) div 3)"
proof (induction basis padding s rule: ngx_encode_base64_internal.induct)
  case (1 basis padding s0 s1 s2 s)
  have "(5 + n) div 3 = Suc ((2 + n) div 3)" "(14 + 4 * n) div 3 = 4 + (2 + 4 * n) div 3" for n :: nat
    by presburger+
  with 1 show ?case by (simp add: ngx_base64_encoded_length_def)
qed (simp_all add: ngx_base64_encoded_length_def)

text \<open>Induction in steps of three bytes.\<close>

lemma triples_induct [case_names Nil one two more]:
  fixes P :: "u8 list \<Rightarrow> bool"
  assumes "P []" "\<And>s0. P [s0]" "\<And>s0 s1. P [s0, s1]"
    and "\<And>s0 s1 s2 s. P s \<Longrightarrow> P (s0 # s1 # s2 # s)"
  shows "P s"
  using ngx_encode_base64_internal.induct [of "\<lambda>_ _ s. P s"] assms by blast

text \<open>The facts on groups also in the simplifier's normal form.\<close>

lemmas groups = groups_bound groups_join groups_bound [simplified] groups_join [simplified]

locale base64_alphabet =
  fixes basis table :: "u8 list"
  assumes table_basis: "(k :: u8) < 64 \<Longrightarrow> table ! unat (basis ! unat k) = k"
    and basis_not_pad: "(k :: u8) < 64 \<Longrightarrow> basis ! unat k \<noteq> PAD"
begin

lemma basis_valid: "(k :: u8) < 64 \<Longrightarrow> table ! unat (basis ! unat k) \<noteq> 77"
  by (auto simp: table_basis)

lemmas alphabet = groups table_basis basis_not_pad basis_valid

lemma encode_unpadded:
  "unpadded (ngx_encode_base64_internal basis padding s) = ngx_encode_base64_internal basis False s"
  by (induction s rule: triples_induct) (simp_all add: alphabet)

lemma encode_valid:
  "c \<in> set (ngx_encode_base64_internal basis False s) \<Longrightarrow> table ! unat c \<noteq> 77"
  by (induction s rule: triples_induct)
    (auto simp: groups basis_not_pad basis_valid)

lemma decode_loop_encode: "decode_loop table (ngx_encode_base64_internal basis False s) = s"
  by (induction s rule: triples_induct) (simp_all add: alphabet)

lemma roundtrip:
  "ngx_decode_base64_internal table (ngx_encode_base64_internal basis padding s) = Some s"
proof -
  have "(4 * n + 2) div 3 mod 4 \<noteq> (1 :: nat)" for n
    by presburger
  then show ?thesis
    by (auto simp: decode_internal_eq encode_unpadded decode_loop_encode length_encode encode_valid
        dest: encode_valid)
qed

lemma encode_inj: "inj (ngx_encode_base64_internal basis padding)"
  by (metis injI option.inject roundtrip)

end

text \<open>Both pairs of tables are checked row by row.\<close>

lemma alphabet_from_rows:
  assumes "map (\<lambda>c. tab ! unat c) basis = map word_of_nat [0..<64]" "PAD \<notin> set basis"
  shows "base64_alphabet basis tab"
proof
  fix k :: u8 assume "k < 64"
  then have k: "unat k < 64" by (simp add: word_less_nat_alt)
  have len: "length basis = 64" using arg_cong [OF assms(1), of length] by simp
  have "map (\<lambda>c. tab ! unat c) basis ! unat k = map word_of_nat [0..<64] ! unat k"
    by (simp only: assms(1))
  with k len show "tab ! unat (basis ! unat k) = k" by simp
  show "basis ! unat k \<noteq> PAD" using assms(2) k len by (metis nth_mem)
qed

lemma upt_64: "map word_of_nat [0..<64] = ([0, 1, 2, 3, 4, 5, 6, 7, 8, 9, 10, 11, 12, 13, 14, 15, 16, 17, 18, 19, 20, 21, 22, 23, 24, 25, 26, 27, 28, 29, 30, 31, 32, 33, 34, 35, 36, 37, 38, 39, 40, 41, 42, 43, 44, 45, 46, 47, 48, 49, 50, 51, 52, 53, 54, 55, 56, 57, 58, 59, 60, 61, 62, 63] :: u8 list)"
  by (simp add: upt_rec)

lemma basis64_rows:
  "map (\<lambda>c. basis64_decode ! unat c) basis64_encode = map word_of_nat [0..<64]"
  unfolding upt_64 by (simp add: basis64_encode_def basis64_decode_def)

lemma basis64_url_rows:
  "map (\<lambda>c. basis64_decode_url ! unat c) basis64_encode_url = map word_of_nat [0..<64]"
  unfolding upt_64 by (simp add: basis64_encode_url_def basis64_decode_url_def)

interpretation std: base64_alphabet basis64_encode basis64_decode
  by (rule alphabet_from_rows [OF basis64_rows]) (simp add: basis64_encode_def PAD_def)

interpretation url: base64_alphabet basis64_encode_url basis64_decode_url
  by (rule alphabet_from_rows [OF basis64_url_rows]) (simp add: basis64_encode_url_def PAD_def)

section \<open>Properties\<close>

text \<open>
  C33: decoding an encoded text gives the text back, for every sequence of bytes, in the standard alphabet
  with padding and in the URL alphabet without.
\<close>

theorem base64_roundtrip:
  "ngx_decode_base64 (ngx_encode_base64 s) = Some s \<and>
   ngx_decode_base64url (ngx_encode_base64url s) = Some s"
  by (simp add: ngx_decode_base64_def ngx_encode_base64_def ngx_decode_base64url_def
      ngx_encode_base64url_def std.roundtrip url.roundtrip)

text \<open>
  The encoder stores exactly the bytes that \<open>ngx_base64_encoded_length\<close> announces when it pads, and
  never more: \<open>(4 n + 2) div 3\<close> without padding.
\<close>

lemma base64_encoded_length:
  "length (ngx_encode_base64 s) = ngx_base64_encoded_length (length s) \<and>
   length (ngx_encode_base64url s) = (4 * length s + 2) div 3 \<and>
   length (ngx_encode_base64url s) \<le> ngx_base64_encoded_length (length s)"
proof -
  have "(4 * n + 2) div 3 \<le> ((n + 2) div 3) * 4" for n :: nat by presburger
  then show ?thesis
    by (simp add: ngx_encode_base64_def ngx_encode_base64url_def length_encode
        ngx_base64_encoded_length_def)
qed

text \<open>
  The decoder rejects an input exactly when the text before the first padding character has a
  character outside the alphabet or a length of 1 modulo 4; otherwise it ignores what follows the
  padding and stores three bytes for four characters, rounded down, never more than
  \<open>ngx_base64_decoded_length\<close> announces.
\<close>

lemma base64_decode_result:
  "case ngx_decode_base64 src of
     None \<Rightarrow> (\<exists>c \<in> set (takeWhile (\<lambda>c. c \<noteq> PAD) src). basis64_decode ! unat c = 77) \<or>
             length (takeWhile (\<lambda>c. c \<noteq> PAD) src) mod 4 = 1
   | Some out \<Rightarrow> basis64_decode ! unat PAD = 77 \<and>
       (\<nexists>c. c \<in> set (takeWhile (\<lambda>c. c \<noteq> PAD) src) \<and> basis64_decode ! unat c = 77) \<and>
       length (takeWhile (\<lambda>c. c \<noteq> PAD) src) mod 4 \<noteq> 1 \<and>
       length out = length (takeWhile (\<lambda>c. c \<noteq> PAD) src) * 3 div 4 \<and>
       length out \<le> ngx_base64_decoded_length (length src) \<and>
       ngx_decode_base64 (takeWhile (\<lambda>c. c \<noteq> PAD) src) = Some out"
proof (cases "ngx_decode_base64 src")
  case None
  then show ?thesis by (auto simp: ngx_decode_base64_def decode_internal_eq split: if_splits)
next
  case (Some out)
  have "basis64_decode ! unat PAD = 77" by (simp add: PAD_def basis64_decode_def)
  moreover have "length out \<le> ngx_base64_decoded_length (length src)"
    using Some decoded_length_bound by (simp add: ngx_decode_base64_def)
  ultimately show ?thesis
    using Some
    by (auto simp: ngx_decode_base64_def decode_internal_eq length_decode_loop split: if_splits)
qed

end
