(* ===== verification/Crc64.thy ===== *)
theory Crc64
  imports Prelude
begin

text \<open>
  The table-driven CRC-64 of \<^verbatim>\<open>util/crc64.c\<close>, and the polynomial division it stands for: one step of
  the reflected shift register per bit. The lemmas show that the table computes the
  register, that the register is linear and one-to-one, and with it that every change confined to
  eight consecutive bytes changes the checksum.
\<close>

unbundle bit_operations_syntax

section \<open>The code\<close>

definition crc64_tab :: "u64 list" where
  "crc64_tab = [
    0x0000000000000000, 0x7ad870c830358979, 0xf5b0e190606b12f2, 0x8f689158505e9b8b,
    0xc038e5739841b68f, 0xbae095bba8743ff6, 0x358804e3f82aa47d, 0x4f50742bc81f2d04,
    0xab28ecb46814fe75, 0xd1f09c7c5821770c, 0x5e980d24087fec87, 0x24407dec384a65fe,
    0x6b1009c7f05548fa, 0x11c8790fc060c183, 0x9ea0e857903e5a08, 0xe478989fa00bd371,
    0x7d08ff3b88be6f81, 0x07d08ff3b88be6f8, 0x88b81eabe8d57d73, 0xf2606e63d8e0f40a,
    0xbd301a4810ffd90e, 0xc7e86a8020ca5077, 0x4880fbd87094cbfc, 0x32588b1040a14285,
    0xd620138fe0aa91f4, 0xacf86347d09f188d, 0x2390f21f80c18306, 0x594882d7b0f40a7f,
    0x1618f6fc78eb277b, 0x6cc0863448deae02, 0xe3a8176c18803589, 0x997067a428b5bcf0,
    0xfa11fe77117cdf02, 0x80c98ebf2149567b, 0x0fa11fe77117cdf0, 0x75796f2f41224489,
    0x3a291b04893d698d, 0x40f16bccb908e0f4, 0xcf99fa94e9567b7f, 0xb5418a5cd963f206,
    0x513912c379682177, 0x2be1620b495da80e, 0xa489f35319033385, 0xde51839b2936bafc,
    0x9101f7b0e12997f8, 0xebd98778d11c1e81, 0x64b116208142850a, 0x1e6966e8b1770c73,
    0x8719014c99c2b083, 0xfdc17184a9f739fa, 0x72a9e0dcf9a9a271, 0x08719014c99c2b08,
    0x4721e43f0183060c, 0x3df994f731b68f75, 0xb29105af61e814fe, 0xc849756751dd9d87,
    0x2c31edf8f1d64ef6, 0x56e99d30c1e3c78f, 0xd9810c6891bd5c04, 0xa3597ca0a188d57d,
    0xec09088b6997f879, 0x96d1784359a27100, 0x19b9e91b09fcea8b, 0x636199d339c963f2,
    0xdf7adabd7a6e2d6f, 0xa5a2aa754a5ba416, 0x2aca3b2d1a053f9d, 0x50124be52a30b6e4,
    0x1f423fcee22f9be0, 0x659a4f06d21a1299, 0xeaf2de5e82448912, 0x902aae96b271006b,
    0x74523609127ad31a, 0x0e8a46c1224f5a63, 0x81e2d7997211c1e8, 0xfb3aa75142244891,
    0xb46ad37a8a3b6595, 0xceb2a3b2ba0eecec, 0x41da32eaea507767, 0x3b024222da65fe1e,
    0xa2722586f2d042ee, 0xd8aa554ec2e5cb97, 0x57c2c41692bb501c, 0x2d1ab4dea28ed965,
    0x624ac0f56a91f461, 0x1892b03d5aa47d18, 0x97fa21650afae693, 0xed2251ad3acf6fea,
    0x095ac9329ac4bc9b, 0x7382b9faaaf135e2, 0xfcea28a2faafae69, 0x8632586aca9a2710,
    0xc9622c4102850a14, 0xb3ba5c8932b0836d, 0x3cd2cdd162ee18e6, 0x460abd1952db919f,
    0x256b24ca6b12f26d, 0x5fb354025b277b14, 0xd0dbc55a0b79e09f, 0xaa03b5923b4c69e6,
    0xe553c1b9f35344e2, 0x9f8bb171c366cd9b, 0x10e3202993385610, 0x6a3b50e1a30ddf69,
    0x8e43c87e03060c18, 0xf49bb8b633338561, 0x7bf329ee636d1eea, 0x012b592653589793,
    0x4e7b2d0d9b47ba97, 0x34a35dc5ab7233ee, 0xbbcbcc9dfb2ca865, 0xc113bc55cb19211c,
    0x5863dbf1e3ac9dec, 0x22bbab39d3991495, 0xadd33a6183c78f1e, 0xd70b4aa9b3f20667,
    0x985b3e827bed2b63, 0xe2834e4a4bd8a21a, 0x6debdf121b863991, 0x1733afda2bb3b0e8,
    0xf34b37458bb86399, 0x8993478dbb8deae0, 0x06fbd6d5ebd3716b, 0x7c23a61ddbe6f812,
    0x3373d23613f9d516, 0x49aba2fe23cc5c6f, 0xc6c333a67392c7e4, 0xbc1b436e43a74e9d,
    0x95ac9329ac4bc9b5, 0xef74e3e19c7e40cc, 0x601c72b9cc20db47, 0x1ac40271fc15523e,
    0x5594765a340a7f3a, 0x2f4c0692043ff643, 0xa02497ca54616dc8, 0xdafce7026454e4b1,
    0x3e847f9dc45f37c0, 0x445c0f55f46abeb9, 0xcb349e0da4342532, 0xb1eceec59401ac4b,
    0xfebc9aee5c1e814f, 0x8464ea266c2b0836, 0x0b0c7b7e3c7593bd, 0x71d40bb60c401ac4,
    0xe8a46c1224f5a634, 0x927c1cda14c02f4d, 0x1d148d82449eb4c6, 0x67ccfd4a74ab3dbf,
    0x289c8961bcb410bb, 0x5244f9a98c8199c2, 0xdd2c68f1dcdf0249, 0xa7f41839ecea8b30,
    0x438c80a64ce15841, 0x3954f06e7cd4d138, 0xb63c61362c8a4ab3, 0xcce411fe1cbfc3ca,
    0x83b465d5d4a0eece, 0xf96c151de49567b7, 0x76048445b4cbfc3c, 0x0cdcf48d84fe7545,
    0x6fbd6d5ebd3716b7, 0x15651d968d029fce, 0x9a0d8ccedd5c0445, 0xe0d5fc06ed698d3c,
    0xaf85882d2576a038, 0xd55df8e515432941, 0x5a3569bd451db2ca, 0x20ed197575283bb3,
    0xc49581ead523e8c2, 0xbe4df122e51661bb, 0x3125607ab548fa30, 0x4bfd10b2857d7349,
    0x04ad64994d625e4d, 0x7e7514517d57d734, 0xf11d85092d094cbf, 0x8bc5f5c11d3cc5c6,
    0x12b5926535897936, 0x686de2ad05bcf04f, 0xe70573f555e26bc4, 0x9ddd033d65d7e2bd,
    0xd28d7716adc8cfb9, 0xa85507de9dfd46c0, 0x273d9686cda3dd4b, 0x5de5e64efd965432,
    0xb99d7ed15d9d8743, 0xc3450e196da80e3a, 0x4c2d9f413df695b1, 0x36f5ef890dc31cc8,
    0x79a59ba2c5dc31cc, 0x037deb6af5e9b8b5, 0x8c157a32a5b7233e, 0xf6cd0afa9582aa47,
    0x4ad64994d625e4da, 0x300e395ce6106da3, 0xbf66a804b64ef628, 0xc5bed8cc867b7f51,
    0x8aeeace74e645255, 0xf036dc2f7e51db2c, 0x7f5e4d772e0f40a7, 0x05863dbf1e3ac9de,
    0xe1fea520be311aaf, 0x9b26d5e88e0493d6, 0x144e44b0de5a085d, 0x6e963478ee6f8124,
    0x21c640532670ac20, 0x5b1e309b16452559, 0xd476a1c3461bbed2, 0xaeaed10b762e37ab,
    0x37deb6af5e9b8b5b, 0x4d06c6676eae0222, 0xc26e573f3ef099a9, 0xb8b627f70ec510d0,
    0xf7e653dcc6da3dd4, 0x8d3e2314f6efb4ad, 0x0256b24ca6b12f26, 0x788ec2849684a65f,
    0x9cf65a1b368f752e, 0xe62e2ad306bafc57, 0x6946bb8b56e467dc, 0x139ecb4366d1eea5,
    0x5ccebf68aecec3a1, 0x2616cfa09efb4ad8, 0xa97e5ef8cea5d153, 0xd3a62e30fe90582a,
    0xb0c7b7e3c7593bd8, 0xca1fc72bf76cb2a1, 0x45775673a732292a, 0x3faf26bb9707a053,
    0x70ff52905f188d57, 0x0a2722586f2d042e, 0x854fb3003f739fa5, 0xff97c3c80f4616dc,
    0x1bef5b57af4dc5ad, 0x61372b9f9f784cd4, 0xee5fbac7cf26d75f, 0x9487ca0fff135e26,
    0xdbd7be24370c7322, 0xa10fceec0739fa5b, 0x2e675fb4576761d0, 0x54bf2f7c6752e8a9,
    0xcdcf48d84fe75459, 0xb71738107fd2dd20, 0x387fa9482f8c46ab, 0x42a7d9801fb9cfd2,
    0x0df7adabd7a6e2d6, 0x772fdd63e7936baf, 0xf8474c3bb7cdf024, 0x829f3cf387f8795d,
    0x66e7a46c27f3aa2c, 0x1c3fd4a417c62355, 0x935745fc4798b8de, 0xe98f353477ad31a7,
    0xa6df411fbfb21ca3, 0xdc0731d78f8795da, 0x536fa08fdfd90e51, 0x29b7d047efec8728]"

text \<open>The body of the loop, and the loop over the \<open>l\<close> bytes at \<open>s\<close>.\<close>

definition crc64_byte :: "u64 \<Rightarrow> u8 \<Rightarrow> u64" where
  "crc64_byte crc byte = crc64_tab ! unat (ucast crc XOR byte :: u8) XOR drop_bit 8 crc"

definition crc64 :: "u64 \<Rightarrow> u8 list \<Rightarrow> u64" where
  "crc64 crc s = foldl crc64_byte crc s"

lemma crc64_append: "crc64 crc (s @ t) = crc64 (crc64 crc s) t"
  by (simp add: crc64_def)

lemma crc64_simps [simp]: "crc64 crc [] = crc" "crc64 crc (b # s) = crc64 (crc64_byte crc b) s"
  by (simp_all add: crc64_def)

section \<open>The shift register\<close>

text \<open>The Jones polynomial \<open>0xad93d23594c935a9\<close> of the header comment, bit-reversed.\<close>

definition jones_poly :: u64 where
  "jones_poly = 0x95ac9329ac4bc9b5"

definition crc_bit :: "u64 \<Rightarrow> u64" where
  "crc_bit c = (if bit c 0 then drop_bit 1 c XOR jones_poly else drop_bit 1 c)"

definition crc_bits :: "nat \<Rightarrow> u64 \<Rightarrow> u64" where
  "crc_bits n = crc_bit ^^ n"

lemma crc_bits_add: "crc_bits (m + n) c = crc_bits m (crc_bits n c)"
  by (simp add: crc_bits_def funpow_add)

lemma crc_bits_Suc: "crc_bits (Suc n) c = crc_bits n (crc_bit c)"
  by (simp add: crc_bits_def funpow_Suc_right del: funpow.simps)

lemma crc_bits_0 [simp]: "crc_bits 0 c = c"
  by (simp add: crc_bits_def)

lemma crc_bit_xor: "crc_bit (a XOR b) = crc_bit a XOR crc_bit b"
  by (rule bit_word_eqI) (auto simp: crc_bit_def bit_simps)

lemma crc_bits_xor: "crc_bits n (a XOR b) = crc_bits n a XOR crc_bits n b"
  by (induction n arbitrary: a b) (simp_all add: crc_bits_Suc crc_bit_xor)

text \<open>The register shifts one bit out and feeds the top bit back in, so it loses nothing.\<close>

lemma crc_bit_eq_0: "crc_bit c = 0 \<Longrightarrow> c = 0"
proof -
  assume 0: "crc_bit c = 0"
  have top: "\<not> bit (drop_bit 1 c) 63" "bit jones_poly 63"
    by (auto simp: bit_simps jones_poly_def dest: bit_imp_le_length)
  have b0: "\<not> bit c 0"
  proof
    assume "bit c 0"
    with 0 have "drop_bit 1 c XOR jones_poly = 0" by (simp add: crc_bit_def)
    then have "\<not> bit (drop_bit 1 c XOR jones_poly) 63" by simp
    with top show False by (simp only: bit_xor_iff) simp
  qed
  with 0 have d: "drop_bit 1 c = 0" by (simp add: crc_bit_def)
  have "\<not> bit c n" for n
  proof (cases n)
    case (Suc m)
    have "\<not> bit (drop_bit 1 c) m" unfolding d by simp
    with Suc show ?thesis by (simp add: bit_simps)
  qed (simp add: b0)
  then show "c = 0" by (simp add: bit_word_eqI)
qed

lemma crc_bits_eq_0: "crc_bits n c = 0 \<Longrightarrow> c = 0"
  by (induction n arbitrary: c) (auto simp: crc_bits_Suc dest: crc_bit_eq_0)

lemma crc_bits_inj:
  assumes "crc_bits n a = crc_bits n b"
  shows "a = b"
proof -
  have "a XOR b = 0" using crc_bits_eq_0 [of n "a XOR b"] assms by (simp add: crc_bits_xor)
  moreover have "a = (a XOR b) XOR b" by (simp add: xor.assoc)
  ultimately show ?thesis by simp
qed

lemma crc_bit_shift: "\<not> bit c 0 \<Longrightarrow> crc_bit c = drop_bit 1 c"
  by (simp add: crc_bit_def)

lemma crc_bits_shift:
  "(\<And>i. i < n \<Longrightarrow> \<not> bit c i) \<Longrightarrow> crc_bits n c = drop_bit n c"
proof (induction n arbitrary: c)
  case (Suc n)
  have "crc_bit c = drop_bit 1 c" using Suc.prems by (intro crc_bit_shift) simp
  moreover have "crc_bits n (drop_bit 1 c) = drop_bit n (drop_bit 1 c)"
    using Suc.prems by (intro Suc.IH) (simp add: bit_simps)
  ultimately show ?case by (simp add: crc_bits_Suc)
qed simp

section \<open>The table\<close>

text \<open>
  The register is linear, so the first \<open>2 ^ k\<close> rows of the table are combinations of \<open>k\<close> rows.
\<close>

fun lin_tab :: "nat \<Rightarrow> u64 list" where
  "lin_tab 0 = [0]"
| "lin_tab (Suc k) = lin_tab k @ map (\<lambda>t. t XOR crc_bits 8 (2 ^ k)) (lin_tab k)"

lemma length_lin_tab [simp]: "length (lin_tab k) = 2 ^ k"
  by (induction k) simp_all

lemma word_of_nat_split:
  assumes "2 ^ k \<le> i" "i < 2 ^ Suc k"
  shows "(word_of_nat i :: u64) = word_of_nat (i - 2 ^ k) XOR 2 ^ k"
proof -
  have "i - 2 ^ k < 2 ^ k" using assms by simp
  then have "\<not> bit (i - 2 ^ k) k"
    by (metis bit_take_bit_iff less_irrefl take_bit_nat_eq_self)
  then have "(i - 2 ^ k) XOR 2 ^ k = (i - 2 ^ k) + 2 ^ k"
    by (metis (no_types) Groups.add_ac(2) disjunctive_xor_eq_or disjunctive_add_eq_or and_exp_eq_0_iff_not_bit)
  then have i: "(i - 2 ^ k) XOR 2 ^ k = i" using assms(1) by simp
  have "(word_of_nat ((i - 2 ^ k) XOR 2 ^ k) :: u64) = word_of_nat (i - 2 ^ k) XOR word_of_nat (2 ^ k)"
    by (rule of_nat_xor_eq)
  with i show ?thesis by simp
qed

lemma lin_tab_nth: "i < 2 ^ k \<Longrightarrow> lin_tab k ! i = crc_bits 8 (word_of_nat i)"
proof (induction k arbitrary: i)
  case (Suc k)
  show ?case
  proof (cases "i < 2 ^ k")
    case False
    with Suc.prems have "i - 2 ^ k < 2 ^ k" by simp
    with False have "lin_tab (Suc k) ! i = lin_tab k ! (i - 2 ^ k) XOR crc_bits 8 (2 ^ k)"
      by (simp add: nth_append)
    also have "\<dots> = crc_bits 8 (word_of_nat (i - 2 ^ k)) XOR crc_bits 8 (2 ^ k)"
      by (simp only: Suc.IH [OF \<open>i - 2 ^ k < 2 ^ k\<close>])
    also have "\<dots> = crc_bits 8 (word_of_nat i)"
      using word_of_nat_split [of k i] False Suc.prems by (simp only: crc_bits_xor not_less)
    finally show ?thesis .
  qed (simp add: nth_append Suc.IH)
qed (use crc_bits_xor [of 8 0 0] in simp)

lemma crc_bits_8: "crc_bits 8 c = crc_bit (crc_bit (crc_bit (crc_bit (crc_bit (crc_bit (crc_bit (crc_bit c)))))))"
  by (simp add: crc_bits_def eval_nat_numeral)

lemma crc_unit_rows:
  "crc_bits 8 1 = 0x7ad870c830358979"
  "crc_bits 8 2 = 0xf5b0e190606b12f2"
  "crc_bits 8 4 = 0xc038e5739841b68f"
  "crc_bits 8 8 = 0xab28ecb46814fe75"
  "crc_bits 8 16 = 0x7d08ff3b88be6f81"
  "crc_bits 8 32 = 0xfa11fe77117cdf02"
  "crc_bits 8 64 = 0xdf7adabd7a6e2d6f"
  "crc_bits 8 128 = 0x95ac9329ac4bc9b5"
  unfolding crc_bits_8 by (simp_all add: crc_bit_def jones_poly_def)

lemma lin_tab_1: "lin_tab 1 = take 2 crc64_tab"
  by (simp add: crc64_tab_def crc_unit_rows)

lemma lin_tab_2: "lin_tab 2 = take 4 crc64_tab"
  by (simp add: crc64_tab_def crc_unit_rows lin_tab_1 numeral_2_eq_2)

lemma lin_tab_3: "lin_tab 3 = take 8 crc64_tab"
  using lin_tab.simps(2) [of 2] by (simp add: crc64_tab_def crc_unit_rows lin_tab_2)

lemma lin_tab_4: "lin_tab 4 = take 16 crc64_tab"
  using lin_tab.simps(2) [of 3] by (simp add: crc64_tab_def crc_unit_rows lin_tab_3)

lemma lin_tab_5: "lin_tab 5 = take 32 crc64_tab"
  using lin_tab.simps(2) [of 4] by (simp add: crc64_tab_def crc_unit_rows lin_tab_4)

lemma lin_tab_6: "lin_tab 6 = take 64 crc64_tab"
  using lin_tab.simps(2) [of 5] by (simp add: crc64_tab_def crc_unit_rows lin_tab_5)

lemma lin_tab_7: "lin_tab 7 = take 128 crc64_tab"
  using lin_tab.simps(2) [of 6] by (simp add: crc64_tab_def crc_unit_rows lin_tab_6)

lemma crc64_tab_lin: "crc64_tab = lin_tab 8"
  using lin_tab.simps(2) [of 7] by (simp add: crc64_tab_def crc_unit_rows lin_tab_7)

lemma crc64_tab_nth: "crc64_tab ! unat (b :: u8) = crc_bits 8 (ucast b)"
proof -
  have "unat b < 2 ^ 8" using unsigned_less [of b] by simp
  then show ?thesis by (simp add: crc64_tab_lin lin_tab_nth unsigned_ucast_eq)
qed

section \<open>A table step is eight register steps\<close>

lemma crc64_byte_bits: "crc64_byte c b = crc_bits 8 (c XOR ucast b)"
proof -
  let ?low = "ucast (ucast c XOR b :: u8) :: u64" and ?high = "push_bit 8 (drop_bit 8 c)"
  have "c XOR ucast b = ?low XOR ?high"
    by (rule bit_word_eqI) (auto simp: bit_simps)
  moreover have "crc_bits 8 ?high = drop_bit 8 ?high"
    by (rule crc_bits_shift) (simp add: bit_simps)
  moreover have "drop_bit 8 ?high = drop_bit 8 c"
    by (rule bit_word_eqI) (auto simp: bit_simps dest: bit_imp_le_length)
  ultimately show ?thesis
    by (simp add: crc64_byte_def crc64_tab_nth crc_bits_xor)
qed

lemma crc64_register: "crc64 crc s = foldl (\<lambda>c b. crc_bits 8 (c XOR ucast b)) crc s"
  by (induction s arbitrary: crc) (simp_all add: crc64_byte_bits)

lemma crc64_inj: "crc64 c s = crc64 c' s \<Longrightarrow> c = c'"
proof (induction s arbitrary: c c')
  case (Cons b s)
  then have "crc_bits 8 (c XOR ucast b) = crc_bits 8 (c' XOR ucast b)"
    by (simp add: crc64_byte_bits)
  then have "c XOR ucast b = c' XOR ucast b" by (rule crc_bits_inj)
  then have "(c XOR ucast b) XOR ucast b = (c' XOR ucast b) XOR ucast b" by simp
  then show ?case by (simp add: xor.assoc)
qed simp

section \<open>Up to eight bytes at once\<close>

fun le_word :: "u8 list \<Rightarrow> u64" where
  "le_word [] = 0"
| "le_word (b # s) = ucast b XOR push_bit 8 (le_word s)"

lemma bit_le_word:
  "n < 64 \<Longrightarrow> bit (le_word s) n \<longleftrightarrow> n div 8 < length s \<and> bit (s ! (n div 8)) (n mod 8)"
proof (induction s arbitrary: n)
  case (Cons b s)
  show ?case
  proof (cases "n < 8")
    case False
    then have "n div 8 = Suc ((n - 8) div 8)" "(n - 8) mod 8 = n mod 8"
      by (simp_all add: le_div_geq le_mod_geq)
    moreover have "\<not> bit b n" using False by (auto dest: bit_imp_le_length)
    ultimately show ?thesis using False Cons by (simp add: bit_simps)
  qed (use Cons.prems in \<open>simp add: bit_simps\<close>)
qed simp

lemma le_word_inj:
  assumes "length s = length t" "length s \<le> 8" "le_word s = le_word t"
  shows "s = t"
proof (rule nth_equalityI)
  fix i assume i: "i < length s"
  show "s ! i = t ! i"
  proof (rule bit_word_eqI)
    fix n assume "n < LENGTH(8)"
    then have n: "n < 8" by simp
    have "8 * i + n < 64" using i n assms(2) by simp
    moreover have "(8 * i + n) div 8 = i" "(8 * i + n) mod 8 = n" using n by auto
    ultimately show "bit (s ! i) n = bit (t ! i) n"
      using bit_le_word [of "8 * i + n" s] bit_le_word [of "8 * i + n" t] assms i by simp
  qed
qed (fact assms(1))

lemma crc64_le_word: "length s \<le> 8 \<Longrightarrow> crc64 c s = crc_bits (8 * length s) (c XOR le_word s)"
proof (induction s arbitrary: c)
  case (Cons b s)
  let ?w = "le_word s"
  have high: "\<not> bit ?w n" if "56 \<le> n" "n < 64" for n
  proof -
    have "n div 8 = 7" using that by simp
    with bit_le_word [of n s] Cons.prems that show ?thesis by simp
  qed
  have "crc_bits 8 (push_bit 8 ?w) = drop_bit 8 (push_bit 8 ?w)"
    by (rule crc_bits_shift) (simp add: bit_simps)
  also have "\<dots> = ?w"
  proof (rule bit_word_eqI)
    fix n assume "n < LENGTH(64)"
    with high [of n] show "bit (drop_bit 8 (push_bit 8 ?w)) n = bit ?w n"
      by (cases "n < 56") (simp_all add: bit_simps)
  qed
  finally have w: "crc_bits 8 (push_bit 8 ?w) = ?w" .
  have "crc64 c (b # s) = crc_bits (8 * length s) (crc_bits 8 (c XOR ucast b) XOR ?w)"
    using Cons by (simp add: crc64_byte_bits)
  also have "crc_bits 8 (c XOR ucast b) XOR ?w = crc_bits 8 (c XOR le_word (b # s))"
    by (simp add: w crc_bits_xor xor.assoc)
  finally show ?case by (simp add: crc_bits_add [symmetric] add.commute)
qed simp

section \<open>Properties\<close>

text \<open>
  C35: \<open>crc64\<close>, which looks a table up per byte, is the bitwise division by the reflected Jones
  polynomial: for every start value and every message, each byte is added to the register and
  shifted out by eight single-bit steps.
\<close>

theorem crc64_is_bitwise_division:
  "crc64 crc s = foldl (\<lambda>c b. (crc_bit ^^ 8) (c XOR ucast b)) crc s"
  by (simp add: crc64_register crc_bits_def)

text \<open>
  Every error confined to at most eight consecutive bytes is detected: two messages that
  agree but for such a stretch have different checksums, whatever the start value.
\<close>

lemma crc64_detects_bursts:
  assumes "length x = length y" "length x \<le> 8" "x \<noteq> y"
  shows "crc64 crc (p @ x @ q) \<noteq> crc64 crc (p @ y @ q)"
proof
  let ?c = "crc64 crc p"
  assume "crc64 crc (p @ x @ q) = crc64 crc (p @ y @ q)"
  then have "crc64 ?c x = crc64 ?c y" by (simp add: crc64_append crc64_inj)
  then have "?c XOR le_word x = ?c XOR le_word y"
    using assms by (auto simp: crc64_le_word dest: crc_bits_inj)
  then have "?c XOR (?c XOR le_word x) = ?c XOR (?c XOR le_word y)" by simp
  then have "le_word x = le_word y" by (simp flip: xor.assoc)
  with assms show False using le_word_inj by blast
qed

lemma crc64_detects_bursts_witness:
  "crc64 0 ([1] @ [2, 3] @ [4]) \<noteq> crc64 0 ([1] @ [2, 7] @ [4])"
  by (rule crc64_detects_bursts) simp_all

text \<open>
  The check value of the header comment, \<open>0xe9c6d914c4b8d9ca\<close> for the message
  \<open>123456789\<close>, is what \<open>crc64\<close> gives from the start value 0, and from no other: the
  \<open>Xor_In\<close> of all ones that the same comment names does not give it.
\<close>

lemma crc64_check_value:
  "crc64 crc (map of_char ''123456789'') = 0xe9c6d914c4b8d9ca \<longleftrightarrow> crc = 0"
proof -
  have "crc64 0 (map of_char ''123456789'') = 0xe9c6d914c4b8d9ca"
    by (simp add: crc64_byte_def crc64_tab_def)
  then show ?thesis using crc64_inj by metis
qed

end
