(* ===== verification/Sha1.thy ===== *)
theory Sha1
  imports Hash_Functions
begin

text \<open>
  SHA-1 as in \<^verbatim>\<open>util/sha1.c\<close>, for the little-endian build, with \<open>SHA1HANDSOFF\<close>: the block is copied. The
  words of \<open>count\<close> and all lengths and indices of \<open>SHA1Update\<close> keep their 32 bits. Results are \<open>None\<close> when
  an access leaves the buffer or the data, and for the loop of \<open>SHA1Update\<close> also when it does not end.
\<close>

section \<open>The block transform\<close>

definition rol :: "u32 \<Rightarrow> nat \<Rightarrow> u32" where
  "rol v bits = push_bit bits v OR drop_bit (32 - bits) v"

text \<open>\<open>blk0\<close> and \<open>blk\<close> rewrite the block and give the word they wrote.\<close>

definition blk0 :: "u32 list \<Rightarrow> nat \<Rightarrow> u32 list" where
  "blk0 block i =
     block[i := (rol (block ! i) 24 AND 0xFF00FF00) OR (rol (block ! i) 8 AND 0x00FF00FF)]"

definition blk :: "u32 list \<Rightarrow> nat \<Rightarrow> u32 list" where
  "blk block i =
     block[i mod 16 := rol (block ! ((i + 13) mod 16) XOR block ! ((i + 8) mod 16) XOR
                            block ! ((i + 2) mod 16) XOR block ! (i mod 16)) 1]"

text \<open>
  The round macros with their arguments \<open>v, w, x, y, z\<close>. A round writes \<open>z\<close> and \<open>w\<close>, and the next call in the
  unrolled sequence has its arguments one place further: \<open>(z, v, w, x, y)\<close>.
\<close>

type_synonym sha1_vars = "u32 \<times> u32 \<times> u32 \<times> u32 \<times> u32"

definition sha1_round ::
  "(u32 \<Rightarrow> u32 \<Rightarrow> u32 \<Rightarrow> u32) \<Rightarrow> u32 \<Rightarrow> u32 list \<Rightarrow> nat \<Rightarrow> sha1_vars \<Rightarrow> sha1_vars" where
  "sha1_round f k block i = (\<lambda>(v, w, x, y, z).
     (z + (f w x y + block ! (i mod 16) + k + rol v 5), v, rol w 30, x, y))"

definition R0 :: "nat \<Rightarrow> u32 list \<times> sha1_vars \<Rightarrow> u32 list \<times> sha1_vars" where
  "R0 i = (\<lambda>(block, vs). let block' = blk0 block i in
     (block', sha1_round (\<lambda>w x y. (w AND (x XOR y)) XOR y) 0x5A827999 block' i vs))"

definition R1 :: "nat \<Rightarrow> u32 list \<times> sha1_vars \<Rightarrow> u32 list \<times> sha1_vars" where
  "R1 i = (\<lambda>(block, vs). let block' = blk block i in
     (block', sha1_round (\<lambda>w x y. (w AND (x XOR y)) XOR y) 0x5A827999 block' i vs))"

definition R2 :: "nat \<Rightarrow> u32 list \<times> sha1_vars \<Rightarrow> u32 list \<times> sha1_vars" where
  "R2 i = (\<lambda>(block, vs). let block' = blk block i in
     (block', sha1_round (\<lambda>w x y. w XOR x XOR y) 0x6ED9EBA1 block' i vs))"

definition R3 :: "nat \<Rightarrow> u32 list \<times> sha1_vars \<Rightarrow> u32 list \<times> sha1_vars" where
  "R3 i = (\<lambda>(block, vs). let block' = blk block i in
     (block', sha1_round (\<lambda>w x y. ((w OR x) AND y) OR (w AND x)) 0x8F1BBCDC block' i vs))"

definition R4 :: "nat \<Rightarrow> u32 list \<times> sha1_vars \<Rightarrow> u32 list \<times> sha1_vars" where
  "R4 i = (\<lambda>(block, vs). let block' = blk block i in
     (block', sha1_round (\<lambda>w x y. w XOR x XOR y) 0xCA62C1D6 block' i vs))"

text \<open>Which macro the unrolled sequence of \<open>SHA1Transform\<close> calls with index \<open>i\<close>.\<close>

definition sha1_step :: "nat \<Rightarrow> u32 list \<times> sha1_vars \<Rightarrow> u32 list \<times> sha1_vars" where
  "sha1_step i =
     (if i < 16 then R0 i else if i < 20 then R1 i else if i < 40 then R2 i
      else if i < 60 then R3 i else R4 i)"

text \<open>The bytes of a block, as the words of the union.\<close>

fun le_words :: "u8 list \<Rightarrow> u32 list" where
  "le_words (b0 # b1 # b2 # b3 # bs) = load_le32 b0 b1 b2 b3 # le_words bs"
| "le_words _ = []"

definition SHA1Transform :: "u32 list \<Rightarrow> u8 list \<Rightarrow> u32 list" where
  "SHA1Transform state buffer =
     (case fold sha1_step [0..<80]
             (le_words buffer, state ! 0, state ! 1, state ! 2, state ! 3, state ! 4) of
        (_, a, b, c, d, e) \<Rightarrow>
          [state ! 0 + a, state ! 1 + b, state ! 2 + c, state ! 3 + d, state ! 4 + e])"

section \<open>The context\<close>

record SHA1_CTX =
  cx_state :: "u32 list"
  cx_count0 :: u32
  cx_count1 :: u32
  cx_buffer :: "u8 list"

text \<open>\<open>SHA1Init\<close> leaves the buffer as it is.\<close>

definition SHA1Init :: "SHA1_CTX \<Rightarrow> SHA1_CTX" where
  "SHA1Init context =
     context\<lparr>cx_state := [0x67452301, 0xEFCDAB89, 0x98BADCFE, 0x10325476, 0xC3D2E1F0],
             cx_count0 := 0, cx_count1 := 0\<rparr>"

text \<open>The 64 bytes at index \<open>i\<close> of the data, as \<open>SHA1Transform\<close> reads them.\<close>

definition block_at :: "u8 list \<Rightarrow> u32 \<Rightarrow> u8 list option" where
  "block_at data i =
     (if unat i + 64 \<le> length data then Some (take 64 (drop (unat i) data)) else None)"

partial_function (option) update_blocks :: "u32 list \<Rightarrow> u8 list \<Rightarrow> u32 \<Rightarrow> u32 \<Rightarrow> (u32 list \<times> u32) option" where
  "update_blocks state data len i =
     (if i + 63 < len
      then do { b \<leftarrow> block_at data i; update_blocks (SHA1Transform state b) data len (i + 64) }
      else Some (state, i))"

definition SHA1Update :: "SHA1_CTX \<Rightarrow> u8 list \<Rightarrow> u32 \<Rightarrow> SHA1_CTX option" where
  "SHA1Update context data len =
     (let count0 = cx_count0 context + push_bit 3 len;
          count1 = (if count0 < cx_count0 context then cx_count1 context + 1 else cx_count1 context)
                   + drop_bit 29 len;
          j = drop_bit 3 (cx_count0 context) AND 63;
          cx = context\<lparr>cx_count0 := count0, cx_count1 := count1\<rparr>
      in do {
        (st, buf, j', i) \<leftarrow>
          (if 63 < j + len
           then do {
             b \<leftarrow> memcpy (cx_buffer cx) (int (unat j)) data 0 (int (unat (64 - j)));
             (st, i) \<leftarrow> update_blocks (SHA1Transform (cx_state cx) b) data len (64 - j);
             Some (st, b, 0, i)
           }
           else Some (cx_state cx, cx_buffer cx, j, 0));
        buf' \<leftarrow> memcpy buf (int (unat j')) data (int (unat i)) (int (unat (len - i)));
        Some (cx\<lparr>cx_state := st, cx_buffer := buf'\<rparr>)
      })"

definition be_byte :: "u32 \<Rightarrow> nat \<Rightarrow> u8" where
  "be_byte x i = ucast (drop_bit ((3 - i mod 4) * 8) x AND 255)"

definition finalcount :: "SHA1_CTX \<Rightarrow> u8 list" where
  "finalcount context =
     map (\<lambda>i. be_byte (if 4 \<le> i then cx_count0 context else cx_count1 context) i) [0..<8]"

partial_function (option) pad_loop :: "SHA1_CTX \<Rightarrow> SHA1_CTX option" where
  "pad_loop context =
     (if cx_count0 context AND 504 \<noteq> 448
      then do { cx \<leftarrow> SHA1Update context [0] 1; pad_loop cx }
      else Some context)"

text \<open>The digest, and the context that is wiped.\<close>

definition SHA1Final :: "SHA1_CTX \<Rightarrow> (u8 list \<times> SHA1_CTX) option" where
  "SHA1Final context = do {
     cx1 \<leftarrow> SHA1Update context [0x80] 1;
     cx2 \<leftarrow> pad_loop cx1;
     cx3 \<leftarrow> SHA1Update cx2 (finalcount context) 8;
     Some (map (\<lambda>i. be_byte (cx_state cx3 ! (i div 4)) i) [0..<20],
           \<lparr>cx_state = replicate 5 0, cx_count0 = 0, cx_count1 = 0, cx_buffer = replicate 64 0\<rparr>)
   }"

section \<open>The standard\<close>

text \<open>FIPS 180: the message schedule, the round function, the padding.\<close>

definition load_be32 :: "u8 \<Rightarrow> u8 \<Rightarrow> u8 \<Rightarrow> u8 \<Rightarrow> u32" where
  "load_be32 b0 b1 b2 b3 =
     push_bit 24 (ucast b0) OR push_bit 16 (ucast b1) OR push_bit 8 (ucast b2) OR ucast b3"

fun be_words :: "u8 list \<Rightarrow> u32 list" where
  "be_words (b0 # b1 # b2 # b3 # bs) = load_be32 b0 b1 b2 b3 # be_words bs"
| "be_words _ = []"

fun schedule :: "u32 list \<Rightarrow> nat \<Rightarrow> u32" where
  "schedule M t =
     (if t < 16 then M ! t
      else rol (schedule M (t - 3) XOR schedule M (t - 8) XOR schedule M (t - 14) XOR schedule M (t - 16)) 1)"

definition fips_f :: "nat \<Rightarrow> u32 \<Rightarrow> u32 \<Rightarrow> u32 \<Rightarrow> u32" where
  "fips_f t b c d =
     (if t < 20 then (b AND c) OR (NOT b AND d)
      else if t < 40 then b XOR c XOR d
      else if t < 60 then (b AND c) OR (b AND d) OR (c AND d)
      else b XOR c XOR d)"

definition fips_K :: "nat \<Rightarrow> u32" where
  "fips_K t = (if t < 20 then 0x5A827999 else if t < 40 then 0x6ED9EBA1 else if t < 60 then 0x8F1BBCDC else 0xCA62C1D6)"

definition fips_round :: "u32 list \<Rightarrow> nat \<Rightarrow> sha1_vars \<Rightarrow> sha1_vars" where
  "fips_round M t = (\<lambda>(a, b, c, d, e).
     (rol a 5 + fips_f t b c d + e + fips_K t + schedule M t, a, rol b 30, c, d))"

definition fips_compress :: "u32 list \<Rightarrow> u8 list \<Rightarrow> u32 list" where
  "fips_compress H block =
     (case fold (fips_round (be_words block)) [0..<80] (H ! 0, H ! 1, H ! 2, H ! 3, H ! 4) of
        (a, b, c, d, e) \<Rightarrow> [H ! 0 + a, H ! 1 + b, H ! 2 + c, H ! 3 + d, H ! 4 + e])"

section \<open>The transform is the standard's\<close>

declare schedule.simps [simp del]

lemma not_bit_byte: "8 \<le> n \<Longrightarrow> \<not> bit (b :: u8) n"
  using bit_imp_le_length [of b n] by auto

lemma swap_bytes:
  "(rol (load_le32 b0 b1 b2 b3) 24 AND 0xFF00FF00) OR (rol (load_le32 b0 b1 b2 b3) 8 AND 0x00FF00FF) =
     load_be32 b0 b1 b2 b3"
proof -
  have m: "(0xFF00FF00 :: u32) = push_bit 8 (mask 8) OR push_bit 24 (mask 8)"
    "(0x00FF00FF :: u32) = mask 8 OR push_bit 16 (mask 8)"
    by (simp_all add: mask_eq_exp_minus_1)
  show ?thesis
    unfolding m
  proof (rule bit_word_eqI)
    fix n assume "n < LENGTH(32)"
    then consider "n < 8" | "8 \<le> n" "n < 16" | "16 \<le> n" "n < 24" | "24 \<le> n" "n < 32" by fastforce
    then show "bit ((rol (load_le32 b0 b1 b2 b3) 24 AND (push_bit 8 (mask 8) OR push_bit 24 (mask 8))) OR
          (rol (load_le32 b0 b1 b2 b3) 8 AND (mask 8 OR push_bit 16 (mask 8)))) n =
        bit (load_be32 b0 b1 b2 b3) n"
      by cases (simp_all add: rol_def load_le32_def load_be32_def bit_simps not_bit_byte less_diff_conv2)
  qed
qed

lemma choose_eq: "(w AND (x XOR y)) XOR y = (w AND x) OR (NOT w AND (y :: u32))"
  by (rule bit_word_eqI) (auto simp: bit_simps)

lemma majority_eq: "((w OR x) AND y) OR (w AND x) = (w AND x) OR (w AND y) OR (x AND (y :: u32))"
  by (rule bit_word_eqI) (auto simp: bit_simps)

lemma words_length: "length (le_words bs) = length bs div 4" "length (be_words bs) = length bs div 4"
  by (induction bs rule: le_words.induct) simp_all

lemma blk0_word:
  "i < length (le_words bs) \<Longrightarrow>
     (rol (le_words bs ! i) 24 AND 0xFF00FF00) OR (rol (le_words bs ! i) 8 AND 0x00FF00FF) = be_words bs ! i"
proof (induction bs arbitrary: i rule: le_words.induct)
  case (1 b0 b1 b2 b3 bs)
  then show ?case by (cases i) (simp_all add: swap_bytes)
qed simp_all

text \<open>
  Before round \<open>t\<close> the block holds the sixteen latest words of the schedule, and those of the input that
  are still to be used.
\<close>

definition block_inv :: "u8 list \<Rightarrow> nat \<Rightarrow> u32 list \<Rightarrow> bool" where
  "block_inv bs t block \<longleftrightarrow>
     length block = 16 \<and>
     (\<forall>s. s < t \<and> t \<le> s + 16 \<longrightarrow> block ! (s mod 16) = schedule (be_words bs) s) \<and>
     (\<forall>j. t \<le> j \<and> j < 16 \<longrightarrow> block ! j = le_words bs ! j)"

lemma block_inv_blk0:
  assumes "block_inv bs t block" "t < 16" "length bs = 64"
  shows "block_inv bs (Suc t) (blk0 block t)" "blk0 block t ! (t mod 16) = schedule (be_words bs) t"
proof -
  have l: "length block = 16" "block ! t = le_words bs ! t" using assms(1,2) by (simp_all add: block_inv_def)
  have "blk0 block t ! t = be_words bs ! t"
    using l assms(2,3) by (simp add: blk0_def blk0_word words_length)
  then have w: "blk0 block t ! (t mod 16) = schedule (be_words bs) t" using assms(2) by (subst schedule.simps) simp
  then show "blk0 block t ! (t mod 16) = schedule (be_words bs) t" .
  have keep: "j \<noteq> t \<Longrightarrow> blk0 block t ! j = block ! j" for j by (simp add: blk0_def)
  have "blk0 block t ! (s mod 16) = schedule (be_words bs) s" if "s < Suc t" "Suc t \<le> s + 16" for s
    using that w keep [of s] assms(1,2) by (cases "s = t") (auto simp: block_inv_def)
  moreover have "length (blk0 block t) = 16" using l by (simp add: blk0_def)
  ultimately show "block_inv bs (Suc t) (blk0 block t)"
    using keep assms(1) by (auto simp: block_inv_def)
qed

lemma block_inv_blk:
  assumes "block_inv bs t block" "\<not> t < 16"
  shows "block_inv bs (Suc t) (blk block t)" "blk block t ! (t mod 16) = schedule (be_words bs) t"
proof -
  have l: "length block = 16" using assms(1) by (simp add: block_inv_def)
  have old: "block ! (s mod 16) = schedule (be_words bs) s" if "s < t" "t \<le> s + 16" for s
    using assms(1) that by (simp add: block_inv_def)
  have m: "(t + k) mod 16 = (t - (16 - k)) mod 16" if "k < 16" for k
  proof -
    have "t + k = (t - (16 - k)) + 16" using assms(2) that by simp
    then show ?thesis by (simp only: mod_add_self2)
  qed
  have "block ! ((t + 13) mod 16) = schedule (be_words bs) (t - 3)"
    "block ! ((t + 8) mod 16) = schedule (be_words bs) (t - 8)"
    "block ! ((t + 2) mod 16) = schedule (be_words bs) (t - 14)"
    "block ! (t mod 16) = schedule (be_words bs) (t - 16)"
    using assms(2) old [of "t - 3"] old [of "t - 8"] old [of "t - 14"] old [of "t - 16"]
      m [of 13] m [of 8] m [of 2] m [of 0] by simp_all
  then have w: "blk block t ! (t mod 16) = schedule (be_words bs) t"
    using l assms(2) by (subst schedule.simps) (simp add: blk_def)
  then show "blk block t ! (t mod 16) = schedule (be_words bs) t" .
  have "blk block t ! (s mod 16) = schedule (be_words bs) s" if "s < Suc t" "Suc t \<le> s + 16" for s
  proof (cases "s = t")
    case False
    then have "0 < t - s" "t - s < 16" using that by simp_all
    then have "\<not> 16 dvd t - s" by (rule nat_dvd_not_less)
    then have "s mod 16 \<noteq> t mod 16"
      using that mod_eq_dvd_iff_nat [of s t 16] by auto
    with old [of s] that False show ?thesis by (simp add: blk_def)
  qed (use w in simp)
  then show "block_inv bs (Suc t) (blk block t)" using l assms(2) by (auto simp: block_inv_def blk_def)
qed

lemma sha1_step_fips:
  assumes "block_inv bs t block" "length bs = 64" "t < 80"
  shows "\<exists>block'. sha1_step t (block, vs) = (block', fips_round (be_words bs) t vs) \<and>
           block_inv bs (Suc t) block'"
proof -
  obtain v w x y z where vs: "vs = (v, w, x, y, z)" by (cases vs)
  note defs = R0_def R1_def R2_def R3_def R4_def sha1_round_def fips_round_def fips_f_def fips_K_def
    choose_eq majority_eq Let_def
  show ?thesis
  proof (cases "t < 16")
    case True
    from block_inv_blk0 [OF assms(1) True assms(2)] True show ?thesis
      by (simp add: sha1_step_def defs vs add_ac)
  next
    case False
    from block_inv_blk [OF assms(1) False] False assms(3) show ?thesis
      by (simp add: sha1_step_def defs vs add_ac)
  qed
qed

lemma sha1_steps_fips:
  assumes "length bs = 64" "n \<le> 80"
  shows "\<exists>block. fold sha1_step [0..<n] (le_words bs, vs) = (block, fold (fips_round (be_words bs)) [0..<n] vs) \<and>
           block_inv bs n block"
  using assms(2)
proof (induction n)
  case 0
  then show ?case using assms(1) by (simp add: block_inv_def words_length)
next
  case (Suc n)
  then obtain block where b: "fold sha1_step [0..<n] (le_words bs, vs) =
      (block, fold (fips_round (be_words bs)) [0..<n] vs)" "block_inv bs n block" by auto
  from sha1_step_fips [OF b(2) assms(1), of "fold (fips_round (be_words bs)) [0..<n] vs"] Suc.prems b(1)
  show ?case by auto
qed

lemma SHA1Transform_fips: "length bs = 64 \<Longrightarrow> SHA1Transform H bs = fips_compress H bs"
  using sha1_steps_fips [of bs 80 "(H ! 0, H ! 1, H ! 2, H ! 3, H ! 4)"]
  by (auto simp: SHA1Transform_def fips_compress_def split: prod.splits)

section \<open>Messages\<close>

definition sha1_H0 :: "u32 list" where
  "sha1_H0 = [0x67452301, 0xEFCDAB89, 0x98BADCFE, 0x10325476, 0xC3D2E1F0]"

function sha1_blocks :: "u32 list \<Rightarrow> u8 list \<Rightarrow> u32 list" where
  "sha1_blocks H bs =
     (if length bs < 64 then H else sha1_blocks (fips_compress H (take 64 bs)) (drop 64 bs))"
  by pat_completeness auto
termination by (relation "measure (length \<circ> snd)") auto

declare sha1_blocks.simps [simp del]

definition sha1_pad :: "u8 list \<Rightarrow> u8 list" where
  "sha1_pad m =
     m @ 0x80 # replicate ((119 - length m mod 64) mod 64) 0 @
     map (\<lambda>i. word_of_nat (8 * length m div 256 ^ (7 - i))) [0..<8]"

definition sha1_standard :: "u8 list \<Rightarrow> u8 list" where
  "sha1_standard m =
     concat (map (\<lambda>w. map (\<lambda>i. word_of_nat (unat w div 256 ^ (3 - i))) [0..<4])
       (sha1_blocks sha1_H0 (sha1_pad m)))"

lemma sha1_blocks_short: "length bs < 64 \<Longrightarrow> sha1_blocks H bs = H"
  by (simp add: sha1_blocks.simps)

lemma sha1_blocks_block:
  "length b = 64 \<Longrightarrow> sha1_blocks H (b @ bs) = sha1_blocks (fips_compress H b) bs"
  by (subst sha1_blocks.simps) simp

lemma sha1_blocks_append:
  "64 dvd length xs \<Longrightarrow> sha1_blocks H (xs @ ys) = sha1_blocks (sha1_blocks H xs) ys"
proof (induction "length xs" arbitrary: H xs rule: less_induct)
  case less
  show ?case
  proof (cases "xs = []")
    case False
    then have l: "64 \<le> length xs" using less.prems by (auto dest: dvd_imp_le)
    then have "xs @ ys = take 64 xs @ drop 64 xs @ ys" "xs = take 64 xs @ drop 64 xs" by simp_all
    then have "sha1_blocks H (xs @ ys) = sha1_blocks (fips_compress H (take 64 xs)) (drop 64 xs @ ys)"
      "sha1_blocks H xs = sha1_blocks (fips_compress H (take 64 xs)) (drop 64 xs)"
      using l sha1_blocks_block [of "take 64 xs" H] by (metis length_take min.absorb2)+
    moreover have "64 dvd length (drop 64 xs)" using less.prems l by (simp add: dvd_diff_nat)
    ultimately show ?thesis using less.hyps [of "drop 64 xs"] l by simp
  qed (simp add: sha1_blocks_short)
qed

text \<open>The bytes after the last complete block.\<close>

definition last_part :: "'a list \<Rightarrow> 'a list" where
  "last_part m = drop (length m - length m mod 64) m"

lemma length_last_part [simp]: "length (last_part m) = length m mod 64"
  by (simp add: last_part_def)

lemma last_part_split:
  obtains m0 where "m = m0 @ last_part m" "64 dvd length m0"
proof (rule that)
  show "m = take (length m - length m mod 64) m @ last_part m" by (simp add: last_part_def)
  show "64 dvd length (take (length m - length m mod 64) m)" by (simp add: dvd_minus_mod)
qed

lemma last_part_append: "64 dvd length xs \<Longrightarrow> last_part (xs @ ys) = last_part ys"
  by (auto simp: last_part_def elim!: dvdE)

lemma last_part_short: "length m < 64 \<Longrightarrow> last_part m = m"
  by (simp add: last_part_def)

lemma sha1_blocks_m:
  "sha1_blocks H (m @ ys) = sha1_blocks (sha1_blocks H m) (last_part m @ ys)"
proof -
  obtain m0 where m0: "m = m0 @ last_part m" "64 dvd length m0" by (rule last_part_split)
  have "sha1_blocks H m = sha1_blocks H m0"
    using sha1_blocks_append [OF m0(2), of H "last_part m"] m0(1) by (simp add: sha1_blocks_short)
  moreover have "m @ ys = m0 @ last_part m @ ys" using m0(1) by (metis append.assoc)
  ultimately show ?thesis using sha1_blocks_append [OF m0(2), of H "last_part m @ ys"] by (simp only:)
qed

lemma last_part_m: "last_part (m @ ys) = last_part (last_part m @ ys)"
proof -
  obtain m0 where m0: "m = m0 @ last_part m" "64 dvd length m0" by (rule last_part_split)
  then have "m @ ys = m0 @ last_part m @ ys" by (metis append.assoc)
  then show ?thesis using last_part_append [OF m0(2), of "last_part m @ ys"] by (simp only:)
qed

section \<open>Updating\<close>

text \<open>The context after the message \<open>m\<close>.\<close>

definition sha1_inv :: "SHA1_CTX \<Rightarrow> u8 list \<Rightarrow> bool" where
  "sha1_inv cx m \<longleftrightarrow>
     length (cx_buffer cx) = 64 \<and>
     unat (cx_count0 cx) + 2 ^ 32 * unat (cx_count1 cx) = 8 * length m mod 2 ^ 64 \<and>
     take (length m mod 64) (cx_buffer cx) = last_part m \<and>
     cx_state cx = sha1_blocks sha1_H0 m"

lemma SHA1Init_inv: "length (cx_buffer cx) = 64 \<Longrightarrow> sha1_inv (SHA1Init cx) []"
  by (simp add: sha1_inv_def SHA1Init_def sha1_H0_def sha1_blocks_short last_part_short)

lemma update_blocks_ok:
  assumes "unat len = length data" "length data \<le> 2 ^ 32 - 64" "unat i \<le> length data"
  shows "\<exists>i'. update_blocks H data len i = Some (sha1_blocks H (drop (unat i) data), i') \<and>
           unat i' = unat i + (length data - unat i - (length data - unat i) mod 64)"
  using assms(3)
proof (induction "length data - unat i" arbitrary: H i rule: less_induct)
  case less
  have nowrap: "unat (i + 63) = unat i + 63"
    using less.prems assms(2) by (simp add: unat_word_ariths)
  show ?case
  proof (cases "unat i + 63 < length data")
    case True
    then have lt: "i + 63 < len" using nowrap assms(1) by (simp add: word_less_nat_alt)
    have i64: "unat (i + 64) = unat i + 64" using True assms(2) by (simp add: unat_word_ariths)
    let ?b = "take 64 (drop (unat i) data)"
    have b: "block_at data i = Some ?b" "length ?b = 64" using True by (simp_all add: block_at_def)
    have "?b @ drop 64 (drop (unat i) data) = drop (unat i) data" by (rule append_take_drop_id)
    then have "drop (unat i) data = ?b @ drop (unat i + 64) data" by (simp add: add.commute)
    then have step: "sha1_blocks H (drop (unat i) data) =
        sha1_blocks (fips_compress H ?b) (drop (unat (i + 64)) data)"
      using sha1_blocks_block [OF b(2), of H "drop (unat i + 64) data"] by (simp add: i64)
    have d: "length data - unat (i + 64) < length data - unat i" "unat (i + 64) \<le> length data"
      using True by (simp_all add: i64)
    obtain i' where i': "update_blocks (SHA1Transform H ?b) data len (i + 64) =
        Some (sha1_blocks (SHA1Transform H ?b) (drop (unat (i + 64)) data), i')"
      "unat i' = unat (i + 64) + (length data - unat (i + 64) - (length data - unat (i + 64)) mod 64)"
      using less.hyps [OF d] by blast
    define n where "n = length data - unat (i + 64)"
    have n: "length data - unat i = n + 64" using True by (simp add: i64 n_def)
    have "unat i' = unat i + 64 + (n - n mod 64)" using i'(2) unfolding n_def [symmetric] by (simp only: i64)
    moreover have "n mod 64 \<le> n" "(n + 64) mod 64 = n mod 64" by simp_all
    ultimately have "unat i' = unat i + (length data - unat i - (length data - unat i) mod 64)"
      unfolding n by linarith
    moreover have "update_blocks H data len i = Some (sha1_blocks H (drop (unat i) data), i')"
      using lt b i'(1) step by (subst update_blocks.simps) (simp add: SHA1Transform_fips)
    ultimately show ?thesis by blast
  next
    case False
    then have nlt: "\<not> i + 63 < len" using nowrap assms(1) by (simp add: word_less_nat_alt)
    have "length data - unat i < 64" using False by simp
    then show ?thesis
      using nlt by (subst update_blocks.simps) (simp add: sha1_blocks_short)
  qed
qed

text \<open>The pair of counters counts bits modulo \<open>2 ^ 64\<close>.\<close>

lemma mult_mod_high: "a < 2 ^ 32 \<Longrightarrow> a + 2 ^ 32 * (b mod 2 ^ 32) = (a + 2 ^ 32 * b) mod (2 ^ 64 :: nat)"
proof -
  assume a: "a < 2 ^ 32"
  have "2 ^ 32 * (b mod 2 ^ 32) = (2 ^ 32 * b) mod (2 ^ 64 :: nat)"
    by (simp add: mult_mod_right)
  moreover have "(a + 2 ^ 32 * b) mod (2 ^ 64) = (a + (2 ^ 32 * b) mod 2 ^ 64) mod (2 ^ 64 :: nat)"
    by (simp add: mod_add_right_eq)
  moreover have "a + 2 ^ 32 * (b mod 2 ^ 32) < (2 ^ 64 :: nat)"
  proof -
    have "b mod 2 ^ 32 \<le> 2 ^ 32 - 1" using mod_less_divisor [of "2 ^ 32" b] by simp
    then have "2 ^ 32 * (b mod 2 ^ 32) \<le> 2 ^ 32 * (2 ^ 32 - 1)" by (rule mult_le_mono2)
    with a show ?thesis by simp
  qed
  ultimately show ?thesis by simp
qed

lemma count_add:
  fixes c0 c1 len :: u32
  assumes "unat c0 + 2 ^ 32 * unat c1 = B mod 2 ^ 64"
  defines "c0' \<equiv> c0 + push_bit 3 len"
  defines "c1' \<equiv> (if c0' < c0 then c1 + 1 else c1) + drop_bit 29 len"
  shows "unat c0' + 2 ^ 32 * unat c1' = (B + 8 * unat len) mod 2 ^ 64"
proof -
  define p q where "p = 8 * unat len mod 2 ^ 32" and "q = unat len div 2 ^ 29"
  define carry where "carry = (if c0' < c0 then 1 else 0 :: nat)"
  have "8 * unat len div 2 ^ 32 = q" unfolding q_def using div_mult_mult1 [of 8 "unat len" "2 ^ 29"] by simp
  then have bits: "8 * unat len = p + 2 ^ 32 * q" unfolding p_def by (metis mod_mult_div_eq)
  have p: "unat (push_bit 3 len) = p" "p < 2 ^ 32"
    by (simp_all add: p_def push_bit_eq_mult unat_word_ariths mult.commute)
  have q: "unat (drop_bit 29 len) = q"
    unfolding q_def unat_drop_bit_eq by (simp only: drop_bit_eq_div [where 'a = nat])
  have x: "unat c0' = (unat c0 + p) mod 2 ^ 32" unfolding c0'_def by (simp add: unat_word_ariths p)
  have "unat c0 < 2 ^ 32" using unsigned_less [of c0] by simp
  with x p(2) have sum: "unat c0 + p = unat c0' + 2 ^ 32 * carry"
    unfolding carry_def word_less_nat_alt by (cases "unat c0 + p < 2 ^ 32") (simp_all add: mod_if)
  have "unat c1' = (unat c1 + carry + q) mod 2 ^ 32"
    unfolding c1'_def carry_def by (simp add: unat_word_ariths q mod_simps)
  moreover have "unat c0' < 2 ^ 32" using unsigned_less [of c0'] by simp
  ultimately have "unat c0' + 2 ^ 32 * unat c1' = (unat c0' + 2 ^ 32 * (unat c1 + carry + q)) mod 2 ^ 64"
    using mult_mod_high by metis
  also have "unat c0' + 2 ^ 32 * (unat c1 + carry + q) = (unat c0 + 2 ^ 32 * unat c1) + 8 * unat len"
    using sum unfolding bits by (simp add: distrib_left)
  also have "\<dots> mod 2 ^ 64 = (B + 8 * unat len) mod 2 ^ 64"
    unfolding assms(1) by (rule mod_add_left_eq)
  finally show ?thesis .
qed

lemma count_index:
  assumes "unat c0 + 2 ^ 32 * unat (c1 :: u32) = 8 * n mod 2 ^ 64"
  shows "unat (drop_bit 3 (c0 :: u32) AND 63) = n mod 64" "unat c0 = 8 * (n mod 2 ^ 29)"
proof -
  have "unat c0 < 2 ^ 32" using unsigned_less [of c0] by simp
  then have "unat c0 = (unat c0 + 2 ^ 32 * unat c1) mod 2 ^ 32" by simp
  also have "\<dots> = 8 * n mod 2 ^ 32" unfolding assms by (simp add: mod_mod_cancel)
  also have "\<dots> = 8 * (n mod 2 ^ 29)" using mult_mod_right [of 8 n "2 ^ 29"] by simp
  finally show c0: "unat c0 = 8 * (n mod 2 ^ 29)" .
  have "drop_bit 3 c0 AND 63 = take_bit 6 (drop_bit 3 c0)" by (simp add: take_bit_eq_mask mask_eq_exp_minus_1)
  then have "unat (drop_bit 3 c0 AND 63) = take_bit 6 (drop_bit 3 (unat c0))"
    by (simp add: unsigned_take_bit_eq unat_drop_bit_eq)
  also have "\<dots> = (unat c0 div 2 ^ 3) mod 2 ^ 6" by (simp only: take_bit_eq_mod drop_bit_eq_div)
  also have "\<dots> = n mod 64" unfolding c0 by (simp add: mod_mod_cancel)
  finally show "unat (drop_bit 3 c0 AND 63) = n mod 64" .
qed

text \<open>What more data does to the blocks and to the part that is left: it fills the last block, or not.\<close>

lemma append_short:
  assumes "length m mod 64 + length data < 64"
  shows "sha1_blocks H (m @ data) = sha1_blocks H m" "last_part (m @ data) = last_part m @ data"
    "length (m @ data) mod 64 = length m mod 64 + length data"
proof -
  show "sha1_blocks H (m @ data) = sha1_blocks H m"
    unfolding sha1_blocks_m [of _ m] using assms by (simp add: sha1_blocks_short)
  show "last_part (m @ data) = last_part m @ data"
    unfolding last_part_m [of m] using assms by (simp add: last_part_short)
  show "length (m @ data) mod 64 = length m mod 64 + length data"
    using assms mod_add_left_eq [of "length m" 64 "length data"] by simp
qed

lemma append_fill:
  assumes "64 \<le> length m mod 64 + length data"
  defines "k \<equiv> 64 - length m mod 64"
  defines "r \<equiv> (length data - k) mod 64"
  shows "sha1_blocks H (m @ data) =
      sha1_blocks (fips_compress (sha1_blocks H m) (last_part m @ take k data)) (drop k data)"
    "last_part (m @ data) = drop (length data - r) data" "length (m @ data) mod 64 = r"
proof -
  have k: "k \<le> length data" using assms(1) by (simp add: k_def)
  have b: "length (last_part m @ take k data) = 64" using k by (simp add: k_def)
  have split: "last_part m @ data = (last_part m @ take k data) @ drop k data" by simp
  show "sha1_blocks H (m @ data) =
      sha1_blocks (fips_compress (sha1_blocks H m) (last_part m @ take k data)) (drop k data)"
    unfolding sha1_blocks_m [of _ m] split sha1_blocks_block [OF b] by (rule refl)
  have "last_part (m @ data) = last_part (drop k data)"
    unfolding last_part_m [of m] split by (rule last_part_append) (simp only: b dvd_refl)
  also have "\<dots> = drop (length data - r) data"
    using k by (simp add: last_part_def r_def add.commute)
  finally show *: "last_part (m @ data) = drop (length data - r) data" .
  have "r \<le> length data" unfolding r_def by (meson diff_le_self le_trans mod_less_eq_dividend)
  with * show "length (m @ data) mod 64 = r" using length_last_part [of "m @ data"] by simp
qed

lemma SHA1Update_ok:
  assumes inv: "sha1_inv cx m" and len: "unat len = length data" "length data \<le> 2 ^ 32 - 64"
  shows "\<exists>cx'. SHA1Update cx data len = Some cx' \<and> sha1_inv cx' (m @ data)"
proof -
  have buf: "length (cx_buffer cx) = 64" and part: "take (length m mod 64) (cx_buffer cx) = last_part m"
    and st: "cx_state cx = sha1_blocks sha1_H0 m"
    and cnt: "unat (cx_count0 cx) + 2 ^ 32 * unat (cx_count1 cx) = 8 * length m mod 2 ^ 64"
    using inv by (simp_all add: sha1_inv_def)
  define j where "j = drop_bit 3 (cx_count0 cx) AND 63"
  have j: "unat j = length m mod 64" unfolding j_def by (rule count_index(1) [OF cnt])
  define cx1 where "cx1 = cx\<lparr>cx_count0 := cx_count0 cx + push_bit 3 len,
     cx_count1 := (if cx_count0 cx + push_bit 3 len < cx_count0 cx then cx_count1 cx + 1 else cx_count1 cx)
       + drop_bit 29 len\<rparr>"
  have cnt1: "unat (cx_count0 cx1) + 2 ^ 32 * unat (cx_count1 cx1) = 8 * length (m @ data) mod 2 ^ 64"
    using count_add [OF cnt, of len] len(1) unfolding cx1_def by (simp add: distrib_left)
  have "unat (j + len) = unat j + length data" using j len by (simp add: unat_word_ariths)
  then have fill: "63 < j + len \<longleftrightarrow> 64 \<le> length m mod 64 + length data" using j by (auto simp: word_less_nat_alt)
  note upd = SHA1Update_def [of cx data len, unfolded Let_def, folded j_def cx1_def]
  show ?thesis
  proof (cases "64 \<le> length m mod 64 + length data")
    case False
    let ?buf = "take (unat j) (cx_buffer cx) @ data @ drop (unat j + length data) (cx_buffer cx)"
    have "memcpy (cx_buffer cx) (int (unat j)) data 0 (int (unat len)) = Some ?buf"
      using memcpy_ok [of "unat j" "length data" "cx_buffer cx" 0 data] False buf len(1) j by simp
    then have "SHA1Update cx data len = Some (cx1\<lparr>cx_state := cx_state cx, cx_buffer := ?buf\<rparr>)"
      using False fill unfolding upd by (simp add: cx1_def)
    with append_short [of m data] False cnt1 buf part st j show ?thesis by (simp add: sha1_inv_def)
  next
    case True
    define k where "k = 64 - length m mod 64"
    have k: "unat (64 - j) = k" "k \<le> length data" "length m mod 64 + k = 64"
      using True j by (simp_all add: k_def unat_sub word_le_nat_alt)
    define r where "r = (length data - k) mod 64"
    have r: "r < 64" "r \<le> length data - k" by (simp_all add: r_def)
    let ?b = "last_part m @ take k data"
    have b: "memcpy (cx_buffer cx) (int (unat j)) data 0 (int (unat (64 - j))) = Some ?b" "length ?b = 64"
      using memcpy_ok [of "unat j" k "cx_buffer cx" 0 data] buf part j k(2,3) unfolding k(1) by simp_all
    obtain i where i: "update_blocks (SHA1Transform (cx_state cx) ?b) data len (64 - j) =
        Some (sha1_blocks (SHA1Transform (cx_state cx) ?b) (drop k data), i)" "unat i = length data - r"
      using update_blocks_ok [OF len, of "64 - j" "SHA1Transform (cx_state cx) ?b"] k(2) r
      unfolding k(1) r_def by auto
    have li: "unat (len - i) = r" using i(2) r(2) len(1) by (simp add: unat_sub word_le_nat_alt)
    have copy: "memcpy ?b 0 data (int (unat i)) (int (unat (len - i))) = Some (drop (unat i) data @ drop r ?b)"
      using memcpy_ok [of 0 r ?b "unat i" data] b(2) r i(2) unfolding li by simp
    define buf' where "buf' = drop (unat i) data @ drop r ?b"
    have buf': "length buf' = 64" "take r buf' = drop (length data - r) data"
      using b(2) r i(2) unfolding buf'_def by (simp_all only: length_append length_drop take_append) simp_all
    have "SHA1Update cx data len =
        Some (cx1\<lparr>cx_state := sha1_blocks (SHA1Transform (cx_state cx) ?b) (drop k data), cx_buffer := buf'\<rparr>)"
      using True fill b(1) i(1) copy [folded buf'_def] unfolding upd by (simp add: cx1_def)
    with append_fill [of m data, folded k_def, folded r_def] True cnt1 buf' b(2) st show ?thesis
      by (simp add: sha1_inv_def SHA1Transform_fips)
  qed
qed

section \<open>Padding and digest\<close>

lemma pad_test:
  "(c0 AND 504 = (448 :: u32)) = (unat (drop_bit 3 c0 AND 63) = 56)"
proof -
  have e: "c0 AND 504 = push_bit 3 (drop_bit 3 c0 AND 63)"
  proof -
    have c: "(504 :: u32) = push_bit 3 (mask 6)" "(63 :: u32) = mask 6" by (simp_all add: mask_eq_exp_minus_1)
    show ?thesis unfolding c by (rule bit_word_eqI) (auto simp: bit_simps)
  qed
  have "drop_bit 3 c0 AND 63 \<le> 63" by (rule word_and_le1)
  then have "unat (drop_bit 3 c0 AND 63) \<le> 63" by (simp add: word_le_nat_alt)
  then have "unat (push_bit 3 (drop_bit 3 c0 AND 63)) = 8 * unat (drop_bit 3 c0 AND 63)"
    by (simp add: push_bit_eq_mult unat_word_ariths)
  then show ?thesis unfolding e by (auto simp: word_unat_eq_iff)
qed

lemma pad_zeros: "L < 64 \<Longrightarrow> (120 - L) mod 64 = (if L \<le> 56 then 56 - L else 120 - (L :: nat))"
proof (cases "L \<le> 56")
  case True
  then have "120 - L = (56 - L) + 64" by simp
  then show ?thesis using True by (simp only: mod_add_self2) simp
qed simp

lemma pad_zeros_Suc:
  assumes "L < 63" "L \<noteq> 56" "Suc k = (120 - L) mod 64"
  shows "k = (120 - Suc L) mod 64"
  using assms pad_zeros [of L] pad_zeros [of "Suc L"] by (cases "L < 56") auto

lemma pad_loop_ok:
  assumes "sha1_inv cx m"
  shows "\<exists>cx'. pad_loop cx = Some cx' \<and> sha1_inv cx' (m @ replicate ((120 - length m mod 64) mod 64) 0)"
  using assms
proof (induction "(120 - length m mod 64) mod 64" arbitrary: cx m)
  case 0
  have "length m mod 64 < 64" by simp
  with 0(1) have "length m mod 64 = 56" using pad_zeros [of "length m mod 64"] by (simp split: if_splits)
  moreover have "unat (drop_bit 3 (cx_count0 cx) AND 63) = length m mod 64"
    using 0(2) by (intro count_index(1) [of _ "cx_count1 cx"]) (simp add: sha1_inv_def)
  ultimately have "pad_loop cx = Some cx" by (subst pad_loop.simps) (simp add: pad_test)
  with 0 show ?case by simp
next
  case (Suc k)
  have l: "length m mod 64 < 64" by simp
  have k: "Suc k = (if length m mod 64 \<le> 56 then 56 - length m mod 64 else 120 - length m mod 64)"
    using Suc.hyps(2) pad_zeros [OF l] by simp
  then have ne: "length m mod 64 \<noteq> 56" by auto
  obtain cx1 where cx1: "SHA1Update cx [0] 1 = Some cx1" "sha1_inv cx1 (m @ [0])"
    using SHA1Update_ok [OF Suc.prems, of 1 "[0]"] by auto
  have "k = (120 - length (m @ [0 :: u8]) mod 64) mod 64"
  proof (cases "length m mod 64 = 63")
    case True
    with k show ?thesis by (simp add: mod_Suc)
  next
    case False
    then have s: "length (m @ [0 :: u8]) mod 64 = Suc (length m mod 64)" by (simp add: mod_Suc)
    have "length m mod 64 < 63" using l False by linarith
    from pad_zeros_Suc [OF this ne Suc.hyps(2)] show ?thesis unfolding s .
  qed
  with Suc.hyps(1) [OF this cx1(2)] obtain cx' where cx': "pad_loop cx1 = Some cx'"
    "sha1_inv cx' ((m @ [0]) @ replicate k 0)" by auto
  have "unat (drop_bit 3 (cx_count0 cx) AND 63) = length m mod 64"
    using Suc.prems by (intro count_index(1) [of _ "cx_count1 cx"]) (simp add: sha1_inv_def)
  then have "pad_loop cx = Some cx'" using ne cx1(1) cx'(1) by (subst pad_loop.simps) (simp add: pad_test)
  moreover have "(m @ [0]) @ replicate k 0 = m @ replicate (Suc k) 0" by simp
  ultimately show ?case using cx'(2) unfolding Suc.hyps(2) by auto
qed

lemma be_byte_nat: "be_byte x i = word_of_nat (drop_bit ((3 - i mod 4) * 8) (unat x))"
proof -
  have "be_byte x i = ucast (drop_bit ((3 - i mod 4) * 8) x)"
  proof -
    have c: "(255 :: u32) = mask 8" by (simp add: mask_eq_exp_minus_1)
    show ?thesis unfolding be_byte_def c by (rule bit_word_eqI) (auto simp: bit_simps)
  qed
  then show ?thesis by (simp flip: unat_drop_bit_eq)
qed

lemma div_256: "a div 256 ^ k = drop_bit (k * 8) (a :: nat)"
  unfolding drop_bit_eq_div by (simp add: power_mult mult.commute [of k] del: power_mult_numeral)

lemma finalcount_bytes:
  assumes "unat (cx_count0 cx) + 2 ^ 32 * unat (cx_count1 cx) = n mod 2 ^ 64"
  shows "finalcount cx = map (\<lambda>i. word_of_nat (n div 256 ^ (7 - i))) [0..<8]"
proof -
  have c0: "unat (cx_count0 cx) < 2 ^ 32" using unsigned_less [of "cx_count0 cx"] by simp
  have 0: "unat (cx_count0 cx) = take_bit 32 n"
  proof -
    have "unat (cx_count0 cx) = (n mod 2 ^ 64) mod 2 ^ 32" unfolding assms [symmetric] using c0 by simp
    then show ?thesis by (simp only: take_bit_eq_mod) (simp add: mod_mod_cancel)
  qed
  have 1: "unat (cx_count1 cx) = drop_bit 32 (take_bit 64 n)"
    unfolding drop_bit_eq_div take_bit_eq_mod assms [symmetric] using c0 by simp
  have "word_of_nat (drop_bit ((3 - i mod 4) * 8) (unat (cx_count0 cx))) = (word_of_nat (n div 256 ^ (7 - i)) :: u8)"
    if "4 \<le> i" "i < 8" for i
  proof -
    have "3 - i mod 4 = 7 - i" using that by (simp add: mod_if)
    then show ?thesis
      unfolding 0 div_256 word_of_nat_eq_iff using that by (intro bit_eqI) (auto simp: bit_simps)
  qed
  moreover have "word_of_nat (drop_bit ((3 - i mod 4) * 8) (unat (cx_count1 cx))) =
      (word_of_nat (n div 256 ^ (7 - i)) :: u8)" if "i < 4" for i
  proof -
    have "(7 - i) * 8 = 32 + (3 - i mod 4) * 8" using that by simp
    then show ?thesis
      unfolding 1 div_256 word_of_nat_eq_iff using that by (intro bit_eqI) (auto simp: bit_simps ac_simps)
  qed
  ultimately show ?thesis by (auto simp: finalcount_def be_byte_nat)
qed

lemma length_sha1_blocks: "length H = 5 \<Longrightarrow> length (sha1_blocks H bs) = 5"
proof (induction H bs rule: sha1_blocks.induct)
  case (1 H bs)
  show ?case
  proof (cases "length bs < 64")
    case False
    have "length (fips_compress H (take 64 bs)) = 5" by (simp add: fips_compress_def split: prod.splits)
    with 1(1) [OF False] False show ?thesis by (subst sha1_blocks.simps) simp
  qed (use 1(2) in \<open>simp add: sha1_blocks_short\<close>)
qed

lemma digest_bytes:
  assumes "length st = 5"
  shows "map (\<lambda>i. be_byte (st ! (i div 4)) i) [0..<20] =
           concat (map (\<lambda>w. map (\<lambda>i. word_of_nat (unat w div 256 ^ (3 - i))) [0..<4]) st)"
proof -
  obtain a b c d e where st: "st = [a, b, c, d, e]"
    using assms by (auto simp: numeral_eq_Suc length_Suc_conv)
  have "[0..<20] = [0, 1, 2, 3, 4, 5, 6, 7, 8, 9, 10, 11, 12, 13, 14, 15, 16, 17, 18, 19 :: nat]"
    "[0..<4] = [0, 1, 2, 3 :: nat]" by (simp_all add: upt_rec)
  then show ?thesis by (simp add: st be_byte_nat div_256)
qed

lemma SHA1Final_ok:
  assumes inv: "sha1_inv cx m"
  shows "\<exists>cx'. SHA1Final cx = Some (sha1_standard m, cx')"
proof -
  obtain cx1 where cx1: "SHA1Update cx [0x80] 1 = Some cx1" "sha1_inv cx1 (m @ [0x80])"
    using SHA1Update_ok [OF inv, of 1 "[0x80]"] by auto
  define z where "z = (120 - length (m @ [0x80 :: u8]) mod 64) mod 64"
  obtain cx2 where cx2: "pad_loop cx1 = Some cx2" "sha1_inv cx2 ((m @ [0x80]) @ replicate z 0)"
    using pad_loop_ok [OF cx1(2)] unfolding z_def by blast
  have fin: "finalcount cx = map (\<lambda>i. word_of_nat (8 * length m div 256 ^ (7 - i))) [0..<8]"
    using inv by (intro finalcount_bytes) (simp add: sha1_inv_def)
  have "length (finalcount cx) = 8" by (simp add: finalcount_def)
  then obtain cx3 where cx3: "SHA1Update cx2 (finalcount cx) 8 = Some cx3"
    "sha1_inv cx3 (((m @ [0x80]) @ replicate z 0) @ finalcount cx)"
    using SHA1Update_ok [OF cx2(2), of 8 "finalcount cx"] by auto
  have "z = (119 - length m mod 64) mod 64"
    unfolding z_def by (cases "length m mod 64 = 63") (simp_all add: mod_Suc)
  then have "((m @ [0x80]) @ replicate z 0) @ finalcount cx = sha1_pad m"
    unfolding fin sha1_pad_def by simp
  with cx3(2) have st: "cx_state cx3 = sha1_blocks sha1_H0 (sha1_pad m)" by (simp add: sha1_inv_def)
  then have "length (cx_state cx3) = 5" by (simp add: length_sha1_blocks sha1_H0_def)
  from digest_bytes [OF this] cx1(1) cx2(1) cx3(1) st show ?thesis
    by (simp add: SHA1Final_def sha1_standard_def)
qed

section \<open>Properties\<close>

text \<open>A message in pieces: initialise, update with each piece, finish.\<close>

fun sha1_updates :: "SHA1_CTX \<Rightarrow> u8 list list \<Rightarrow> SHA1_CTX option" where
  "sha1_updates cx [] = Some cx"
| "sha1_updates cx (c # cs) = do { cx1 \<leftarrow> SHA1Update cx c (of_nat (length c)); sha1_updates cx1 cs }"

definition sha1_digest :: "SHA1_CTX \<Rightarrow> u8 list list \<Rightarrow> u8 list option" where
  "sha1_digest cx chunks = do {
     cx1 \<leftarrow> sha1_updates (SHA1Init cx) chunks;
     (digest, _) \<leftarrow> SHA1Final cx1;
     Some digest
   }"

lemma unat_of_length: "length c \<le> 2 ^ 32 - 64 \<Longrightarrow> unat (of_nat (length c) :: u32) = length c"
  by (simp add: unsigned_of_nat take_bit_nat_eq_self)

lemma sha1_updates_ok:
  "sha1_inv cx m \<Longrightarrow> list_all (\<lambda>c. length c \<le> 2 ^ 32 - 64) cs \<Longrightarrow>
     \<exists>cx'. sha1_updates cx cs = Some cx' \<and> sha1_inv cx' (m @ concat cs)"
proof (induction cs arbitrary: cx m)
  case (Cons c cs)
  obtain cx1 where cx1: "SHA1Update cx c (of_nat (length c)) = Some cx1" "sha1_inv cx1 (m @ c)"
    using SHA1Update_ok [OF Cons.prems(1) unat_of_length] Cons.prems(2) by auto
  with Cons.IH [OF cx1(2)] Cons.prems(2) show ?case by simp
qed simp

text \<open>
  C12: SHA-1 of a message given in pieces of at most \<open>2 ^ 32 - 64\<close> bytes, in any division, empty pieces
  included, is the standard's digest of the whole message: padded, cut into blocks, each run through
  the 80-word schedule and the rounds of FIPS 180. No access leaves the buffer or the data and every
  loop ends.
\<close>

theorem sha1_is_standard:
  assumes "length (cx_buffer cx) = 64" "list_all (\<lambda>c. length c \<le> 2 ^ 32 - 64) chunks"
  shows "sha1_digest cx chunks = Some (sha1_standard (concat chunks))"
proof -
  obtain cx1 where cx1: "sha1_updates (SHA1Init cx) chunks = Some cx1" "sha1_inv cx1 (concat chunks)"
    using sha1_updates_ok [OF SHA1Init_inv [OF assms(1)] assms(2)] by auto
  from SHA1Final_ok [OF cx1(2)] cx1(1) show ?thesis by (auto simp: sha1_digest_def)
qed

definition sha1_zero :: SHA1_CTX where
  "sha1_zero = \<lparr>cx_state = replicate 5 0, cx_count0 = 0, cx_count1 = 0, cx_buffer = replicate 64 0\<rparr>"

theorem sha1_is_standard_witness:
  "sha1_digest sha1_zero [[0x61], [], [0x62, 0x63]] = Some (sha1_standard (concat [[0x61], [], [0x62, 0x63]]))"
  by (rule sha1_is_standard) (simp_all add: sha1_zero_def)

text \<open>
  A piece long enough that its length plus the bytes in the buffer reaches \<open>2 ^ 32\<close> is fatal: the sum
  wraps, the test for a full block fails, and \<open>memcpy\<close> would write the whole piece behind the buffer's
  64 bytes.
\<close>

lemma SHA1Update_overflows:
  assumes "sha1_inv cx m" "unat len = length data" "2 ^ 32 \<le> length m mod 64 + length data"
  shows "SHA1Update cx data len = None"
proof -
  have cnt: "unat (cx_count0 cx) + 2 ^ 32 * unat (cx_count1 cx) = 8 * length m mod 2 ^ 64"
    and buf: "length (cx_buffer cx) = 64"
    using assms(1) by (simp_all add: sha1_inv_def)
  define j where "j = drop_bit 3 (cx_count0 cx) AND 63"
  have j: "unat j = length m mod 64" unfolding j_def by (rule count_index(1) [OF cnt])
  have "unat len < 2 ^ 32" using unsigned_less [of len] by simp
  then have l: "length data < 2 ^ 32" using assms(2) by simp
  have "unat (j + len) = (unat j + length data) mod 2 ^ 32" using assms(2) by (simp add: unat_word_ariths)
  also have "\<dots> = unat j + length data - 2 ^ 32"
    using assms(3) l j by (subst le_mod_geq) simp_all
  finally have "unat (j + len) < 64" using l j mod_less_divisor [of 64 "length m"] by linarith
  then have "\<not> 63 < j + len" by (simp add: word_less_nat_alt)
  moreover have "memcpy (cx_buffer cx) (int (unat j)) data 0 (int (unat len)) = None"
  proof -
    have "64 < unat j + unat len" using assms(2,3) j by simp
    then have "64 < int (unat j) + int (unat len)" by linarith
    then show ?thesis using buf unfolding memcpy_def by simp
  qed
  ultimately show ?thesis by (simp add: SHA1Update_def Let_def flip: j_def)
qed

lemma SHA1Update_overflows_witness:
  "\<exists>cx. sha1_inv cx [0] \<and> SHA1Update cx (replicate (2 ^ 32 - 1) 0) (- 1) = None"
proof -
  obtain cx where cx: "sha1_inv cx ([] @ [0])"
    using SHA1Update_ok [OF SHA1Init_inv [of sha1_zero], of 1 "[0]"] by (auto simp: sha1_zero_def)
  have "unat (- 1 :: u32) = length (replicate (2 ^ 32 - 1) (0 :: u8))"
    by (simp add: unsigned_minus_1_eq_mask mask_eq_exp_minus_1)
  with cx SHA1Update_overflows [of cx "[0]" "- 1" "replicate (2 ^ 32 - 1) 0"] show ?thesis by auto
qed

end
