(* ===== verification/Rand48.thy ===== *)
theory Rand48
  imports Prelude
begin

text \<open>
  The pseudo-random generator of \<^verbatim>\<open>util/rand.c\<close>: a 48-bit linear congruential generator kept in
  three 16-bit limbs, each in a 32-bit word. The static arrays are the state record; \<open>long\<close> is
  64 bits. The lemmas show that the limb arithmetic is one multiplication and addition
  modulo \<open>2 ^ 48\<close>.
\<close>

unbundle bit_operations_syntax

section \<open>The code\<close>

record rand48 =
  x0 :: u32
  x1 :: u32
  x2 :: u32
  a0 :: u32
  a1 :: u32
  a2 :: u32
  rc :: u32

definition rand_mask :: u32 where
  "rand_mask = push_bit 15 1 + push_bit 15 1 - 1"

definition LOW :: "u32 \<Rightarrow> u32" where
  "LOW v = v AND rand_mask"

definition HIGH :: "u32 \<Rightarrow> u32" where
  "HIGH v = LOW (drop_bit 16 v)"

text \<open>\<open>MUL\<close> goes through a signed 64-bit product.\<close>

definition MUL :: "u32 \<Rightarrow> u32 \<Rightarrow> u32 \<times> u32" where
  "MUL v w =
     (let l = ucast v * ucast w :: u64
      in (LOW (ucast l), LOW (ucast (signed_drop_bit 16 l))))"

definition CARRY :: "u32 \<Rightarrow> u32 \<Rightarrow> u32" where
  "CARRY v w = (if sint v + uint w > uint rand_mask then 1 else 0)"

text \<open>\<open>ADDEQU\<close>: the sum and its carry.\<close>

definition ADDEQU :: "u32 \<Rightarrow> u32 \<Rightarrow> u32 \<times> u32" where
  "ADDEQU v w = (LOW (v + w), CARRY v w)"

definition rand_init :: rand48 where
  "rand_init = \<lparr>x0 = 0x330E, x1 = 0xABCD, x2 = 0x1234, a0 = 0xE66D, a1 = 0xDEEC, a2 = 0x5, rc = 0xB\<rparr>"

definition redisSrand48 :: "u32 \<Rightarrow> rand48" where
  "redisSrand48 seedval =
     \<lparr>x0 = 0x330E, x1 = LOW seedval, x2 = HIGH seedval, a0 = 0xE66D, a1 = 0xDEEC, a2 = 0x5, rc = 0xB\<rparr>"

definition rand_next :: "rand48 \<Rightarrow> rand48" where
  "rand_next s =
     (let (p0, p1) = MUL (a0 s) (x0 s);
          (p0, carry0) = ADDEQU p0 (rc s);
          (p1, carry1) = ADDEQU p1 carry0;
          (q0, q1) = MUL (a0 s) (x1 s);
          (p1, carry0) = ADDEQU p1 q0;
          (r0, r1) = MUL (a1 s) (x0 s)
      in s\<lparr>x2 := LOW (carry0 + carry1 + CARRY p1 r0 + q1 + r1 +
                     a0 s * x2 s + a1 s * x1 s + a2 s * x0 s),
           x1 := LOW (p1 + r0),
           x0 := LOW p0\<rparr>)"

text \<open>The result is an \<open>int32_t\<close>.\<close>

definition redisLrand48 :: "rand48 \<Rightarrow> rand48 \<times> int" where
  "redisLrand48 s = (let s' = rand_next s in (s', sint (push_bit 15 (x2 s') + drop_bit 1 (x1 s'))))"

section \<open>Limb arithmetic over the naturals\<close>

abbreviation B :: nat where
  "B \<equiv> 65536"

lemma LOW_mask: "LOW v = take_bit 16 v"
  by (simp add: LOW_def rand_mask_def take_bit_eq_mask mask_eq_exp_minus_1)

lemma unat_LOW: "unat (LOW v) = unat v mod B"
proof -
  note LOW_mask [of v]
  then have "unat (LOW v) = take_bit 16 (unat v)" by (simp only: unsigned_take_bit_eq)
  then show ?thesis by (simp add: take_bit_eq_mod)
qed

lemma unat_LOW_less [simp]: "unat (LOW v) < B"
  by (simp add: unat_LOW)

lemma unat_u32_less: "unat (v :: u32) < B * B"
  using unsigned_less [of v, where 'a = nat] by simp

lemma unat_HIGH: "unat (HIGH v) = unat v div B"
proof -
  have "unat (drop_bit 16 v) = drop_bit 16 (unat v)" by (rule unat_drop_bit_eq)
  moreover have "unat v div B < B" using unat_u32_less [of v] by (simp add: less_mult_imp_div_less)
  ultimately show ?thesis by (simp add: HIGH_def unat_LOW drop_bit_eq_div [where 'a = nat])
qed

lemma sint_small:
  assumes "unat (v :: u32) < 2 ^ 31"
  shows "sint v = int (unat v)"
proof -
  have "sint v = signed_take_bit 31 (int (unat v))" by (simp add: sint_uint)
  moreover have "- (2 ^ 31) \<le> int (unat v)" by (rule order.trans [of _ 0]) simp_all
  moreover have "int (unat v) < 2 ^ 31"
    using assms by (metis of_nat_less_iff of_nat_numeral of_nat_power)
  ultimately show ?thesis by (simp only: signed_take_bit_int_eq_self)
qed

lemma unat_ADDEQU:
  assumes "unat v < B" "unat w < B" "ADDEQU v w = (s, k)"
  shows "unat v + unat w = unat s + B * unat k" "unat s < B" "unat k < 2"
proof -
  have s: "unat s = (unat v + unat w) mod B"
    using assms by (auto simp: ADDEQU_def unat_LOW unat_word_ariths)
  have "sint v + uint w = int (unat v + unat w)"
    using sint_small [of v] assms(1) by simp
  moreover have "uint rand_mask = 65535" by (simp add: rand_mask_def)
  moreover have "int (unat v + unat w) > 65535 \<longleftrightarrow> unat v + unat w > 65535"
    by (metis of_nat_less_iff of_nat_numeral)
  ultimately have k: "unat k = (if unat v + unat w > 65535 then 1 else 0)"
    using assms(3) by (simp only: ADDEQU_def CARRY_def prod.inject) (auto split: if_splits)
  show "unat s < B" using s by simp
  show "unat k < 2" using k by simp
  show "unat v + unat w = unat s + B * unat k"
  proof (cases "unat v + unat w > 65535")
    case True
    then have "(unat v + unat w) mod B = unat v + unat w - B"
      using assms(1,2) by (simp add: le_mod_geq)
    with s k True show ?thesis by simp
  qed (use s k in simp)
qed

lemma unat_MUL:
  assumes "unat v < B" "unat w < B" "MUL v w = (l, h)"
  shows "unat v * unat w = unat l + B * unat h" "unat l < B" "unat h < B"
proof -
  define p :: u64 where "p = ucast v * ucast w"
  have lt: "unat v * unat w < B * B" using assms(1,2) by (intro mult_strict_mono) auto
  have "unat (ucast v :: u64) = unat v" "unat (ucast w :: u64) = unat w"
    using assms(1,2) by (simp_all add: unsigned_ucast_eq take_bit_nat_eq_self)
  with lt have p: "unat p = unat v * unat w" by (simp add: p_def unat_word_ariths)
  have "l = LOW (ucast p)" "h = LOW (ucast (signed_drop_bit 16 p))"
    using assms(3) by (simp_all add: MUL_def p_def Let_def)
  moreover have "LOW (ucast (signed_drop_bit 16 p)) = LOW (ucast (drop_bit 16 p))"
    by (rule bit_word_eqI) (auto simp: LOW_mask bit_simps)
  ultimately have lh: "unat l = unat (ucast p :: u32) mod B"
    "unat h = unat (ucast (drop_bit 16 p) :: u32) mod B"
    by (simp_all add: unat_LOW)
  moreover have "unat (ucast p :: u32) = unat p"
    using lt p by (simp add: unsigned_ucast_eq take_bit_nat_eq_self)
  moreover have "unat (ucast (drop_bit 16 p) :: u32) = unat p div B"
    using lt p by (simp add: unsigned_ucast_eq unat_drop_bit_eq drop_bit_eq_div [where 'a = nat]
        take_bit_nat_eq_self less_mult_imp_div_less)
  moreover have "unat p div B < B" using lt p by (simp add: less_mult_imp_div_less)
  ultimately have "unat l = unat p mod B" "unat h = unat p div B" by simp_all
  then show "unat v * unat w = unat l + B * unat h" "unat l < B" "unat h < B"
    using p \<open>unat p div B < B\<close> by simp_all
qed

section \<open>The generator is linear congruential\<close>

definition rand_ok :: "rand48 \<Rightarrow> bool" where
  "rand_ok s \<longleftrightarrow> unat (x0 s) < B \<and> unat (x1 s) < B \<and> unat (x2 s) < B \<and>
     a0 s = 0xE66D \<and> a1 s = 0xDEEC \<and> a2 s = 5 \<and> rc s = 0xB"

definition rand_X :: "rand48 \<Rightarrow> nat" where
  "rand_X s = unat (x0 s) + B * unat (x1 s) + B * B * unat (x2 s)"

definition lcg48 :: "nat \<Rightarrow> nat" where
  "lcg48 X = (0x5DEECE66D * X + 0xB) mod 2 ^ 48"

lemma limb_identity:
  fixes A0 A1 A2 X0 X1 X2 :: nat
  assumes "A0 * X0 = p0 + B * p1" "p0 + c = y0 + B * k0" "p1 + k0 = p1' + B * k1"
    "A0 * X1 = q0 + B * q1" "p1' + q0 = p1'' + B * k2"
    "A1 * X0 = r0 + B * r1" "p1'' + r0 = y1 + B * k3"
  shows "(A0 + B * A1 + B * B * A2) * (X0 + B * X1 + B * B * X2) + c =
    y0 + B * y1 + B * B * (k2 + k1 + k3 + q1 + r1 + A0 * X2 + A1 * X1 + A2 * X0) +
    B * B * B * (A1 * X2 + A2 * X1 + B * (A2 * X2))"
proof -
  have "(A0 + B * A1 + B * B * A2) * (X0 + B * X1 + B * B * X2) + c =
      (A0 * X0 + c) + B * (A0 * X1 + A1 * X0) +
      B * B * (A0 * X2 + A1 * X1 + A2 * X0) + B * B * B * (A1 * X2 + A2 * X1 + B * (A2 * X2))"
    by (simp add: algebra_simps)
  moreover have "(A0 * X0 + c) + B * (A0 * X1 + A1 * X0) = y0 + B * y1 + B * B * (k2 + k1 + k3 + q1 + r1)"
    using assms by simp
  ultimately show ?thesis by (simp add: algebra_simps)
qed

lemma limbs_mod:
  assumes "u < B * B"
  shows "(u + B * B * S + B * B * B * H) mod 2 ^ 48 = u + B * B * (S mod B)"
proof -
  obtain d m where S: "S = B * d + m" and m: "S mod B = m"
    using mult_div_mod_eq [of B S] by metis
  have "u + B * B * S + B * B * B * H = (u + B * B * (S mod B)) + 2 ^ 48 * (d + H)"
    unfolding m by (simp add: S)
  moreover have "u + B * B * (S mod B) < 2 ^ 48"
  proof -
    have "S mod B \<le> B - 1" by simp
    then have "B * B * (S mod B) \<le> B * B * (B - 1)" by (intro mult_le_mono2)
    with assms show ?thesis by simp
  qed
  ultimately show ?thesis by (simp only: mod_mult_self2 mod_less)
qed

lemma rand_next_limbs:
  assumes "rand_ok s"
  shows "rand_ok (rand_next s)" and "rand_X (rand_next s) = lcg48 (rand_X s)"
proof -
  obtain p0 p1 where p: "MUL (a0 s) (x0 s) = (p0, p1)" by fastforce
  obtain y0 k0 where y0: "ADDEQU p0 (rc s) = (y0, k0)" by fastforce
  obtain p1' k1 where p1': "ADDEQU p1 k0 = (p1', k1)" by fastforce
  obtain q0 q1 where q: "MUL (a0 s) (x1 s) = (q0, q1)" by fastforce
  obtain p1'' k2 where p1'': "ADDEQU p1' q0 = (p1'', k2)" by fastforce
  obtain r0 r1 where r: "MUL (a1 s) (x0 s) = (r0, r1)" by fastforce
  obtain y1 k3 where y1: "ADDEQU p1'' r0 = (y1, k3)" by fastforce
  let ?S = "k2 + k1 + k3 + q1 + r1 + a0 s * x2 s + a1 s * x1 s + a2 s * x0 s"
  have y1': "y1 = LOW (p1'' + r0)" and k3: "k3 = CARRY p1'' r0"
    using y1 by (simp_all add: ADDEQU_def)
  have nx: "rand_next s = s\<lparr>x2 := LOW ?S, x1 := y1, x0 := LOW y0\<rparr>"
    by (simp add: rand_next_def p y0 p1' q p1'' r y1' k3)
  have ok: "unat (a0 s) < B" "unat (a1 s) < B" "unat (x0 s) < B" "unat (x1 s) < B" "unat (rc s) < B"
    using assms by (simp_all add: rand_ok_def)
  note P = unat_MUL [OF ok(1,3) p] note Q = unat_MUL [OF ok(1,4) q] note R = unat_MUL [OF ok(2,3) r]
  note Y0 = unat_ADDEQU [OF P(2) ok(5) y0]
  have "unat k0 < B" using Y0(3) by simp
  note P1 = unat_ADDEQU [OF P(3) this p1']
  note P2 = unat_ADDEQU [OF P1(2) Q(2) p1'']
  note Y1 = unat_ADDEQU [OF P2(2) R(2) y1]
  show "rand_ok (rand_next s)"
    using assms Y1(2) by (simp add: nx rand_ok_def)
  let ?SN = "unat k2 + unat k1 + unat k3 + unat q1 + unat r1 + unat (a0 s) * unat (x2 s) +
    unat (a1 s) * unat (x1 s) + unat (a2 s) * unat (x0 s)"
  have "?S = word_of_nat ?SN" by simp
  then have "unat ?S = ?SN mod 2 ^ 32" by (simp only: unat_of_nat) simp
  then have S: "unat (LOW ?S) = ?SN mod B" by (simp only: unat_LOW) (simp add: mod_mod_cancel)
  have X: "rand_X (rand_next s) = unat y0 + B * unat y1 + B * B * (?SN mod B)"
    unfolding rand_X_def nx using S Y0(2) by (simp add: unat_LOW)
  have A: "unat (a0 s) + B * unat (a1 s) + B * B * unat (a2 s) = 0x5DEECE66D" "unat (rc s) = 0xB"
    using assms by (simp_all add: rand_ok_def)
  have "0x5DEECE66D * rand_X s + 0xB = unat y0 + B * unat y1 + B * B * ?SN +
      B * B * B * (unat (a1 s) * unat (x2 s) + unat (a2 s) * unat (x1 s) +
        B * (unat (a2 s) * unat (x2 s)))"
    using limb_identity [OF P(1) Y0(1) P1(1) Q(1) P2(1) R(1) Y1(1), of "unat (a2 s)" "unat (x2 s)"]
    by (simp only: A rand_X_def)
  then have "lcg48 (rand_X s) = unat y0 + B * unat y1 + B * B * (?SN mod B)"
    unfolding lcg48_def using Y0(2) Y1(2) by (simp only:) (rule limbs_mod, simp)
  with X show "rand_X (rand_next s) = lcg48 (rand_X s)" by simp
qed

section \<open>The sequence of results\<close>

lemma redisSrand48_X:
  "rand_ok (redisSrand48 seed)" "rand_X (redisSrand48 seed) = B * unat seed + 0x330E"
proof -
  have "unat (HIGH seed) < B" using unat_u32_less [of seed] by (simp add: unat_HIGH less_mult_imp_div_less)
  then show "rand_ok (redisSrand48 seed)"
    by (simp add: redisSrand48_def rand_ok_def)
  obtain h l where "unat seed = B * h + l" "unat seed div B = h" "unat seed mod B = l"
    using mult_div_mod_eq [of B "unat seed"] by metis
  then show "rand_X (redisSrand48 seed) = B * unat seed + 0x330E"
    by (simp add: rand_X_def redisSrand48_def unat_LOW unat_HIGH)
qed

lemma lcg48_less: "lcg48 X < 2 ^ 48"
  by (simp add: lcg48_def)

text \<open>The result: the top 31 bits, never negative.\<close>

lemma redisLrand48_high:
  assumes "rand_ok s"
  shows "redisLrand48 s = (rand_next s, int (lcg48 (rand_X s) div 2 ^ 17))"
proof -
  let ?t = "rand_next s"
  have ok: "unat (x0 ?t) < B" "unat (x1 ?t) < B" "unat (x2 ?t) < B"
    using rand_next_limbs(1) [OF assms] by (simp_all add: rand_ok_def)
  let ?r = "push_bit 15 (x2 ?t) + drop_bit 1 (x1 ?t)"
  have small: "2 ^ 15 * unat (x2 ?t) + unat (x1 ?t) div 2 < 2 ^ 31" using ok by simp
  have "?r = word_of_nat (2 ^ 15 * unat (x2 ?t) + unat (x1 ?t) div 2)"
  proof -
    have "drop_bit 1 (x1 ?t) = word_of_nat (unat (x1 ?t) div 2)"
    proof -
      have "unat (x1 ?t) div 2 < 2 ^ 32" using ok by simp
      then have "unat (word_of_nat (unat (x1 ?t) div 2) :: u32) = unat (x1 ?t) div 2"
        by (simp add: unat_of_nat)
      moreover have "unat (drop_bit 1 (x1 ?t)) = drop_bit 1 (unat (x1 ?t))" by (rule unat_drop_bit_eq)
      ultimately show ?thesis
        by (simp add: word_eq_iff_unsigned [where 'a = nat] drop_bit_eq_div [where 'a = nat])
    qed
    then show ?thesis by (simp add: push_bit_eq_mult)
  qed
  then have r: "unat ?r = 2 ^ 15 * unat (x2 ?t) + unat (x1 ?t) div 2"
    using small by (simp only: unat_of_nat) simp
  have "sint ?r = int (unat ?r)" using small r by (intro sint_small) simp
  moreover have "rand_X ?t div 2 ^ 17 = 2 ^ 15 * unat (x2 ?t) + unat (x1 ?t) div 2"
  proof -
    have "rand_X ?t div B = unat (x1 ?t) + B * unat (x2 ?t)"
      using ok by (simp add: rand_X_def)
    moreover have "rand_X ?t div 2 ^ 17 = rand_X ?t div B div 2" by (simp add: div_mult2_eq)
    ultimately show ?thesis by simp
  qed
  ultimately show ?thesis
    using rand_next_limbs(2) [OF assms] r by (simp only: redisLrand48_def Let_def)
qed

fun rand_seq :: "nat \<Rightarrow> rand48 \<Rightarrow> rand48 \<times> int list" where
  "rand_seq 0 s = (s, [])"
| "rand_seq (Suc n) s =
     (let (s1, v) = redisLrand48 s; (s2, vs) = rand_seq n s1 in (s2, v # vs))"

lemma rand_seq_lcg:
  "rand_ok s \<Longrightarrow>
   snd (rand_seq n s) = map (\<lambda>i. int ((lcg48 ^^ Suc i) (rand_X s) div 2 ^ 17)) [0..<n]"
proof (induction n arbitrary: s)
  case (Suc n)
  show ?case
    using Suc.IH [of "rand_next s"] rand_next_limbs [OF Suc.prems] redisLrand48_high [OF Suc.prems]
    by (simp add: split_beta map_upt_Suc funpow_swap1 del: upt_Suc)
qed simp

section \<open>Properties\<close>

text \<open>
  C36: seeding and then drawing \<open>n\<close> numbers gives the top 31 bits of the first \<open>n\<close> states of the linear
  congruential sequence \<open>X' = (0x5DEECE66D X + 0xB) mod 2 ^ 48\<close> started at
  \<open>65536 seed + 0x330E\<close>: the arithmetic on 16-bit limbs with its hand-made carries computes that
  recurrence exactly, and no result is negative.
\<close>

theorem redisLrand48_sequence:
  "snd (rand_seq n (redisSrand48 seed)) =
     map (\<lambda>i. int ((lcg48 ^^ Suc i) (65536 * unat seed + 0x330E) div 2 ^ 17)) [0..<n]"
  by (simp add: rand_seq_lcg redisSrand48_X del: funpow.simps)

text \<open>
  \<open>next\<close> keeps every limb below \<open>2 ^ 16\<close> and the multiplier and increment as they are, and
  takes the 48-bit state one step of the recurrence further.
\<close>

lemma rand_next_step:
  assumes "rand_ok s"
  shows "rand_ok (rand_next s) \<and> rand_X (rand_next s) = (0x5DEECE66D * rand_X s + 0xB) mod 2 ^ 48"
  using rand_next_limbs [OF assms] by (simp add: lcg48_def)

lemma rand_next_step_witness:
  "rand_ok (rand_next rand_init) \<and>
   rand_X (rand_next rand_init) = (0x5DEECE66D * rand_X rand_init + 0xB) mod 2 ^ 48"
  by (rule rand_next_step) (simp add: rand_ok_def rand_init_def)

end
