(* ===== verification/Node_Store.thy ===== *)
theory Node_Store
  imports Prelude
begin

text \<open>
  Doubly linked nodes on an explicit store, shared by the models of linked structures: a store maps
  addresses to nodes with the addresses of their neighbours, \<open>linked\<close> says that a sequence of
  addresses is a chain of such nodes, and the lemmas say what becomes of a chain when one field
  of one node is written. A null pointer is \<open>None\<close>; a read or write through a pointer that is
  null or dangling makes the result \<open>None\<close>.
\<close>

record 'v node =
  n_prev :: "nat option"
  n_next :: "nat option"
  n_value :: 'v

type_synonym 'v store = "nat \<rightharpoonup> 'v node"

section \<open>Access through pointers\<close>

definition deref :: "'v store \<Rightarrow> nat option \<Rightarrow> 'v node option" where
  "deref st p = Option.bind p st"

definition set_prev :: "'v store \<Rightarrow> nat option \<Rightarrow> nat option \<Rightarrow> 'v store option" where
  "set_prev st p x = do { a \<leftarrow> p; n \<leftarrow> st a; Some (st(a \<mapsto> n\<lparr>n_prev := x\<rparr>)) }"

definition set_next :: "'v store \<Rightarrow> nat option \<Rightarrow> nat option \<Rightarrow> 'v store option" where
  "set_next st p x = do { a \<leftarrow> p; n \<leftarrow> st a; Some (st(a \<mapsto> n\<lparr>n_next := x\<rparr>)) }"

section \<open>Chains\<close>

text \<open>The first and the last address of a sequence, or what stands at its ends.\<close>

definition first_or :: "'a list \<Rightarrow> 'a option \<Rightarrow> 'a option" where
  "first_or ps x = (case ps of [] \<Rightarrow> x | p # _ \<Rightarrow> Some p)"

definition last_or :: "'a option \<Rightarrow> 'a list \<Rightarrow> 'a option" where
  "last_or x ps = (if ps = [] then x else Some (last ps))"

lemma first_or_simps [simp]:
  "first_or [] x = x" "first_or (p # ps) x = Some p"
  "first_or (ps @ qs) x = first_or ps (first_or qs x)"
  by (auto simp: first_or_def split: list.split)

lemma last_or_simps [simp]:
  "last_or x [] = x" "last_or x (p # ps) = last_or (Some p) ps"
  "last_or x (ps @ qs) = last_or (last_or x ps) qs"
  by (auto simp: last_or_def)

lemma first_or_None: "first_or ps None = None \<longleftrightarrow> ps = []"
  by (cases ps) simp_all

lemma last_or_None: "last_or None ps = None \<longleftrightarrow> ps = []"
  by (simp add: last_or_def)

lemma first_or_SomeD: "first_or ps x = Some p \<Longrightarrow> x = Some p \<or> p \<in> set ps"
  by (cases ps) simp_all

lemma last_or_SomeD: "last_or x ps = Some p \<Longrightarrow> x = Some p \<or> p \<in> set ps"
  by (auto simp: last_or_def split: if_splits)

text \<open>\<open>linked st pr ps nx\<close>: the nodes at \<open>ps\<close> point to each other, and at the ends to \<open>pr\<close> and \<open>nx\<close>.\<close>

fun linked :: "'v store \<Rightarrow> nat option \<Rightarrow> nat list \<Rightarrow> nat option \<Rightarrow> bool" where
  "linked st pr [] nx = True"
| "linked st pr (p # ps) nx =
     ((case st p of None \<Rightarrow> False | Some n \<Rightarrow> n_prev n = pr \<and> n_next n = first_or ps nx) \<and>
      linked st (Some p) ps nx)"

definition values_at :: "'v store \<Rightarrow> nat list \<Rightarrow> 'v list" where
  "values_at st ps = map (\<lambda>p. n_value (the (st p))) ps"

lemma values_at_simps [simp]:
  "values_at st [] = []" "values_at st (p # ps) = n_value (the (st p)) # values_at st ps"
  "values_at st (ps @ qs) = values_at st ps @ values_at st qs"
  "length (values_at st ps) = length ps"
  by (simp_all add: values_at_def)

lemma linked_append:
  "linked st pr (ps @ qs) nx \<longleftrightarrow>
     linked st pr ps (first_or qs nx) \<and> linked st (last_or pr ps) qs nx"
  by (induction ps arbitrary: pr) (auto split: option.splits)

lemma linked_dom: "linked st pr ps nx \<Longrightarrow> p \<in> set ps \<Longrightarrow> \<exists>n. st p = Some n"
  by (induction ps arbitrary: pr) (auto split: option.splits)

text \<open>What is written outside a chain leaves it alone.\<close>

lemma linked_frame [simp]: "p \<notin> set ps \<Longrightarrow> linked (st(p := x)) pr ps nx = linked st pr ps nx"
  by (induction ps arbitrary: pr) auto

lemma values_frame [simp]: "p \<notin> set ps \<Longrightarrow> values_at (st(p := x)) ps = values_at st ps"
  by (auto simp: values_at_def)

lemma linked_cong: "(\<And>p. p \<in> set ps \<Longrightarrow> st p = st' p) \<Longrightarrow> linked st pr ps nx = linked st' pr ps nx"
  by (induction ps arbitrary: pr) auto

lemma values_cong: "(\<And>p. p \<in> set ps \<Longrightarrow> st p = st' p) \<Longrightarrow> values_at st ps = values_at st' ps"
  by (auto simp: values_at_def)

text \<open>A node of a chain, and the writes to it.\<close>

lemma linked_nodeE:
  assumes "linked st pr (ps @ p # qs) nx"
  obtains n where "st p = Some n" "n_prev n = last_or pr ps" "n_next n = first_or qs nx"
  using assms by (auto simp: linked_append split: option.splits)

lemma set_prev_Some: "st p = Some n \<Longrightarrow> set_prev st (Some p) x = Some (st(p \<mapsto> n\<lparr>n_prev := x\<rparr>))"
  by (simp add: set_prev_def)

lemma set_next_Some: "st p = Some n \<Longrightarrow> set_next st (Some p) x = Some (st(p \<mapsto> n\<lparr>n_next := x\<rparr>))"
  by (simp add: set_next_def)

lemma deref_simps [simp]: "deref st None = None" "deref st (Some p) = st p"
  by (simp_all add: deref_def)

text \<open>Whether the neighbours of \<open>p\<close> exist or not, chains around \<open>p\<close> that are relinked stay chains.\<close>

lemma relink_next:
  assumes "linked st pr ps nx" "distinct ps"
  shows "\<exists>st'. (case last_or None ps of None \<Rightarrow> Some st | Some q \<Rightarrow> set_next st (Some q) x) = Some st' \<and>
           linked st' pr ps x \<and> values_at st' ps = values_at st ps \<and>
           (\<forall>a. a \<notin> set ps \<longrightarrow> st' a = st a)"
proof (cases ps rule: rev_cases)
  case (snoc qs q)
  obtain n where n: "st q = Some n" using assms(1) by (auto simp: snoc elim: linked_nodeE)
  with assms show ?thesis
    by (intro exI [of _ "st(q \<mapsto> n\<lparr>n_next := x\<rparr>)"])
      (auto simp: snoc set_next_Some linked_append)
qed simp

lemma relink_prev:
  assumes "linked st pr ps nx" "distinct ps"
  shows "\<exists>st'. (case first_or ps None of None \<Rightarrow> Some st | Some q \<Rightarrow> set_prev st (Some q) x) = Some st' \<and>
           linked st' x ps nx \<and> values_at st' ps = values_at st ps \<and>
           (\<forall>a. a \<notin> set ps \<longrightarrow> st' a = st a)"
proof (cases ps)
  case (Cons q qs)
  obtain n where n: "st q = Some n" using assms(1) by (auto simp: Cons split: option.splits)
  with assms show ?thesis
    by (intro exI [of _ "st(q \<mapsto> n\<lparr>n_prev := x\<rparr>)"]) (auto simp: Cons set_prev_Some)
qed simp

end
