(* ===== verification/Adlist.thy ===== *)
theory Adlist
  imports Node_Store
begin

text \<open>
  The doubly linked list of \<^verbatim>\<open>util/adlist.c\<close> on an explicit store of nodes. The \<open>list\<close> structure
  is a record passed and returned; \<open>malloc\<close> for a node is a parameter, a function from the store to an
  address or NULL, of which the theorems only use that the address is not in use. The method
  pointers \<open>dup\<close>, \<open>free\<close> and \<open>match\<close> are functions, for \<open>free\<close> a flag: the operations return the
  values passed to it. The key of a search has the type of the values. The memory of an iterator,
  which no caller checks, is available.
\<close>

section \<open>Data\<close>

record 'v alist =
  al_head :: "nat option"
  al_tail :: "nat option"
  al_dup :: "('v \<Rightarrow> 'v option) option"
  al_free :: bool
  al_match :: "('v \<Rightarrow> 'v \<Rightarrow> bool) option"
  al_len :: nat

datatype al_direction = AL_START_HEAD | AL_START_TAIL

record listIter =
  li_next :: "nat option"
  li_direction :: al_direction

definition listLength :: "'v alist \<Rightarrow> nat" where
  "listLength l = al_len l"

definition listFirst :: "'v alist \<Rightarrow> nat option" where
  "listFirst l = al_head l"

definition listLast :: "'v alist \<Rightarrow> nat option" where
  "listLast l = al_tail l"

definition listSetDupMethod :: "'v alist \<Rightarrow> ('v \<Rightarrow> 'v option) option \<Rightarrow> 'v alist" where
  "listSetDupMethod l m = l\<lparr>al_dup := m\<rparr>"

definition listSetFreeMethod :: "'v alist \<Rightarrow> bool \<Rightarrow> 'v alist" where
  "listSetFreeMethod l m = l\<lparr>al_free := m\<rparr>"

definition listSetMatchMethod :: "'v alist \<Rightarrow> ('v \<Rightarrow> 'v \<Rightarrow> bool) option \<Rightarrow> 'v alist" where
  "listSetMatchMethod l m = l\<lparr>al_match := m\<rparr>"

section \<open>Operations\<close>

text \<open>\<open>mem\<close> says whether \<open>malloc\<close> has room for the list structure.\<close>

definition alist_empty :: "'v alist" where
  "alist_empty = \<lparr>al_head = None, al_tail = None, al_dup = None, al_free = False, al_match = None,
     al_len = 0\<rparr>"

definition listCreate :: "bool \<Rightarrow> 'v alist option" where
  "listCreate mem = (if mem then Some alist_empty else None)"

text \<open>The loop of \<open>listRelease\<close>: the store afterwards and the values passed to \<open>free\<close>.\<close>

fun release_loop ::
  "bool \<Rightarrow> 'v store \<Rightarrow> nat option \<Rightarrow> nat \<Rightarrow> ('v store \<times> 'v list) option" where
  "release_loop fr st current 0 = Some (st, [])"
| "release_loop fr st current (Suc len) = do {
     a \<leftarrow> current;
     n \<leftarrow> st a;
     (st', freed) \<leftarrow> release_loop fr (st(a := None)) (n_next n) len;
     Some (st', (if fr then [n_value n] else []) @ freed)
   }"

definition listRelease :: "'v store \<Rightarrow> 'v alist \<Rightarrow> ('v store \<times> 'v list) option" where
  "listRelease st l = release_loop (al_free l) st (al_head l) (al_len l)"

text \<open>The last component says whether the list (and not NULL) is returned.\<close>

definition listAddNodeHead ::
  "('v store \<Rightarrow> nat option) \<Rightarrow> 'v store \<Rightarrow> 'v alist \<Rightarrow> 'v \<Rightarrow> ('v store \<times> 'v alist \<times> bool) option" where
  "listAddNodeHead malloc st l value =
     (case malloc st of
        None \<Rightarrow> Some (st, l, False)
      | Some node \<Rightarrow>
          if al_len l = 0
          then Some (st(node \<mapsto> \<lparr>n_prev = None, n_next = None, n_value = value\<rparr>),
                     l\<lparr>al_head := Some node, al_tail := Some node, al_len := al_len l + 1\<rparr>, True)
          else do {
            st1 \<leftarrow> set_prev (st(node \<mapsto> \<lparr>n_prev = None, n_next = al_head l, n_value = value\<rparr>))
                     (al_head l) (Some node);
            Some (st1, l\<lparr>al_head := Some node, al_len := al_len l + 1\<rparr>, True)
          })"

definition listAddNodeTail ::
  "('v store \<Rightarrow> nat option) \<Rightarrow> 'v store \<Rightarrow> 'v alist \<Rightarrow> 'v \<Rightarrow> ('v store \<times> 'v alist \<times> bool) option" where
  "listAddNodeTail malloc st l value =
     (case malloc st of
        None \<Rightarrow> Some (st, l, False)
      | Some node \<Rightarrow>
          if al_len l = 0
          then Some (st(node \<mapsto> \<lparr>n_prev = None, n_next = None, n_value = value\<rparr>),
                     l\<lparr>al_head := Some node, al_tail := Some node, al_len := al_len l + 1\<rparr>, True)
          else do {
            st1 \<leftarrow> set_next (st(node \<mapsto> \<lparr>n_prev = al_tail l, n_next = None, n_value = value\<rparr>))
                     (al_tail l) (Some node);
            Some (st1, l\<lparr>al_tail := Some node, al_len := al_len l + 1\<rparr>, True)
          })"

definition listInsertNode ::
  "('v store \<Rightarrow> nat option) \<Rightarrow> 'v store \<Rightarrow> 'v alist \<Rightarrow> nat \<Rightarrow> 'v \<Rightarrow> bool \<Rightarrow>
     ('v store \<times> 'v alist \<times> bool) option" where
  "listInsertNode malloc st l old_node value after =
     (case malloc st of
        None \<Rightarrow> Some (st, l, False)
      | Some node \<Rightarrow> do {
          old \<leftarrow> st old_node;
          let n = (if after
                   then \<lparr>n_prev = Some old_node, n_next = n_next old, n_value = value\<rparr>
                   else \<lparr>n_prev = n_prev old, n_next = Some old_node, n_value = value\<rparr>) in
          let l1 = (if after
                    then (if al_tail l = Some old_node then l\<lparr>al_tail := Some node\<rparr> else l)
                    else (if al_head l = Some old_node then l\<lparr>al_head := Some node\<rparr> else l)) in do {
            st1 \<leftarrow> (case n_prev n of
                      None \<Rightarrow> Some (st(node \<mapsto> n))
                    | Some q \<Rightarrow> set_next (st(node \<mapsto> n)) (Some q) (Some node));
            st2 \<leftarrow> (case n_next n of
                      None \<Rightarrow> Some st1
                    | Some q \<Rightarrow> set_prev st1 (Some q) (Some node));
            Some (st2, l1\<lparr>al_len := al_len l1 + 1\<rparr>, True)
          }
        })"

definition listDelNode ::
  "'v store \<Rightarrow> 'v alist \<Rightarrow> nat \<Rightarrow> ('v store \<times> 'v alist \<times> 'v list) option" where
  "listDelNode st l node = do {
     n \<leftarrow> st node;
     (st1, l1) \<leftarrow> (case n_prev n of
        Some q \<Rightarrow> map_option (\<lambda>s. (s, l)) (set_next st (Some q) (n_next n))
      | None \<Rightarrow> Some (st, l\<lparr>al_head := n_next n\<rparr>));
     n1 \<leftarrow> st1 node;
     (st2, l2) \<leftarrow> (case n_next n1 of
        Some q \<Rightarrow> map_option (\<lambda>s. (s, l1)) (set_prev st1 (Some q) (n_prev n1))
      | None \<Rightarrow> Some (st1, l1\<lparr>al_tail := n_prev n1\<rparr>));
     n2 \<leftarrow> st2 node;
     Some (st2(node := None), l2\<lparr>al_len := al_len l2 - 1\<rparr>, if al_free l2 then [n_value n2] else [])
   }"

definition listGetIterator :: "'v alist \<Rightarrow> al_direction \<Rightarrow> listIter" where
  "listGetIterator l direction =
     \<lparr>li_next = (if direction = AL_START_HEAD then al_head l else al_tail l), li_direction = direction\<rparr>"

definition listRewind :: "'v alist \<Rightarrow> listIter" where
  "listRewind l = \<lparr>li_next = al_head l, li_direction = AL_START_HEAD\<rparr>"

definition listRewindTail :: "'v alist \<Rightarrow> listIter" where
  "listRewindTail l = \<lparr>li_next = al_tail l, li_direction = AL_START_TAIL\<rparr>"

definition listNext :: "'v store \<Rightarrow> listIter \<Rightarrow> (listIter \<times> nat option) option" where
  "listNext st iter =
     (case li_next iter of
        None \<Rightarrow> Some (iter, None)
      | Some current \<Rightarrow> do {
          n \<leftarrow> st current;
          Some (iter\<lparr>li_next := (if li_direction iter = AL_START_HEAD then n_next n else n_prev n)\<rparr>,
                Some current)
        })"

text \<open>The loops over an iterator; \<open>None\<close> also stands for a loop that does not end.\<close>

partial_function (option) dup_loop ::
  "('v store \<Rightarrow> nat option) \<Rightarrow> 'v store \<Rightarrow> 'v alist \<Rightarrow> listIter \<Rightarrow>
     ('v store \<times> 'v alist option \<times> 'v list) option" where
  "dup_loop malloc st copy iter = do {
     (iter', node) \<leftarrow> listNext st iter;
     (case node of
        None \<Rightarrow> Some (st, Some copy, [])
      | Some a \<Rightarrow> do {
          n \<leftarrow> st a;
          (case (case al_dup copy of Some f \<Rightarrow> f (n_value n) | None \<Rightarrow> Some (n_value n)) of
             None \<Rightarrow> do { (st', freed) \<leftarrow> listRelease st copy; Some (st', None, freed) }
           | Some value \<Rightarrow> do {
               (st1, copy1, ok) \<leftarrow> listAddNodeTail malloc st copy value;
               if ok then dup_loop malloc st1 copy1 iter'
               else do { (st', freed) \<leftarrow> listRelease st1 copy1; Some (st', None, freed) }
             })
        })
   }"

definition listDup ::
  "('v store \<Rightarrow> nat option) \<Rightarrow> bool \<Rightarrow> 'v store \<Rightarrow> 'v alist \<Rightarrow>
     ('v store \<times> 'v alist option \<times> 'v list) option" where
  "listDup malloc mem st orig =
     (case listCreate mem of
        None \<Rightarrow> Some (st, None, [])
      | Some copy \<Rightarrow>
          dup_loop malloc st
            (copy\<lparr>al_dup := al_dup orig, al_free := al_free orig, al_match := al_match orig\<rparr>)
            (listGetIterator orig AL_START_HEAD))"

definition al_matches :: "'v alist \<Rightarrow> 'v \<Rightarrow> 'v \<Rightarrow> bool" where
  "al_matches l value key = (case al_match l of Some f \<Rightarrow> f value key | None \<Rightarrow> key = value)"

partial_function (option) search_loop ::
  "'v store \<Rightarrow> 'v alist \<Rightarrow> 'v \<Rightarrow> listIter \<Rightarrow> nat option option" where
  "search_loop st l key iter = do {
     (iter', node) \<leftarrow> listNext st iter;
     (case node of
        None \<Rightarrow> Some None
      | Some a \<Rightarrow> do {
          n \<leftarrow> st a;
          if al_matches l (n_value n) key then Some (Some a) else search_loop st l key iter'
        })
   }"

definition listSearchKey :: "'v store \<Rightarrow> 'v alist \<Rightarrow> 'v \<Rightarrow> nat option option" where
  "listSearchKey st l key = search_loop st l key (listGetIterator l AL_START_HEAD)"

text \<open>\<open>while (index-- && n)\<close>, forwards or backwards.\<close>

fun index_walk :: "bool \<Rightarrow> 'v store \<Rightarrow> nat \<Rightarrow> nat option \<Rightarrow> nat option option" where
  "index_walk forward st 0 n = Some n"
| "index_walk forward st (Suc index) None = Some None"
| "index_walk forward st (Suc index) (Some a) = do {
     nd \<leftarrow> st a;
     index_walk forward st index (if forward then n_next nd else n_prev nd)
   }"

text \<open>Negating the least \<open>long\<close> overflows.\<close>

definition listIndex :: "'v store \<Rightarrow> 'v alist \<Rightarrow> int \<Rightarrow> nat option option" where
  "listIndex st l index =
     (if index \<le> - (2 ^ 63) then None
      else if index < 0 then index_walk False st (nat (- index - 1)) (al_tail l)
      else index_walk True st (nat index) (al_head l))"

definition listRotate :: "'v store \<Rightarrow> 'v alist \<Rightarrow> ('v store \<times> 'v alist) option" where
  "listRotate st l =
     (if listLength l \<le> 1 then Some (st, l)
      else do {
        tail \<leftarrow> al_tail l;
        n \<leftarrow> st tail;
        st1 \<leftarrow> set_next st (n_prev n) None;
        st2 \<leftarrow> set_prev st1 (al_head l) (Some tail);
        st3 \<leftarrow> set_prev st2 (Some tail) None;
        st4 \<leftarrow> set_next st3 (Some tail) (al_head l);
        Some (st4, l\<lparr>al_tail := n_prev n, al_head := Some tail\<rparr>)
      })"

section \<open>Invariant\<close>

definition al_inv :: "'v store \<Rightarrow> 'v alist \<Rightarrow> nat list \<Rightarrow> bool" where
  "al_inv st l ps \<longleftrightarrow>
     distinct ps \<and> linked st None ps None \<and> al_head l = first_or ps None \<and>
     al_tail l = last_or None ps \<and> al_len l = length ps"

definition same_methods :: "'v alist \<Rightarrow> 'v alist \<Rightarrow> bool" where
  "same_methods l l' \<longleftrightarrow> al_dup l' = al_dup l \<and> al_free l' = al_free l \<and> al_match l' = al_match l"

definition malloc_fresh :: "('v store \<Rightarrow> nat option) \<Rightarrow> bool" where
  "malloc_fresh malloc \<longleftrightarrow> (\<forall>st p. malloc st = Some p \<longrightarrow> st p = None)"

lemma al_inv_fresh: "al_inv st l ps \<Longrightarrow> malloc_fresh malloc \<Longrightarrow> malloc st = Some p \<Longrightarrow> p \<notin> set ps"
  using linked_dom [of st None ps None p] by (metis al_inv_def malloc_fresh_def option.distinct(1))

lemma listCreate_inv: "listCreate mem = Some l \<Longrightarrow> al_inv st l []"
  by (auto simp: al_inv_def listCreate_def alist_empty_def split: if_splits)

lemma listAddNodeHead_ok:
  assumes inv: "al_inv st l ps" and p: "malloc st = Some p" "p \<notin> set ps"
  shows "\<exists>st' l'. listAddNodeHead malloc st l v = Some (st', l', True) \<and> al_inv st' l' (p # ps) \<and>
           values_at st' (p # ps) = v # values_at st ps \<and> same_methods l l' \<and>
           (\<forall>a. a \<notin> set (p # ps) \<longrightarrow> st' a = st a)"
proof (cases ps)
  case Nil
  with inv p show ?thesis
    by (auto simp: listAddNodeHead_def al_inv_def same_methods_def)
next
  case (Cons q qs)
  obtain n where n: "st q = Some n" using inv by (auto simp: al_inv_def Cons split: option.splits)
  with Cons inv p show ?thesis
    by (auto simp: listAddNodeHead_def al_inv_def same_methods_def set_prev_Some)
qed

lemma listAddNodeTail_ok:
  assumes inv: "al_inv st l ps" and p: "malloc st = Some p" "p \<notin> set ps"
  shows "\<exists>st' l'. listAddNodeTail malloc st l v = Some (st', l', True) \<and> al_inv st' l' (ps @ [p]) \<and>
           values_at st' (ps @ [p]) = values_at st ps @ [v] \<and> same_methods l l' \<and>
           (\<forall>a. a \<notin> set (p # ps) \<longrightarrow> st' a = st a)"
proof (cases ps rule: rev_cases)
  case Nil
  with inv p show ?thesis
    by (auto simp: listAddNodeTail_def al_inv_def same_methods_def)
next
  case (snoc qs q)
  obtain n where n: "st q = Some n"
    using inv by (auto simp: al_inv_def snoc elim: linked_nodeE)
  with snoc inv p show ?thesis
    by (auto simp: listAddNodeTail_def al_inv_def same_methods_def set_next_Some linked_append)
qed


text \<open>The neighbours of a position in a list: none, or the last before and the first after.\<close>

lemma linked_around:
  assumes "linked st None (as @ q # bs) None" "distinct (as @ q # bs)"
  obtains n where "st q = Some n" "n_prev n = last_or None as" "n_next n = first_or bs None"
    "linked st None as (Some q)" "linked st (Some q) bs None"
  using assms by (auto simp: linked_append split: option.splits)

lemma listInsertNode_ok:
  assumes inv: "al_inv st l (as @ q # bs)" and p: "malloc st = Some p" "p \<notin> set (as @ q # bs)"
  shows "\<exists>st' l'. listInsertNode malloc st l q v after = Some (st', l', True) \<and>
           (let as' = (if after then as @ [q] else as); bs' = (if after then bs else q # bs) in
            al_inv st' l' (as' @ p # bs') \<and>
            values_at st' (as' @ p # bs') = values_at st as' @ v # values_at st bs') \<and>
           same_methods l l' \<and> (\<forall>a. a \<notin> set (p # as @ q # bs) \<longrightarrow> st' a = st a)"
proof -
  have d: "distinct (as @ q # bs)" "linked st None (as @ q # bs) None"
    using inv by (simp_all add: al_inv_def)
  obtain n where n: "st q = Some n" "n_prev n = last_or None as" "n_next n = first_or bs None"
    "linked st None as (Some q)" "linked st (Some q) bs None"
    using linked_around [OF d(2,1)] by blast
  show ?thesis
  proof (cases after)
    case True
    show ?thesis
    proof (cases bs)
      case Nil
      with True inv p d n show ?thesis
        by (auto simp: listInsertNode_def al_inv_def same_methods_def set_next_Some linked_append Let_def)
    next
      case (Cons r cs)
      obtain m where "st r = Some m" using n(5) by (auto simp: Cons split: option.splits)
      with Cons True inv p d n show ?thesis
        by (auto simp: listInsertNode_def al_inv_def same_methods_def set_next_Some set_prev_Some
            linked_append Let_def dest!: first_or_SomeD last_or_SomeD)
    qed
  next
    case False
    show ?thesis
    proof (cases as rule: rev_cases)
      case Nil
      with False inv p d n show ?thesis
        by (auto simp: listInsertNode_def al_inv_def same_methods_def set_prev_Some linked_append Let_def)
    next
      case (snoc cs r)
      obtain m where "st r = Some m" using n(4) by (auto simp: snoc elim: linked_nodeE)
      with snoc False inv p d n show ?thesis
        by (auto simp: listInsertNode_def al_inv_def same_methods_def set_next_Some set_prev_Some
            linked_append Let_def dest!: first_or_SomeD last_or_SomeD)
    qed
  qed
qed

lemma listDelNode_ok:
  assumes inv: "al_inv st l (as @ q # bs)"
  shows "\<exists>st' l'. listDelNode st l q =
             Some (st', l', if al_free l then [n_value (the (st q))] else []) \<and>
           al_inv st' l' (as @ bs) \<and> values_at st' (as @ bs) = values_at st as @ values_at st bs \<and>
           st' q = None \<and> same_methods l l' \<and> (\<forall>a. a \<notin> set (as @ q # bs) \<longrightarrow> st' a = st a)"
proof -
  have d: "distinct (as @ q # bs)" "linked st None (as @ q # bs) None"
    using inv by (simp_all add: al_inv_def)
  obtain n where n: "st q = Some n" "n_prev n = last_or None as" "n_next n = first_or bs None"
    "linked st None as (Some q)" "linked st (Some q) bs None"
    using linked_around [OF d(2,1)] by blast
  note defs = listDelNode_def al_inv_def same_methods_def set_next_Some set_prev_Some linked_append
  show ?thesis
  proof (cases as rule: rev_cases)
    case Nil
    then show ?thesis
    proof (cases bs)
      case (Cons r cs)
      obtain m where "st r = Some m" using n(5) by (auto simp: Cons split: option.splits)
      with Cons Nil inv d n show ?thesis by (auto simp: defs)
    qed (use Nil inv d n in \<open>auto simp: defs\<close>)
  next
    case (snoc cs r)
    obtain m where m: "st r = Some m" using n(4) by (auto simp: snoc elim: linked_nodeE)
    then show ?thesis
    proof (cases bs)
      case (Cons s ds)
      obtain k where "st s = Some k" using n(5) by (auto simp: Cons split: option.splits)
      with Cons snoc inv d n m show ?thesis by (auto simp: defs)
    qed (use snoc inv d n m in \<open>auto simp: defs\<close>)
  qed
qed

text \<open>The store without the nodes of a list.\<close>

definition without :: "'v store \<Rightarrow> nat list \<Rightarrow> 'v store" where
  "without st ps = (\<lambda>a. if a \<in> set ps then None else st a)"

lemma without_simps [simp]: "without st [] = st" "without (st(p := None)) ps = without st (p # ps)"
  by (auto simp: without_def fun_eq_iff)

lemma release_loop_ok:
  assumes "linked st pr ps None" "distinct ps"
  shows "release_loop fr st (first_or ps None) (length ps) =
           Some (without st ps, if fr then values_at st ps else [])"
  using assms
proof (induction ps arbitrary: st pr)
  case (Cons p ps)
  obtain n where n: "st p = Some n" "n_next n = first_or ps None" "linked st (Some p) ps None"
    using Cons.prems by (auto split: option.splits)
  have "linked (st(p := None)) (Some p) ps None" using n(3) Cons.prems by simp
  from Cons.IH [OF this] Cons.prems
  have "release_loop fr (st(p := None)) (n_next n) (length ps) =
      Some (without st (p # ps), if fr then values_at st ps else [])"
    by (simp only: without_simps distinct.simps values_frame n(2) simp_thms)
  with n(1) show ?case by simp
qed simp

lemma listRelease_ok:
  assumes "al_inv st l ps"
  shows "listRelease st l =
           Some (without st ps, if al_free l then values_at st ps else [])"
  using assms release_loop_ok [of st None ps] by (simp add: listRelease_def al_inv_def)

section \<open>Walking\<close>

text \<open>An iterator is at a position of the list: what is still to come, in its direction.\<close>

lemma listNext_head:
  assumes "al_inv st l (as @ bs)"
    and "li_next it = first_or bs None" "li_direction it = AL_START_HEAD"
  shows "listNext st it = Some (it\<lparr>li_next := first_or (tl bs) None\<rparr>, first_or bs None)"
  using assms by (cases bs) (auto simp: listNext_def al_inv_def linked_append split: option.splits)

lemma search_loop_ok:
  assumes inv: "al_inv st l (as @ bs)"
    and it: "li_next it = first_or bs None" "li_direction it = AL_START_HEAD"
  shows "search_loop st l key it =
           Some (List.find (\<lambda>a. al_matches l (n_value (the (st a))) key) bs)"
  using inv it
proof (induction bs arbitrary: as it)
  case Nil
  then show ?case
    by (subst search_loop.simps) (simp add: listNext_head [of st l as "[]"])
next
  case (Cons b bs)
  obtain n where n: "st b = Some n"
    using Cons.prems(1) by (auto simp: al_inv_def elim: linked_nodeE)
  have "al_inv st l ((as @ [b]) @ bs)" using Cons.prems(1) by simp
  from Cons.IH [OF this] Cons.prems n show ?case
    by (subst search_loop.simps) (simp add: listNext_head [of st l as "b # bs"])
qed

lemma listSearchKey_ok:
  assumes "al_inv st l ps"
  shows "listSearchKey st l key = Some (List.find (\<lambda>a. al_matches l (n_value (the (st a))) key) ps)"
proof -
  have "al_inv st l ([] @ ps)" using assms by simp
  from search_loop_ok [OF this] assms show ?thesis
    by (simp add: listSearchKey_def listGetIterator_def al_inv_def)
qed

lemma index_walk_forward:
  assumes "linked st pr ps None"
  shows "index_walk True st k (first_or ps None) = Some (if k < length ps then Some (ps ! k) else None)"
  using assms
proof (induction ps arbitrary: pr k)
  case Nil
  then show ?case by (cases k) simp_all
next
  case (Cons p ps)
  then show ?case by (cases k) (auto split: option.splits)
qed

lemma index_walk_backward:
  assumes "linked st None ps nx"
  shows "index_walk False st k (last_or None ps) =
           Some (if k < length ps then Some (ps ! (length ps - 1 - k)) else None)"
  using assms
proof (induction ps arbitrary: nx k rule: rev_induct)
  case Nil
  then show ?case by (cases k) simp_all
next
  case (snoc p ps)
  then show ?case by (cases k) (auto simp: linked_append nth_append split: option.splits)
qed

lemma listRotate_ok:
  assumes inv: "al_inv st l (ps @ [p])"
  shows "\<exists>st' l'. listRotate st l = Some (st', l') \<and> al_inv st' l' (p # ps) \<and>
           values_at st' (p # ps) = n_value (the (st p)) # values_at st ps \<and> same_methods l l' \<and>
           (\<forall>a. a \<notin> set (ps @ [p]) \<longrightarrow> st' a = st a)"
proof (cases ps)
  case Nil
  with inv show ?thesis by (auto simp: listRotate_def al_inv_def listLength_def same_methods_def)
next
  case (Cons q qs)
  obtain n where n: "st p = Some n" using inv by (auto simp: al_inv_def elim: linked_nodeE)
  obtain m where m: "st q = Some m" using inv by (auto simp: al_inv_def Cons split: option.splits)
  note defs = listRotate_def al_inv_def listLength_def same_methods_def linked_append set_next_def set_prev_def
  show ?thesis
  proof (cases qs rule: rev_cases)
    case Nil
    with Cons inv n m show ?thesis by (auto simp: defs)
  next
    case (snoc rs r)
    obtain k where "st r = Some k"
      using inv by (auto simp: al_inv_def Cons snoc linked_append split: option.splits)
    with Cons snoc inv n m show ?thesis by (auto simp: defs)
  qed
qed

section \<open>Copying\<close>

definition al_copy_value :: "'v alist \<Rightarrow> 'v \<Rightarrow> 'v option" where
  "al_copy_value l v = (case al_dup l of Some f \<Rightarrow> f v | None \<Rightarrow> Some v)"

lemma al_inv_cong:
  "(\<And>a. a \<in> set ps \<Longrightarrow> st' a = st a) \<Longrightarrow> al_inv st' l ps = al_inv st l ps"
  using linked_cong [of ps st' st None None] by (simp add: al_inv_def)

lemma without_append_fresh:
  "st p = None \<Longrightarrow> (\<And>a. a \<noteq> p \<Longrightarrow> st' a = (st a :: 'v node option) \<or> a \<in> set qs) \<Longrightarrow>
   without st' (qs @ [p]) = without st qs"
  by (auto simp: without_def fun_eq_iff)

text \<open>
  The allocator fails at some store that differs from \<open>st\<close> at most at \<open>qs\<close> and fewer than \<open>n\<close> more
  addresses.
\<close>

definition starved :: "('v store \<Rightarrow> nat option) \<Rightarrow> 'v store \<Rightarrow> nat list \<Rightarrow> nat \<Rightarrow> bool" where
  "starved malloc st qs n \<longleftrightarrow>
     (\<exists>s rs. malloc s = None \<and> length rs < n \<and> (\<forall>a. a \<notin> set (qs @ rs) \<longrightarrow> s a = st a))"

lemma starved_now: "malloc st = None \<Longrightarrow> starved malloc st qs (Suc n)"
  unfolding starved_def by (intro exI [of _ st] exI [of _ "[]"]) simp

lemma starved_step:
  assumes "starved malloc st1 (qs @ [p]) n" "\<forall>a. a \<notin> set (p # qs) \<longrightarrow> st1 a = st a"
  shows "starved malloc st qs (Suc n)"
proof -
  obtain s rs where "malloc s = None" "length rs < n" "\<forall>a. a \<notin> set ((qs @ [p]) @ rs) \<longrightarrow> s a = st1 a"
    using assms(1) by (auto simp: starved_def)
  with assms(2) show ?thesis
    unfolding starved_def by (intro exI [of _ s] exI [of _ "p # rs"]) auto
qed

text \<open>
  What the copying loop gives for the elements \<open>bs\<close> that are left, with copies of the earlier ones at \<open>qs\<close>: copies of all,
  or nothing when a value cannot be copied or memory runs out.
\<close>

definition dup_done ::
  "('v store \<Rightarrow> nat option) \<Rightarrow> 'v store \<Rightarrow> 'v alist \<Rightarrow> nat list \<Rightarrow> nat list \<Rightarrow>
     ('v store \<times> 'v alist option \<times> 'v list) option \<Rightarrow> bool" where
  "dup_done malloc st copy qs bs r \<longleftrightarrow>
     (\<exists>st' copy' rs vs. r = Some (st', Some copy', []) \<and>
        al_inv st' copy' (qs @ rs) \<and> same_methods copy copy' \<and>
        those (map (al_copy_value copy) (values_at st bs)) = Some vs \<and>
        values_at st' (qs @ rs) = values_at st qs @ vs \<and>
        (\<forall>a \<in> set rs. st a = None) \<and> (\<forall>a. a \<notin> set (qs @ rs) \<longrightarrow> st' a = st a)) \<or>
     (\<exists>freed. r = Some (without st qs, None, freed)) \<and>
     (those (map (al_copy_value copy) (values_at st bs)) = None \<or> starved malloc st qs (length bs))"

lemma dup_done_Cons:
  assumes n: "st b = Some n" "al_copy_value copy (n_value n) = Some v"
    and fresh: "malloc st = Some p" "st p = None" "p \<notin> set bs"
    and c1: "values_at st1 (qs @ [p]) = values_at st qs @ [v]" "same_methods copy copy1"
      "\<forall>a. a \<notin> set (p # qs) \<longrightarrow> st1 a = st a" "\<forall>a \<in> set bs. a \<notin> set qs"
    and rest: "dup_done malloc st1 copy1 (qs @ [p]) bs r"
  shows "dup_done malloc st copy qs (b # bs) r"
proof -
  have cv: "al_copy_value copy1 = al_copy_value copy"
    using c1(2) by (simp add: al_copy_value_def same_methods_def fun_eq_iff)
  have vals: "values_at st1 bs = values_at st bs"
    using fresh(3) c1(3,4) by (intro values_cong) auto
  have w: "without st1 (qs @ [p]) = without st qs"
    using fresh(2) c1(3) by (intro without_append_fresh) auto
  from rest consider (ok) st' copy' rs vs where "r = Some (st', Some copy', [])"
      "al_inv st' copy' ((qs @ [p]) @ rs)" "same_methods copy1 copy'"
      "those (map (al_copy_value copy) (values_at st bs)) = Some vs"
      "values_at st' ((qs @ [p]) @ rs) = values_at st1 (qs @ [p]) @ vs"
      "\<forall>a \<in> set rs. st1 a = None" "\<forall>a. a \<notin> set ((qs @ [p]) @ rs) \<longrightarrow> st' a = st1 a"
    | (fail) freed where "r = Some (without st qs, None, freed)"
        "those (map (al_copy_value copy) (values_at st bs)) = None \<or> starved malloc st1 (qs @ [p]) (length bs)"
    unfolding dup_done_def cv vals w by blast
  then show ?thesis
  proof cases
    case ok
    have "p \<notin> set rs" "set qs \<inter> set rs = {}" using ok(2) by (auto simp: al_inv_def)
    then have "\<forall>a \<in> set (p # rs). st a = None" using ok(6) fresh(2) c1(3) by auto
    moreover have "\<forall>a. a \<notin> set (qs @ p # rs) \<longrightarrow> st' a = st a" using ok(7) c1(3) by auto
    moreover have "same_methods copy copy'" using c1(2) ok(3) by (simp add: same_methods_def)
    ultimately show ?thesis
      using ok(1,2,4,5) c1(1) n unfolding dup_done_def
      by (intro disjI1 exI [of _ st'] exI [of _ copy'] exI [of _ "p # rs"] exI [of _ "v # vs"]) simp
  next
    case fail
    with starved_step [where malloc = malloc, OF _ c1(3)] n show ?thesis unfolding dup_done_def by auto
  qed
qed

lemma dup_loop_done:
  assumes "malloc_fresh malloc" "al_inv st l (as @ bs)"
    and "li_next it = first_or bs None" "li_direction it = AL_START_HEAD"
    and "al_inv st copy qs" "set qs \<inter> set (as @ bs) = {}"
  shows "dup_done malloc st copy qs bs (dup_loop malloc st copy it)"
  using assms
proof (induction bs arbitrary: as it st copy qs)
  case Nil
  then have "dup_loop malloc st copy it = Some (st, Some copy, [])"
    by (subst dup_loop.simps) (simp add: listNext_head [of st l as "[]"])
  with Nil.prems show ?case unfolding dup_done_def
    by (intro disjI1 exI [of _ st] exI [of _ copy] exI [of _ "[]"]) (simp add: same_methods_def)
next
  case (Cons b bs)
  obtain n where n: "st b = Some n"
    using Cons.prems(2) by (auto simp: al_inv_def elim: linked_nodeE)
  have nx: "listNext st it = Some (it\<lparr>li_next := first_or bs None\<rparr>, Some b)"
    using listNext_head [of st l as "b # bs" it] Cons.prems by simp
  note rel = listRelease_ok [OF Cons.prems(5)]
  show ?case
  proof (cases "al_copy_value copy (n_value n) = None \<or> malloc st = None")
    case True
    have "\<exists>freed. dup_loop malloc st copy it = Some (without st qs, None, freed)"
    proof (cases "al_copy_value copy (n_value n)")
      case None
      with n nx rel show ?thesis by (subst dup_loop.simps) (simp add: al_copy_value_def)
    next
      case (Some v)
      with True n nx rel show ?thesis by (subst dup_loop.simps) (simp add: al_copy_value_def listAddNodeTail_def)
    qed
    with True n starved_now [where malloc = malloc] show ?thesis by (auto simp: dup_done_def)
  next
    case False
    then obtain v p where Some: "al_copy_value copy (n_value n) = Some v" and p: "malloc st = Some p" by auto
    have fresh: "st p = None" using Cons.prems(1) p by (simp add: malloc_fresh_def)
    have pq: "p \<notin> set qs" "p \<notin> set (as @ b # bs)"
      using al_inv_fresh [OF _ Cons.prems(1) p] Cons.prems(2,5) by blast+
    obtain st1 copy1 where c1: "listAddNodeTail malloc st copy v = Some (st1, copy1, True)"
      "al_inv st1 copy1 (qs @ [p])" "values_at st1 (qs @ [p]) = values_at st qs @ [v]"
      "same_methods copy copy1" "\<forall>a. a \<notin> set (p # qs) \<longrightarrow> st1 a = st a"
      using listAddNodeTail_ok [where malloc = malloc, OF Cons.prems(5) p pq(1), of v] by blast
    have step: "dup_loop malloc st copy it = dup_loop malloc st1 copy1 (it\<lparr>li_next := first_or bs None\<rparr>)"
      using Some n nx c1(1) by (subst dup_loop.simps) (simp add: al_copy_value_def)
    have same: "st1 a = st a" if "a \<in> set (as @ b # bs)" for a
      using c1(5) that Cons.prems(6) pq(2) by auto
    have inv1: "al_inv st1 l ((as @ [b]) @ bs)"
      using Cons.prems(2) al_inv_cong [of "as @ b # bs" st1 st l, OF same] by simp
    have disj: "set (qs @ [p]) \<inter> set ((as @ [b]) @ bs) = {}" using Cons.prems(6) pq(2) by auto
    have "dup_done malloc st1 copy1 (qs @ [p]) bs (dup_loop malloc st1 copy1 (it\<lparr>li_next := first_or bs None\<rparr>))"
      using Cons.prems(4) by (intro Cons.IH [OF Cons.prems(1) inv1 _ _ c1(2) disj]) simp_all
    then show ?thesis
      unfolding step using Cons.prems(6) pq(2) by (intro dup_done_Cons [where malloc = malloc, OF n Some p fresh _ c1(3-5)]) auto
  qed
qed

lemmas dup_loop_ok = dup_loop_done [unfolded dup_done_def]

lemma listDup_ok:
  assumes "malloc_fresh malloc" "al_inv st l ps"
  shows "(\<exists>st' copy qs. listDup malloc mem st l = Some (st', Some copy, []) \<and>
            al_inv st' copy qs \<and> same_methods l copy \<and> set qs \<inter> set ps = {} \<and>
            those (map (al_copy_value l) (values_at st ps)) = Some (values_at st' qs) \<and>
            (\<forall>a. a \<notin> set qs \<longrightarrow> st' a = st a)) \<or>
         (\<exists>freed. listDup malloc mem st l = Some (st, None, freed)) \<and>
         (\<not> mem \<or> those (map (al_copy_value l) (values_at st ps)) = None \<or> starved malloc st [] (length ps))"
proof (cases mem)
  case True
  let ?c = "alist_empty\<lparr>al_dup := al_dup l, al_free := al_free l, al_match := al_match l\<rparr>"
  have inv: "al_inv st l ([] @ ps)" using assms(2) by simp
  have c: "al_inv st ?c []" by (simp add: al_inv_def alist_empty_def)
  have it: "li_next (listGetIterator l AL_START_HEAD) = first_or ps None"
    "li_direction (listGetIterator l AL_START_HEAD) = AL_START_HEAD"
    using assms(2) by (simp_all add: listGetIterator_def al_inv_def)
  have cv: "al_copy_value ?c = al_copy_value l" by (simp add: al_copy_value_def fun_eq_iff)
  have disj: "set qs \<inter> set ps = {}" if "\<forall>a \<in> set qs. st a = None" for qs
    using that linked_dom [of st None ps None] assms(2) by (fastforce simp: al_inv_def)
  have "set [] \<inter> set ([] @ ps) = {}" by simp
  from dup_loop_ok [OF assms(1) inv it c this] show ?thesis
  proof (elim disjE exE conjE)
    fix st' copy' rs vs
    assume "dup_loop malloc st ?c (listGetIterator l AL_START_HEAD) = Some (st', Some copy', [])"
      "al_inv st' copy' ([] @ rs)" "same_methods ?c copy'"
      "those (map (al_copy_value ?c) (values_at st ps)) = Some vs"
      "values_at st' ([] @ rs) = values_at st [] @ vs"
      "\<forall>a \<in> set rs. st a = None" "\<forall>a. a \<notin> set ([] @ rs) \<longrightarrow> st' a = st a"
    with disj [of rs] show ?thesis
      by (intro disjI1 exI [of _ st'] exI [of _ copy'] exI [of _ rs])
        (simp add: listDup_def listCreate_def True cv same_methods_def)
  qed (simp_all add: listDup_def listCreate_def True cv)
qed (simp add: listDup_def listCreate_def)

section \<open>The list of values\<close>

text \<open>
  What a client sees: a sequence of values, addressed by index from either end. A call that
  allocates reports whether it got its node.
\<close>

datatype 'v al_op =
  Al_add_head 'v | Al_add_tail 'v | Al_insert int 'v bool | Al_delete int | Al_rotate

definition al_call ::
  "('v store \<Rightarrow> nat option) \<Rightarrow> 'v store \<Rightarrow> 'v alist \<Rightarrow> 'v al_op \<Rightarrow> ('v store \<times> 'v alist \<times> bool) option" where
  "al_call malloc st l op =
     (case op of
        Al_add_head v \<Rightarrow> listAddNodeHead malloc st l v
      | Al_add_tail v \<Rightarrow> listAddNodeTail malloc st l v
      | Al_insert i v after \<Rightarrow> do {
          r \<leftarrow> listIndex st l i;
          (case r of None \<Rightarrow> Some (st, l, False) | Some q \<Rightarrow> listInsertNode malloc st l q v after)
        }
      | Al_delete i \<Rightarrow> do {
          r \<leftarrow> listIndex st l i;
          (case r of
             None \<Rightarrow> Some (st, l, False)
           | Some q \<Rightarrow> do { (st', l', _) \<leftarrow> listDelNode st l q; Some (st', l', True) })
        }
      | Al_rotate \<Rightarrow> map_option (\<lambda>(st', l'). (st', l', True)) (listRotate st l))"

text \<open>A run of calls: for each, whether \<open>malloc\<close> had a node and what the call reported.\<close>

fun al_run ::
  "('v store \<Rightarrow> nat option) \<Rightarrow> 'v store \<Rightarrow> 'v alist \<Rightarrow> 'v al_op list \<Rightarrow>
     ('v store \<times> 'v alist \<times> bool list \<times> bool list) option" where
  "al_run malloc st l [] = Some (st, l, [], [])"
| "al_run malloc st l (op # ops) = do {
     (st1, l1, ok) \<leftarrow> al_call malloc st l op;
     (st2, l2, mems, oks) \<leftarrow> al_run malloc st1 l1 ops;
     Some (st2, l2, (malloc st \<noteq> None) # mems, ok # oks)
   }"

definition al_position :: "int \<Rightarrow> nat \<Rightarrow> nat option" where
  "al_position i n =
     (let k = (if i < 0 then int n + i else i)
      in if 0 \<le> k \<and> k < int n then Some (nat k) else None)"

definition al_spec :: "'v al_op \<Rightarrow> bool \<Rightarrow> 'v list \<Rightarrow> 'v list \<times> bool" where
  "al_spec op mem xs =
     (case op of
        Al_add_head v \<Rightarrow> if mem then (v # xs, True) else (xs, False)
      | Al_add_tail v \<Rightarrow> if mem then (xs @ [v], True) else (xs, False)
      | Al_insert i v after \<Rightarrow>
          (case al_position i (length xs) of
             None \<Rightarrow> (xs, False)
           | Some k \<Rightarrow>
               let k' = (if after then Suc k else k)
               in if mem then (take k' xs @ v # drop k' xs, True) else (xs, False))
      | Al_delete i \<Rightarrow>
          (case al_position i (length xs) of
             None \<Rightarrow> (xs, False) | Some k \<Rightarrow> (take k xs @ drop (Suc k) xs, True))
      | Al_rotate \<Rightarrow> (if xs = [] then [] else last xs # butlast xs, True))"

fun al_spec_run :: "('v al_op \<times> bool) list \<Rightarrow> 'v list \<Rightarrow> 'v list \<times> bool list" where
  "al_spec_run [] xs = (xs, [])"
| "al_spec_run ((op, mem) # ops) xs =
     (let (xs1, ok) = al_spec op mem xs; (xs2, oks) = al_spec_run ops xs1 in (xs2, ok # oks))"

text \<open>Indices that can be negated.\<close>

definition al_op_ok :: "'v al_op \<Rightarrow> bool" where
  "al_op_ok op = (case op of Al_insert i v after \<Rightarrow> - (2 ^ 63) < i | Al_delete i \<Rightarrow> - (2 ^ 63) < i | _ \<Rightarrow> True)"

lemma listIndex_ok:
  assumes "al_inv st l ps" "- (2 ^ 63) < i"
  shows "listIndex st l i = Some (map_option ((!) ps) (al_position i (length ps)))"
proof (cases "i < 0")
  case True
  have "length ps - 1 - nat (- i - 1) = nat (int (length ps) + i)"
    if "nat (- i - 1) < length ps" using that True by linarith
  moreover have "nat (- i - 1) < length ps \<longleftrightarrow> 0 \<le> int (length ps) + i" using True by linarith
  ultimately show ?thesis
    using assms True index_walk_backward [of st ps None "nat (- i - 1)"]
    by (auto simp: listIndex_def al_inv_def al_position_def Let_def)
next
  case False
  then show ?thesis
    using assms index_walk_forward [of st None ps "nat i"]
    by (auto simp: listIndex_def al_inv_def al_position_def Let_def nat_less_iff)
qed

lemma values_take_drop:
  "values_at st (take k ps) = take k (values_at st ps)" "values_at st (drop k ps) = drop k (values_at st ps)"
  by (simp_all add: values_at_def take_map drop_map)

lemma al_position_less: "al_position i n = Some k \<Longrightarrow> k < n"
  by (auto simp: al_position_def Let_def split: if_splits)

text \<open>A call that does what the specification says, and the two ways it ends.\<close>

definition al_call_meets ::
  "('v store \<Rightarrow> nat option) \<Rightarrow> 'v store \<Rightarrow> 'v alist \<Rightarrow> nat list \<Rightarrow> 'v al_op \<Rightarrow> bool" where
  "al_call_meets malloc st l ps op \<longleftrightarrow>
     (\<exists>st' l' ok ps'. al_call malloc st l op = Some (st', l', ok) \<and> al_inv st' l' ps' \<and>
        al_spec op (malloc st \<noteq> None) (values_at st ps) = (values_at st' ps', ok))"

lemma al_call_success:
  "al_call malloc st l op = Some (st', l', True) \<Longrightarrow> al_inv st' l' ps' \<Longrightarrow>
   al_spec op (malloc st \<noteq> None) (values_at st ps) = (values_at st' ps', True) \<Longrightarrow> al_call_meets malloc st l ps op"
  by (auto simp: al_call_meets_def)

lemma al_call_failure:
  "al_inv st l ps \<Longrightarrow> al_call malloc st l op = Some (st, l, False) \<Longrightarrow>
   al_spec op (malloc st \<noteq> None) (values_at st ps) = (values_at st ps, False) \<Longrightarrow> al_call_meets malloc st l ps op"
  by (auto simp: al_call_meets_def)

lemma al_call_add:
  assumes "malloc_fresh malloc" "al_inv st l ps"
  shows "al_call_meets malloc st l ps (Al_add_head v)" "al_call_meets malloc st l ps (Al_add_tail v)"
proof -
  have "al_call_meets malloc st l ps (Al_add_head v) \<and> al_call_meets malloc st l ps (Al_add_tail v)"
  proof (cases "malloc st")
    case None
    then show ?thesis
      by (intro conjI; intro al_call_failure [OF assms(2)])
        (simp_all add: al_call_def al_spec_def listAddNodeHead_def listAddNodeTail_def)
  next
    case (Some p)
    note ok = listAddNodeHead_ok [where malloc = malloc, OF assms(2) Some al_inv_fresh [OF assms(2,1) Some]]
      listAddNodeTail_ok [where malloc = malloc, OF assms(2) Some al_inv_fresh [OF assms(2,1) Some]]
    obtain st1 l1 where h: "listAddNodeHead malloc st l v = Some (st1, l1, True)"
      "al_inv st1 l1 (p # ps)" "values_at st1 (p # ps) = v # values_at st ps" using ok(1) by blast
    obtain st2 l2 where t: "listAddNodeTail malloc st l v = Some (st2, l2, True)"
      "al_inv st2 l2 (ps @ [p])" "values_at st2 (ps @ [p]) = values_at st ps @ [v]" using ok(2) by blast
    show ?thesis
      using h(1,3) t(1,3) Some
      by (intro conjI al_call_success [OF _ h(2)] al_call_success [OF _ t(2)]) (simp_all add: al_call_def al_spec_def)
  qed
  then show "al_call_meets malloc st l ps (Al_add_head v)" "al_call_meets malloc st l ps (Al_add_tail v)" by simp_all
qed

lemma al_call_insert:
  assumes "malloc_fresh malloc" "al_inv st l ps" "al_op_ok (Al_insert i v after)"
  shows "al_call_meets malloc st l ps (Al_insert i v after)"
proof -
  have i: "listIndex st l i = Some (map_option ((!) ps) (al_position i (length ps)))"
    using assms(3) by (intro listIndex_ok [OF assms(2)]) (simp add: al_op_ok_def)
  show ?thesis
  proof (cases "al_position i (length ps) = None \<or> malloc st = None")
    case True
    with i show ?thesis
      by (intro al_call_failure [OF assms(2)])
        (auto simp: al_call_def al_spec_def listInsertNode_def split: option.split)
  next
    case False
    then obtain k p where k: "al_position i (length ps) = Some k" and p: "malloc st = Some p" by auto
    then have kl: "k < length ps" by (metis al_position_less)
    let ?as = "take k ps" and ?bs = "drop (Suc k) ps"
    have ps: "ps = ?as @ ps ! k # ?bs" by (rule id_take_nth_drop [OF kl])
    have pn: "p \<notin> set (?as @ ps ! k # ?bs)" using al_inv_fresh [OF assms(2,1) p] ps by metis
    have inv: "al_inv st l (?as @ ps ! k # ?bs)" using assms(2) ps by simp
    let ?as' = "if after then ?as @ [ps ! k] else ?as" and ?bs' = "if after then ?bs else ps ! k # ?bs"
    obtain st' l' where r: "listInsertNode malloc st l (ps ! k) v after = Some (st', l', True)"
      "al_inv st' l' (?as' @ p # ?bs')"
      "values_at st' (?as' @ p # ?bs') = values_at st ?as' @ v # values_at st ?bs'"
      using listInsertNode_ok [where malloc = malloc, OF inv p pn, of v after] by (auto simp: Let_def)
    have "?as' = take (if after then Suc k else k) ps" "?bs' = drop (if after then Suc k else k) ps"
      using kl by (simp_all add: take_Suc_conv_app_nth Cons_nth_drop_Suc)
    then have "al_spec (Al_insert i v after) (malloc st \<noteq> None) (values_at st ps) = (values_at st' (?as' @ p # ?bs'), True)"
      using r(3) k p by (simp add: al_spec_def values_take_drop Let_def)
    moreover have "al_call malloc st l (Al_insert i v after) = Some (st', l', True)"
      using i k r(1) by (simp add: al_call_def)
    ultimately show ?thesis using r(2) by (intro al_call_success)
  qed
qed

lemma al_call_delete:
  assumes "al_inv st l ps" "al_op_ok (Al_delete i)"
  shows "al_call_meets malloc st l ps (Al_delete i)"
proof -
  have i: "listIndex st l i = Some (map_option ((!) ps) (al_position i (length ps)))"
    using assms(2) by (intro listIndex_ok [OF assms(1)]) (simp add: al_op_ok_def)
  show ?thesis
  proof (cases "al_position i (length ps)")
    case None
    with i show ?thesis by (intro al_call_failure [OF assms(1)]) (simp_all add: al_call_def al_spec_def)
  next
    case k: (Some k)
    then have kl: "k < length ps" by (rule al_position_less)
    let ?as = "take k ps" and ?bs = "drop (Suc k) ps"
    have inv: "al_inv st l (?as @ ps ! k # ?bs)" using assms(1) id_take_nth_drop [OF kl] by simp
    from listDelNode_ok [OF inv] obtain st' l' fr where
      r: "listDelNode st l (ps ! k) = Some (st', l', fr)" "al_inv st' l' (?as @ ?bs)"
      "values_at st' (?as @ ?bs) = values_at st ?as @ values_at st ?bs" by blast
    then show ?thesis
      using i k by (intro al_call_success [OF _ r(2)]) (simp_all add: al_call_def al_spec_def values_take_drop)
  qed
qed

lemma al_call_rotate:
  assumes "al_inv st l ps"
  shows "al_call_meets malloc st l ps Al_rotate"
proof (cases ps rule: rev_cases)
  case Nil
  with assms show ?thesis
    by (intro al_call_success [of malloc st l Al_rotate st l ps])
      (auto simp: al_call_def al_spec_def listRotate_def listLength_def al_inv_def)
next
  case (snoc qs q)
  obtain st' l' where r: "listRotate st l = Some (st', l')" "al_inv st' l' (q # qs)"
    "values_at st' (q # qs) = n_value (the (st q)) # values_at st qs"
    using listRotate_ok [of st l qs q] assms snoc by blast
  then show ?thesis by (intro al_call_success [OF _ r(2)]) (simp_all add: al_call_def al_spec_def snoc)
qed

lemma al_call_ok:
  assumes "malloc_fresh malloc" "al_inv st l ps" "al_op_ok op"
  shows "\<exists>st' l' ok ps'. al_call malloc st l op = Some (st', l', ok) \<and> al_inv st' l' ps' \<and>
           al_spec op (malloc st \<noteq> None) (values_at st ps) = (values_at st' ps', ok)"
  using assms unfolding al_call_meets_def [symmetric]
  by (cases op) (simp_all add: al_call_add al_call_insert al_call_delete al_call_rotate)

lemma al_run_ok:
  assumes "malloc_fresh malloc" "al_inv st l ps" "list_all al_op_ok ops"
  shows "\<exists>st' l' mems oks ps'. al_run malloc st l ops = Some (st', l', mems, oks) \<and> al_inv st' l' ps' \<and>
           length mems = length ops \<and>
           al_spec_run (zip ops mems) (values_at st ps) = (values_at st' ps', oks)"
  using assms
proof (induction ops arbitrary: st l ps)
  case (Cons op ops)
  obtain st1 l1 ok ps1 where s1: "al_call malloc st l op = Some (st1, l1, ok)" "al_inv st1 l1 ps1"
    "al_spec op (malloc st \<noteq> None) (values_at st ps) = (values_at st1 ps1, ok)"
    using al_call_ok [OF Cons.prems(1,2), of op] Cons.prems(3) by auto
  obtain st2 l2 mems oks ps2 where s2: "al_run malloc st1 l1 ops = Some (st2, l2, mems, oks)"
    "al_inv st2 l2 ps2" "length mems = length ops"
    "al_spec_run (zip ops mems) (values_at st1 ps1) = (values_at st2 ps2, oks)"
    using Cons.IH [OF Cons.prems(1) s1(2)] Cons.prems(3) by auto
  show ?case
    by (rule exI [of _ st2], rule exI [of _ l2], rule exI [of _ "(malloc st \<noteq> None) # mems"],
        rule exI [of _ "ok # oks"], rule exI [of _ ps2]) (use s1 s2 in simp)
qed auto

section \<open>Properties\<close>

text \<open>An allocator with two nodes.\<close>

definition malloc_two :: "nat store \<Rightarrow> nat option" where
  "malloc_two st = (if st 1 = None then Some 1 else if st 2 = None then Some 2 else None)"

lemma malloc_two_fresh: "malloc_fresh malloc_two"
  by (simp add: malloc_fresh_def malloc_two_def)

text \<open>A list of two nodes.\<close>

definition two_store :: "nat store" where
  "two_store = [5 \<mapsto> \<lparr>n_prev = None, n_next = Some 6, n_value = 50\<rparr>,
                6 \<mapsto> \<lparr>n_prev = Some 5, n_next = None, n_value = 60\<rparr>]"

definition two_list :: "nat alist" where
  "two_list = \<lparr>al_head = Some 5, al_tail = Some 6, al_dup = None, al_free = True, al_match = None,
     al_len = 2\<rparr>"

lemma two_list_inv: "al_inv two_store two_list [5, 6]"
  by (simp add: al_inv_def two_list_def two_store_def)

text \<open>
  C13: the doubly linked list implements a sequence. From an empty list, every sequence of insertions at
  either end or beside an indexed node, deletions by index and rotations, with indices counted from
  the front or, when negative, from the back, runs without a bad pointer access and leaves a
  well-formed chain. Given for each operation whether \<open>malloc\<close> had memory, the values of the list and what
  each operation reports are those of the same operations on a sequence: one that needs memory and
  gets none, or whose index is out of range, changes nothing and reports so.
\<close>

theorem adlist_implements_sequence:
  assumes "malloc_fresh malloc" "listCreate mem = Some l" "list_all al_op_ok ops"
  shows "\<exists>st' l' mems oks ps. al_run malloc st l ops = Some (st', l', mems, oks) \<and> al_inv st' l' ps \<and>
           length mems = length ops \<and> al_spec_run (zip ops mems) [] = (values_at st' ps, oks)"
  using al_run_ok [OF assms(1) listCreate_inv [OF assms(2)] assms(3), of st] by simp

theorem adlist_implements_sequence_witness:
  "\<exists>st' l' mems oks ps. al_run malloc_two Map.empty alist_empty
       [Al_add_tail 10, Al_add_head 20, Al_rotate, Al_insert (-1) 30 True, Al_delete 0] =
         Some (st', l', mems, oks) \<and> al_inv st' l' ps \<and>
     length mems = length [Al_add_tail (10 :: nat), Al_add_head 20, Al_rotate, Al_insert (-1) 30 True, Al_delete 0] \<and>
     al_spec_run
       (zip [Al_add_tail 10, Al_add_head 20, Al_rotate, Al_insert (-1) 30 True, Al_delete 0] mems) [] =
         (values_at st' ps, oks)"
  by (rule adlist_implements_sequence [OF malloc_two_fresh]) (simp_all add: al_op_ok_def listCreate_def)

text \<open>
  \<open>listDup\<close> either returns a well-formed list on fresh nodes whose values are the copies of the
  original's, made by the \<open>dup\<close> method where there is one, and whose methods are the original's; or
  returns NULL with the store exactly as before, all nodes of the partial copy freed. It never
  touches the original, and NULL only comes of a \<open>dup\<close> that failed or of memory that ran out.
\<close>

lemma listDup_spec:
  assumes "malloc_fresh malloc" "al_inv st l ps"
  shows "(\<exists>st' copy qs. listDup malloc mem st l = Some (st', Some copy, []) \<and>
            al_inv st' copy qs \<and> same_methods l copy \<and> set qs \<inter> set ps = {} \<and>
            those (map (al_copy_value l) (values_at st ps)) = Some (values_at st' qs) \<and>
            (\<forall>a. a \<notin> set qs \<longrightarrow> st' a = st a)) \<or>
         (\<exists>freed. listDup malloc mem st l = Some (st, None, freed)) \<and>
         (\<not> mem \<or> those (map (al_copy_value l) (values_at st ps)) = None \<or> starved malloc st [] (length ps))"
  using listDup_ok [OF assms] .

lemma listDup_spec_witness:
  "(\<exists>st' copy qs. listDup malloc_two True two_store two_list = Some (st', Some copy, []) \<and>
      al_inv st' copy qs \<and> same_methods two_list copy \<and> set qs \<inter> set [5, 6] = {} \<and>
      those (map (al_copy_value two_list) (values_at two_store [5, 6])) = Some (values_at st' qs) \<and>
      (\<forall>a. a \<notin> set qs \<longrightarrow> st' a = two_store a)) \<or>
   (\<exists>freed. listDup malloc_two True two_store two_list = Some (two_store, None, freed)) \<and>
   (\<not> True \<or> those (map (al_copy_value two_list) (values_at two_store [5, 6])) = None \<or>
     starved malloc_two two_store [] (length [5 :: nat, 6]))"
  by (rule listDup_spec [OF malloc_two_fresh two_list_inv])

text \<open>
  As the comment on \<open>listNext\<close> promises, the node an iterator just returned may be deleted: the
  deletion leaves a well-formed list without it, frees its value and its memory, and the iterator
  goes on with the node that followed.
\<close>

lemma listNext_delete_current:
  assumes "al_inv st l (as @ q # bs)" "li_next iter = Some q" "li_direction iter = AL_START_HEAD"
  shows "\<exists>iter' st' l'. listNext st iter = Some (iter', Some q) \<and>
           listDelNode st l q = Some (st', l', if al_free l then [n_value (the (st q))] else []) \<and>
           al_inv st' l' (as @ bs) \<and> st' q = None \<and>
           values_at st' (as @ bs) = values_at st (as @ bs) \<and>
           listNext st' iter' =
             Some (iter'\<lparr>li_next := first_or (tl bs) None\<rparr>, first_or bs None)"
proof -
  let ?it = "iter\<lparr>li_next := first_or bs None\<rparr>"
  have 1: "listNext st iter = Some (?it, Some q)"
    using listNext_head [of st l as "q # bs" iter] assms by simp
  obtain st' l' where 2: "listDelNode st l q =
      Some (st', l', if al_free l then [n_value (the (st q))] else [])"
    "al_inv st' l' (as @ bs)" "st' q = None"
    "values_at st' (as @ bs) = values_at st as @ values_at st bs"
    using listDelNode_ok [OF assms(1)] by blast
  with 1 listNext_head [OF 2(2), of ?it] assms(3) show ?thesis by auto
qed

lemma listNext_delete_current_witness:
  "\<exists>iter' st' l'. listNext two_store \<lparr>li_next = Some 5, li_direction = AL_START_HEAD\<rparr> =
        Some (iter', Some 5) \<and>
      listDelNode two_store two_list 5 =
        Some (st', l', if al_free two_list then [n_value (the (two_store 5))] else []) \<and>
      al_inv st' l' ([] @ [6]) \<and> st' 5 = None \<and>
      values_at st' ([] @ [6]) = values_at two_store ([] @ [6]) \<and>
      listNext st' iter' = Some (iter'\<lparr>li_next := first_or (tl [6]) None\<rparr>, first_or [6] None)"
  by (rule listNext_delete_current) (simp_all add: two_list_inv)

end
