(* ===== verification/Kernel_List.thy ===== *)
theory Kernel_List
  imports Node_Store
begin

text \<open>
  The circular lists of \<^verbatim>\<open>util/list.h\<close>, on the store of nodes: a list's head is a node like its elements, and
  an element's \<open>list_head\<close> stands for the element. \<open>ring\<close> is the invariant, a cycle of addresses that can be read from any
  of them; the functions insert into, cut out of and join cycles. A result of \<open>None\<close> is an access through a null or
  dangling pointer.
\<close>

section \<open>Operations\<close>

definition INIT_LIST_HEAD :: "'v store \<Rightarrow> nat \<Rightarrow> 'v store option" where
  "INIT_LIST_HEAD st ptr = do {
     st1 \<leftarrow> set_next st (Some ptr) (Some ptr);
     set_prev st1 (Some ptr) (Some ptr)
   }"

text \<open>\<open>__list_add\<close> and \<open>__list_del\<close>.\<close>

definition list_add_between :: "'v store \<Rightarrow> nat option \<Rightarrow> nat option \<Rightarrow> nat option \<Rightarrow> 'v store option" where
  "list_add_between st new prv nxt = do {
     st1 \<leftarrow> set_prev st nxt new;
     st2 \<leftarrow> set_next st1 new nxt;
     st3 \<leftarrow> set_prev st2 new prv;
     set_next st3 prv new
   }"

definition list_del_between :: "'v store \<Rightarrow> nat option \<Rightarrow> nat option \<Rightarrow> 'v store option" where
  "list_del_between st prv nxt = do {
     st1 \<leftarrow> set_prev st nxt prv;
     set_next st1 prv nxt
   }"

definition list_add :: "'v store \<Rightarrow> nat \<Rightarrow> nat \<Rightarrow> 'v store option" where
  "list_add st new head = do { n \<leftarrow> st head; list_add_between st (Some new) (Some head) (n_next n) }"

definition list_add_tail :: "'v store \<Rightarrow> nat \<Rightarrow> nat \<Rightarrow> 'v store option" where
  "list_add_tail st new head = do { n \<leftarrow> st head; list_add_between st (Some new) (n_prev n) (Some head) }"

definition list_del :: "'v store \<Rightarrow> nat \<Rightarrow> 'v store option" where
  "list_del st entry = do {
     n \<leftarrow> st entry;
     st1 \<leftarrow> list_del_between st (n_prev n) (n_next n);
     st2 \<leftarrow> set_next st1 (Some entry) None;
     set_prev st2 (Some entry) None
   }"

definition list_del_init :: "'v store \<Rightarrow> nat \<Rightarrow> 'v store option" where
  "list_del_init st entry = do {
     n \<leftarrow> st entry;
     st1 \<leftarrow> list_del_between st (n_prev n) (n_next n);
     INIT_LIST_HEAD st1 entry
   }"

definition list_move :: "'v store \<Rightarrow> nat \<Rightarrow> nat \<Rightarrow> 'v store option" where
  "list_move st l head = do {
     n \<leftarrow> st l;
     st1 \<leftarrow> list_del_between st (n_prev n) (n_next n);
     list_add st1 l head
   }"

definition list_move_tail :: "'v store \<Rightarrow> nat \<Rightarrow> nat \<Rightarrow> 'v store option" where
  "list_move_tail st l head = do {
     n \<leftarrow> st l;
     st1 \<leftarrow> list_del_between st (n_prev n) (n_next n);
     list_add_tail st1 l head
   }"

definition list_empty :: "'v store \<Rightarrow> nat \<Rightarrow> bool option" where
  "list_empty st head = do { n \<leftarrow> st head; Some (n_next n = Some head) }"

text \<open>\<open>__list_splice\<close>.\<close>

definition list_splice_between :: "'v store \<Rightarrow> nat \<Rightarrow> nat \<Rightarrow> 'v store option" where
  "list_splice_between st l head = do {
     nl \<leftarrow> st l;
     nh \<leftarrow> st head;
     let first = n_next nl;
     let lst = n_prev nl;
     let at = n_next nh;
     st1 \<leftarrow> set_prev st first (Some head);
     st2 \<leftarrow> set_next st1 (Some head) first;
     st3 \<leftarrow> set_next st2 lst at;
     set_prev st3 at lst
   }"

definition list_splice :: "'v store \<Rightarrow> nat \<Rightarrow> nat \<Rightarrow> 'v store option" where
  "list_splice st l head = do {
     e \<leftarrow> list_empty st l;
     if \<not> e then list_splice_between st l head else Some st
   }"

definition list_splice_init :: "'v store \<Rightarrow> nat \<Rightarrow> nat \<Rightarrow> 'v store option" where
  "list_splice_init st l head = do {
     e \<leftarrow> list_empty st l;
     if \<not> e then do { st1 \<leftarrow> list_splice_between st l head; INIT_LIST_HEAD st1 l } else Some st
   }"

text \<open>The loops of the three macros: the addresses the body is run on, and for the safe one the store after bodies that delete some of them.\<close>

partial_function (option) for_each_loop :: "'v store \<Rightarrow> nat \<Rightarrow> nat option \<Rightarrow> nat list option" where
  "for_each_loop st head pos =
     (if pos = Some head then Some []
      else do { p \<leftarrow> pos; n \<leftarrow> st p; ps \<leftarrow> for_each_loop st head (n_next n); Some (p # ps) })"

definition list_for_each :: "'v store \<Rightarrow> nat \<Rightarrow> nat list option" where
  "list_for_each st head = do { n \<leftarrow> st head; for_each_loop st head (n_next n) }"

partial_function (option) for_each_prev_loop :: "'v store \<Rightarrow> nat \<Rightarrow> nat option \<Rightarrow> nat list option" where
  "for_each_prev_loop st head pos =
     (if pos = Some head then Some []
      else do { p \<leftarrow> pos; n \<leftarrow> st p; ps \<leftarrow> for_each_prev_loop st head (n_prev n); Some (p # ps) })"

definition list_for_each_prev :: "'v store \<Rightarrow> nat \<Rightarrow> nat list option" where
  "list_for_each_prev st head = do { n \<leftarrow> st head; for_each_prev_loop st head (n_prev n) }"

partial_function (option) for_each_safe_loop ::
  "(nat \<Rightarrow> bool) \<Rightarrow> 'v store \<Rightarrow> nat \<Rightarrow> nat option \<Rightarrow> nat option \<Rightarrow> ('v store \<times> nat list) option" where
  "for_each_safe_loop unwanted st head pos n =
     (if pos = Some head then Some (st, [])
      else do {
        p \<leftarrow> pos;
        st1 \<leftarrow> (if unwanted p then list_del st p else Some st);
        nn \<leftarrow> deref st1 n;
        (st2, ps) \<leftarrow> for_each_safe_loop unwanted st1 head n (n_next nn);
        Some (st2, p # ps)
      })"

definition list_for_each_safe :: "(nat \<Rightarrow> bool) \<Rightarrow> 'v store \<Rightarrow> nat \<Rightarrow> ('v store \<times> nat list) option" where
  "list_for_each_safe unwanted st head = do {
     h \<leftarrow> st head;
     p \<leftarrow> deref st (n_next h);
     for_each_safe_loop unwanted st head (n_next h) (n_next p)
   }"

section \<open>Cycles\<close>

definition ring :: "'v store \<Rightarrow> nat list \<Rightarrow> bool" where
  "ring st xs \<longleftrightarrow> xs \<noteq> [] \<and> distinct xs \<and> linked st (last_or None xs) xs (first_or xs None)"

lemma ring_rotate: "ring st (xs @ ys) \<longleftrightarrow> ring st (ys @ xs)"
  by (cases "xs = []"; cases "ys = []") (auto simp: ring_def linked_append last_or_def first_or_def split: list.splits)

lemma ring_node:
  assumes "ring st (q # xs)"
  obtains n where "st q = Some n" "n_next n = first_or xs (Some q)" "n_prev n = last_or (Some q) xs"
  using assms by (auto simp: ring_def split: option.splits)

lemma ring_frame: "(\<And>a. a \<in> set xs \<Longrightarrow> st' a = st a) \<Longrightarrow> ring st' xs = ring st xs"
  unfolding ring_def using linked_cong [of xs st' st] by blast

lemma ring_upd [simp]: "a \<notin> set xs \<Longrightarrow> ring (st(a := x)) xs = ring st xs"
  by (simp add: ring_def)

lemma ring_dom: "ring st xs \<Longrightarrow> a \<in> set xs \<Longrightarrow> \<exists>n. st a = Some n"
  by (auto simp: ring_def intro: linked_dom)

text \<open>The payloads stay where they are.\<close>

definition same_values :: "'v store \<Rightarrow> 'v store \<Rightarrow> bool" where
  "same_values st st' \<longleftrightarrow> (\<forall>a. map_option n_value (st' a) = map_option n_value (st a))"

lemma same_values_refl [simp]: "same_values st st"
  by (simp add: same_values_def)

lemma same_values_trans: "same_values st st' \<Longrightarrow> same_values st' st'' \<Longrightarrow> same_values st st''"
  by (simp add: same_values_def)

lemma same_values_dom: "same_values st st' \<Longrightarrow> dom st' = dom st"
  unfolding same_values_def dom_def by (metis (no_types, lifting) map_option_is_None)

lemma set_values:
  "set_prev st p x = Some st' \<Longrightarrow> same_values st st'" "set_next st p x = Some st' \<Longrightarrow> same_values st st'"
  by (auto simp: set_prev_def set_next_def same_values_def split: Option.bind_splits)

text \<open>Inserting behind the last of a cycle and before its first.\<close>

lemma ring_insert:
  assumes ring: "ring st xs" and q: "q \<notin> set xs" "st q = Some m"
  shows "\<exists>st'. list_add_between st (Some q) (last_or None xs) (first_or xs None) = Some st' \<and> ring st' (xs @ [q]) \<and>
    same_values st st' \<and> (\<forall>a. a \<notin> set (q # xs) \<longrightarrow> st' a = st a)"
proof (cases xs)
  case Nil
  with ring show ?thesis by (simp add: ring_def)
next
  case (Cons p ys)
  show ?thesis
  proof (cases ys rule: rev_cases)
    case Nil
    have xs: "xs = [p]" using Cons Nil by simp
    obtain np where n: "st p = Some np" using ring by (auto simp: xs ring_def split: option.splits)
    have neq: "q \<noteq> p" "p \<noteq> q" using q(1) xs by auto
    let ?st = "st(p \<mapsto> np\<lparr>n_prev := Some q, n_next := Some q\<rparr>, q \<mapsto> m\<lparr>n_next := Some p, n_prev := Some p\<rparr>)"
    have "list_add_between st (Some q) (Some p) (Some p) = Some ?st"
      using n q(2) neq by (simp add: list_add_between_def set_prev_def set_next_def fun_upd_twist)
    moreover have "ring ?st (xs @ [q])" using neq by (simp add: xs ring_def)
    moreover have "same_values st ?st" using n q(2) by (simp add: same_values_def)
    ultimately show ?thesis unfolding xs by (intro exI [of _ ?st]) simp
  next
    case (snoc zs r)
    have xs: "xs = p # zs @ [r]" using Cons snoc by simp
    have d: "distinct (p # zs @ [r])" and l: "linked st (Some r) (p # zs @ [r]) (Some p)"
      using ring by (simp_all add: ring_def xs)
    obtain np nr where n: "st p = Some np" "n_prev np = Some r" "n_next np = first_or zs (Some r)" "linked st (Some p) zs (Some r)"
      "st r = Some nr" "n_prev nr = last_or (Some p) zs" "n_next nr = Some p"
      using l by (auto simp: linked_append split: option.splits)
    let ?st = "st(p \<mapsto> np\<lparr>n_prev := Some q\<rparr>, q \<mapsto> m\<lparr>n_next := Some p, n_prev := Some r\<rparr>, r \<mapsto> nr\<lparr>n_next := Some q\<rparr>)"
    have neq: "p \<noteq> r" "q \<noteq> p" "q \<noteq> r" "p \<notin> set zs" "r \<notin> set zs" "q \<notin> set zs" using d q(1) xs by auto
    have "list_add_between st (Some q) (Some r) (Some p) = Some ?st"
      using n(1,5) q(2) neq by (simp add: list_add_between_def set_prev_def set_next_def)
    moreover have "ring ?st (xs @ [q])"
      using n neq d by (simp add: xs ring_def linked_append)
    moreover have "same_values st ?st" using n(1,5) q(2) by (simp add: same_values_def)
    ultimately show ?thesis unfolding xs by (intro exI [of _ ?st]) simp
  qed
qed

text \<open>Cutting out the last of a cycle that has more.\<close>

lemma ring_remove:
  assumes ring: "ring st (xs @ [q])" and ne: "xs \<noteq> []"
  shows "\<exists>st'. list_del_between st (last_or None xs) (first_or xs None) = Some st' \<and> ring st' xs \<and>
    same_values st st' \<and> (\<forall>a. a \<notin> set xs \<longrightarrow> st' a = st a)"
proof (cases xs)
  case (Cons p ys)
  have d: "distinct xs" "q \<notin> set xs" using ring by (auto simp: ring_def)
  have l: "linked st (Some q) xs (Some q)" using ring by (simp add: ring_def linked_append)
  show ?thesis
  proof (cases ys rule: rev_cases)
    case Nil
    have xs: "xs = [p]" using Cons Nil by simp
    obtain np where n: "st p = Some np" using l by (auto simp: xs split: option.splits)
    let ?st = "st(p \<mapsto> np\<lparr>n_prev := Some p, n_next := Some p\<rparr>)"
    have "list_del_between st (Some p) (Some p) = Some ?st"
      using n by (simp add: list_del_between_def set_prev_def set_next_def)
    moreover have "ring ?st xs" by (simp add: xs ring_def)
    moreover have "same_values st ?st" using n by (simp add: same_values_def)
    ultimately show ?thesis unfolding xs by (intro exI [of _ ?st]) simp
  next
    case (snoc zs r)
    have xs: "xs = p # zs @ [r]" using Cons snoc by simp
    obtain np nr where n: "st p = Some np" "n_next np = first_or zs (Some r)" "linked st (Some p) zs (Some r)"
      "st r = Some nr" "n_prev nr = last_or (Some p) zs"
      using l by (auto simp: xs linked_append split: option.splits)
    let ?st = "st(p \<mapsto> np\<lparr>n_prev := Some r\<rparr>, r \<mapsto> nr\<lparr>n_next := Some p\<rparr>)"
    have neq: "p \<noteq> r" "p \<notin> set zs" "r \<notin> set zs" using d(1) xs by auto
    have "list_del_between st (Some r) (Some p) = Some ?st"
      using n(1,4) neq by (simp add: list_del_between_def set_prev_def set_next_def)
    moreover have "ring ?st xs" using n neq d by (simp add: xs ring_def linked_append)
    moreover have "same_values st ?st" using n(1,4) by (simp add: same_values_def)
    ultimately show ?thesis unfolding xs by (intro exI [of _ ?st]) simp
  qed
qed (use ne in simp)

text \<open>A node that points to itself is a cycle of its own.\<close>

lemma INIT_LIST_HEAD_ok:
  assumes "st p = Some n"
  shows "\<exists>st'. INIT_LIST_HEAD st p = Some st' \<and> ring st' [p] \<and> same_values st st' \<and> (\<forall>a. a \<noteq> p \<longrightarrow> st' a = st a)"
proof -
  have "INIT_LIST_HEAD st p = Some (st(p \<mapsto> n\<lparr>n_next := Some p, n_prev := Some p\<rparr>))"
    using assms by (simp add: INIT_LIST_HEAD_def set_prev_def set_next_def)
  then show ?thesis using assms by (simp add: ring_def same_values_def)
qed

section \<open>Lists with a head\<close>

lemma list_add_ok:
  assumes ring: "ring st (h # ps)" and q: "q \<notin> set (h # ps)" "st q = Some m"
  shows "\<exists>st'. list_add st q h = Some st' \<and> ring st' (h # q # ps) \<and> same_values st st' \<and>
    (\<forall>a. a \<notin> set (q # h # ps) \<longrightarrow> st' a = st a)"
proof -
  obtain n where n: "st h = Some n" "n_next n = first_or ps (Some h)" using ring by (rule ring_node)
  have "ring st (ps @ [h])" using ring ring_rotate [of st "[h]" ps] by simp
  from ring_insert [OF this, of q m] q obtain st' where
    "list_add_between st (Some q) (Some h) (first_or ps (Some h)) = Some st'" "ring st' (ps @ [h, q])" "same_values st st'"
    "\<forall>a. a \<notin> set (q # h # ps) \<longrightarrow> st' a = st a"
    by (auto simp: last_or_def)
  with n ring_rotate [of st' ps "[h, q]"] show ?thesis by (simp add: list_add_def)
qed

lemma list_add_tail_ok:
  assumes ring: "ring st (h # ps)" and q: "q \<notin> set (h # ps)" "st q = Some m"
  shows "\<exists>st'. list_add_tail st q h = Some st' \<and> ring st' (h # ps @ [q]) \<and> same_values st st' \<and>
    (\<forall>a. a \<notin> set (q # h # ps) \<longrightarrow> st' a = st a)"
proof -
  obtain n where n: "st h = Some n" "n_prev n = last_or (Some h) ps" using ring by (rule ring_node)
  from ring_insert [OF ring, of q m] q n show ?thesis by (auto simp: list_add_tail_def)
qed

text \<open>An element of a list, cut out.\<close>

lemma unlink_ok:
  assumes ring: "ring st (h # as @ q # bs)"
  shows "\<exists>n st'. st q = Some n \<and> list_del_between st (n_prev n) (n_next n) = Some st' \<and> ring st' (h # as @ bs) \<and>
    same_values st st' \<and> st' q = Some n \<and> (\<forall>a. a \<notin> set (h # as @ bs) \<longrightarrow> st' a = st a)"
proof -
  let ?xs = "bs @ h # as"
  have r: "ring st (q # ?xs)" "ring st (?xs @ [q])"
    using ring ring_rotate [of st "h # as" "q # bs"] ring_rotate [of st "[q]" ?xs] by simp_all
  obtain n where n: "st q = Some n" "n_next n = first_or ?xs (Some q)" "n_prev n = last_or (Some q) ?xs"
    using r(1) by (rule ring_node)
  have e: "first_or ?xs (Some q) = first_or ?xs None" "last_or (Some q) ?xs = last_or None ?xs" by (cases bs; simp)+
  obtain st' where st': "list_del_between st (last_or None ?xs) (first_or ?xs None) = Some st'" "ring st' ?xs"
    "same_values st st'" "\<forall>a. a \<notin> set ?xs \<longrightarrow> st' a = st a"
    using ring_remove [OF r(2)] by auto
  have "q \<notin> set ?xs" using r(1) by (simp add: ring_def)
  then have "st' q = Some n" using st'(4) n(1) by simp
  with n st' ring_rotate [of st' bs "h # as"] show ?thesis unfolding e by auto
qed

lemma list_del_ok:
  assumes ring: "ring st (h # as @ q # bs)"
  shows "\<exists>st'. list_del st q = Some st' \<and> ring st' (h # as @ bs) \<and> same_values st st' \<and>
    (\<forall>a. a \<notin> set (h # as @ q # bs) \<longrightarrow> st' a = st a)"
proof -
  from unlink_ok [OF ring] obtain n st1 where u: "st q = Some n" "list_del_between st (n_prev n) (n_next n) = Some st1"
    "ring st1 (h # as @ bs)" "same_values st st1" "st1 q = Some n" "\<forall>a. a \<notin> set (h # as @ bs) \<longrightarrow> st1 a = st a"
    by blast
  have q: "q \<notin> set (h # as @ bs)" using ring by (auto simp: ring_def)
  let ?st = "st1(q \<mapsto> n\<lparr>n_next := None, n_prev := None\<rparr>)"
  have "list_del st q = Some ?st" using u(1,2,5) by (simp add: list_del_def set_prev_def set_next_def)
  moreover have "ring ?st (h # as @ bs)" using u(3) q by simp
  moreover have "same_values st ?st" using u(1,4) by (simp add: same_values_def)
  ultimately show ?thesis using u(6) by auto
qed

lemma list_del_init_ok:
  assumes ring: "ring st (h # as @ q # bs)"
  shows "\<exists>st'. list_del_init st q = Some st' \<and> ring st' (h # as @ bs) \<and> ring st' [q] \<and> same_values st st' \<and>
    (\<forall>a. a \<notin> set (h # as @ q # bs) \<longrightarrow> st' a = st a)"
proof -
  from unlink_ok [OF ring] obtain n st1 where u: "st q = Some n" "list_del_between st (n_prev n) (n_next n) = Some st1"
    "ring st1 (h # as @ bs)" "same_values st st1" "st1 q = Some n" "\<forall>a. a \<notin> set (h # as @ bs) \<longrightarrow> st1 a = st a"
    by blast
  obtain st2 where i: "INIT_LIST_HEAD st1 q = Some st2" "ring st2 [q]" "same_values st1 st2" "\<forall>a. a \<noteq> q \<longrightarrow> st2 a = st1 a"
    using INIT_LIST_HEAD_ok [of st1 q n] u(5) by blast
  have q: "q \<notin> set (h # as @ bs)" using ring by (auto simp: ring_def)
  have "ring st2 (h # as @ bs) = ring st1 (h # as @ bs)" by (rule ring_frame) (use i(4) q in auto)
  with u(1-4,6) i show ?thesis by (auto simp: list_del_init_def intro: same_values_trans)
qed

text \<open>Joining: the cycle of one list without its head goes behind the head of the other.\<close>

text \<open>The joined ring, from its parts: \<open>np\<close> is the element (or the head) the joined sequence \<open>qs\<close> is put in front of.\<close>

lemma ring_joined:
  assumes rh: "ring st (h # ps)" and c: "linked st3 (Some h) qs (first_or ps (Some h))" "distinct qs" "qs \<noteq> []"
    and dis: "set qs \<inter> set (h # ps) = {}"
    and h3: "st3 h = Some (nh\<lparr>n_next := first_or qs None\<rparr>)" "n_prev nh = last_or (Some h) ps"
    and same: "\<forall>a \<in> set ps. st3 a = st a"
    and p: "p = hd (ps @ [h])" "st3 p = Some np"
  shows "ring (st3(p \<mapsto> np\<lparr>n_prev := last_or None qs\<rparr>)) (h # qs @ ps)"
proof -
  have d: "distinct (h # qs @ ps)" using rh c(2) dis by (auto simp: ring_def)
  have "p \<in> set (h # ps)" using p(1) by (cases ps) simp_all
  then have pq: "p \<notin> set qs" using dis by auto
  define f t where "f = hd qs" and "t = last qs"
  then have ends: "first_or qs x = Some f" "last_or x qs = Some t" for x
    using c(3) by (simp_all add: first_or_def last_or_def split: list.splits)
  show ?thesis
  proof (cases ps)
    case Nil
    then have "p = h" using p(1) by simp
    then have "np = nh\<lparr>n_next := Some f\<rparr>" using h3(1) p(2) ends by simp
    with \<open>p = h\<close> Nil c(1) d p(2) pq ends show ?thesis by (simp add: ring_def)
  next
    case (Cons p' zs)
    then have pp: "p' = p" "p \<noteq> h" using d p(1) by auto
    have "linked st (Some p) zs (Some h)" "n_next np = first_or zs (Some h)"
      using rh p(2) same pp Cons by (auto simp: ring_def split: option.splits)
    moreover have "linked st3 (Some p) zs (Some h) = linked st (Some p) zs (Some h)"
      using same Cons by (intro linked_cong) simp
    ultimately show ?thesis
      using c(1) d h3 p(2) pq ends pp Cons by (simp add: ring_def linked_append)
  qed
qed

lemma splice_between_ok:
  assumes rl: "ring st (l # qs)" and rh: "ring st (h # ps)" and dis: "set (l # qs) \<inter> set (h # ps) = {}" and ne: "qs \<noteq> []"
  shows "\<exists>st'. list_splice_between st l h = Some st' \<and> ring st' (h # qs @ ps) \<and> same_values st st' \<and>
    st' l = st l \<and> (\<forall>a. a \<notin> set (l # qs @ h # ps) \<longrightarrow> st' a = st a)"
proof -
  have qs: "first_or qs (Some l) = first_or qs None" "last_or (Some l) qs = last_or None qs"
    using ne by (simp_all add: first_or_def last_or_def split: list.splits)
  obtain nl where nl0: "st l = Some nl" "n_next nl = first_or qs (Some l)" "n_prev nl = last_or (Some l) qs"
    using rl by (rule ring_node)
  note nl = nl0 [unfolded qs]
  obtain nh where nh: "st h = Some nh" "n_next nh = first_or ps (Some h)" "n_prev nh = last_or (Some h) ps"
    using rh by (rule ring_node)
  let ?first = "first_or qs None" and ?last = "last_or None qs" and ?at = "first_or ps (Some h)"
  have q: "linked st (Some l) qs (Some l)" "distinct qs" using rl by (auto simp: ring_def split: option.splits)
  obtain f where f: "?first = Some f" using ne by (cases qs) auto
  obtain t where t: "?last = Some t" using ne by (auto simp: last_or_def)
  have in_qs: "f \<in> set qs" "t \<in> set qs" using f t first_or_SomeD [of qs None] last_or_SomeD [of None qs] by auto
  obtain st1 where st1: "set_prev st (Some f) (Some h) = Some st1" "linked st1 (Some h) qs (Some l)"
    "\<forall>a. a \<notin> set qs \<longrightarrow> st1 a = st a"
    using relink_prev [OF q, of "Some h"] f by auto
  let ?st2 = "st1(h \<mapsto> nh\<lparr>n_next := Some f\<rparr>)"
  have hq: "h \<notin> set qs" "l \<notin> set qs" "h \<noteq> l" "l \<notin> set ps" using dis rl by (auto simp: ring_def)
  have st2: "set_next st1 (Some h) (Some f) = Some ?st2" using nh(1) st1(3) hq by (simp add: set_next_def)
  have "linked ?st2 (Some h) qs (Some l)" using st1(2) hq by simp
  from relink_next [OF this q(2), of ?at] t obtain st3 where st3: "set_next ?st2 (Some t) ?at = Some st3"
    "linked st3 (Some h) qs ?at" "\<forall>a. a \<notin> set qs \<longrightarrow> st3 a = ?st2 a"
    by auto
  define p where "p = hd (ps @ [h])"
  have at: "?at = Some p" by (cases ps) (simp_all add: p_def)
  have pm: "p \<in> set (h # ps)" by (cases ps) (simp_all add: p_def)
  then have pq: "p \<notin> set qs" using dis by auto
  obtain m where "st p = Some m" using ring_dom [OF rh pm] by blast
  then obtain np where p: "st3 p = Some np" using st3(3) st1(3) pq by (cases "p = h") auto
  let ?st4 = "st3(p \<mapsto> np\<lparr>n_prev := Some t\<rparr>)"
  have st4: "set_prev st3 (Some p) (Some t) = Some ?st4" using p by (simp add: set_prev_def)
  have "list_splice_between st l h = Some ?st4"
    using nl nh(1,2) f t st1(1) st2 st3(1) st4 at by (simp add: list_splice_between_def)
  moreover have "ring ?st4 (h # qs @ ps)"
  proof -
    have "st3 a = st a" if "a \<in> set ps" for a
    proof -
      have "a \<notin> set qs" "a \<noteq> h" using that dis rh by (auto simp: ring_def)
      then show ?thesis using st3(3) st1(3) by simp
    qed
    moreover have "st3 h = Some (nh\<lparr>n_next := first_or qs None\<rparr>)" using st3(3) hq f by simp
    ultimately show ?thesis
      using ring_joined [OF rh st3(2) q(2) ne _ _ nh(3) _ p_def p] dis t by auto
  qed
  moreover have "same_values st ?st4"
    using set_values(1) [OF st1(1)] set_values(2) [OF st2] set_values(2) [OF st3(1)] set_values(1) [OF st4]
    by (blast intro: same_values_trans)
  moreover have "?st4 l = st l" "\<forall>a. a \<notin> set (l # qs @ h # ps) \<longrightarrow> ?st4 a = st a"
    using st3(3) st1(3) hq pm by auto
  ultimately show ?thesis by blast
qed

lemma list_empty_ok:
  assumes "ring st (h # ps)"
  shows "list_empty st h = Some (ps = [])"
proof -
  obtain n where "st h = Some n" "n_next n = first_or ps (Some h)" using assms by (rule ring_node)
  moreover have "h \<notin> set ps" using assms by (simp add: ring_def)
  ultimately show ?thesis by (cases ps) (auto simp: list_empty_def)
qed

section \<open>Loops\<close>

lemma for_each_loop_ok:
  "linked st pr ps (Some h) \<Longrightarrow> h \<notin> set ps \<Longrightarrow> for_each_loop st h (first_or ps (Some h)) = Some ps"
proof (induction ps arbitrary: pr)
  case Nil
  then show ?case by (subst for_each_loop.simps) simp
next
  case (Cons p ps)
  then obtain n where n: "st p = Some n" "n_next n = first_or ps (Some h)" "linked st (Some p) ps (Some h)"
    by (auto split: option.splits)
  from Cons.IH [OF n(3)] Cons.prems(2) n show ?case by (subst for_each_loop.simps) simp
qed

lemma list_for_each_ok: "ring st (h # ps) \<Longrightarrow> list_for_each st h = Some ps"
  using for_each_loop_ok [of st "Some h" ps h]
  by (auto simp: list_for_each_def ring_def split: option.splits)

lemma for_each_prev_loop_ok:
  "linked st (Some h) ps nx \<Longrightarrow> h \<notin> set ps \<Longrightarrow> for_each_prev_loop st h (last_or (Some h) ps) = Some (rev ps)"
proof (induction ps arbitrary: nx rule: rev_induct)
  case Nil
  then show ?case by (subst for_each_prev_loop.simps) simp
next
  case (snoc p ps)
  then obtain n where n: "st p = Some n" "n_prev n = last_or (Some h) ps" "linked st (Some h) ps (Some p)"
    by (auto simp: linked_append split: option.splits)
  from snoc.IH [OF n(3)] snoc.prems(2) n show ?case by (subst for_each_prev_loop.simps) simp
qed

lemma list_for_each_prev_ok: "ring st (h # ps) \<Longrightarrow> list_for_each_prev st h = Some (rev ps)"
  using for_each_prev_loop_ok [of st h ps "Some h"]
  by (auto simp: list_for_each_prev_def ring_def split: option.splits)

lemma ring_next:
  assumes "ring st (xs @ q # ys)"
  obtains n where "st q = Some n" "n_next n = first_or (ys @ xs) (Some q)"
proof -
  have "ring st (q # ys @ xs)" using assms ring_rotate [of st xs "q # ys"] by simp
  then show thesis by (rule ring_node) (rule that)
qed

lemma for_each_safe_loop_ok:
  assumes "ring st (h # as @ bs)" "bs = [] \<or> n = first_or (tl bs) (Some h)"
  shows "\<exists>st'. for_each_safe_loop unwanted st h (first_or bs (Some h)) n = Some (st', bs) \<and>
    ring st' (h # as @ filter (\<lambda>p. \<not> unwanted p) bs) \<and> same_values st st' \<and>
    (\<forall>a. a \<notin> set (h # as @ bs) \<longrightarrow> st' a = st a)"
  using assms
proof (induction bs arbitrary: st as n)
  case Nil
  then show ?case by (subst for_each_safe_loop.simps) auto
next
  case (Cons b bs)
  have b: "b \<noteq> h" using Cons.prems(1) by (auto simp: ring_def)
  define as' where "as' = (if unwanted b then as else as @ [b])"
  obtain st1 where st1: "(if unwanted b then list_del st b else Some st) = Some st1" "ring st1 (h # as' @ bs)"
    "same_values st st1" "\<forall>a. a \<notin> set (h # as @ b # bs) \<longrightarrow> st1 a = st a"
    using list_del_ok [OF Cons.prems(1)] Cons.prems(1) by (cases "unwanted b") (auto simp: as'_def)
  have n: "n = first_or bs (Some h)" using Cons.prems(2) by simp
  obtain nn where nn: "deref st1 n = Some nn" "bs = [] \<or> n_next nn = first_or (tl bs) (Some h)"
  proof (cases bs)
    case Nil
    with n that ring_dom [OF st1(2), of h] show thesis by auto
  next
    case (Cons c cs)
    have "ring st1 ((h # as') @ c # cs)" using st1(2) Cons by simp
    then obtain m where "st1 c = Some m" "n_next m = first_or (cs @ h # as') (Some c)" by (rule ring_next)
    with n that Cons show thesis by simp
  qed
  obtain st' where st': "for_each_safe_loop unwanted st1 h (first_or bs (Some h)) (n_next nn) = Some (st', bs)"
    "ring st' (h # as' @ filter (\<lambda>p. \<not> unwanted p) bs)" "same_values st1 st'"
    "\<forall>a. a \<notin> set (h # as' @ bs) \<longrightarrow> st' a = st1 a"
    using Cons.IH [OF st1(2) nn(2)] by blast
  have "for_each_safe_loop unwanted st h (Some b) n = Some (st', b # bs)"
    using b st1(1) nn(1) st'(1) n by (subst for_each_safe_loop.simps) simp
  moreover have "ring st' (h # as @ filter (\<lambda>p. \<not> unwanted p) (b # bs))"
    using st'(2) by (cases "unwanted b") (simp_all add: as'_def)
  moreover have "\<forall>a. a \<notin> set (h # as @ b # bs) \<longrightarrow> st' a = st a" using st1(4) st'(4) by (auto simp: as'_def split: if_splits)
  ultimately show ?case using same_values_trans [OF st1(3) st'(3)] by auto
qed

text \<open>
  The loop that is safe against removal gives every element to its body once, whichever the bodies delete, and leaves the
  others, in order.
\<close>

lemma list_for_each_safe_ok:
  assumes "ring st (h # ps)"
  shows "\<exists>st'. list_for_each_safe unwanted st h = Some (st', ps) \<and> ring st' (h # filter (\<lambda>p. \<not> unwanted p) ps) \<and>
    same_values st st' \<and> (\<forall>a. a \<notin> set (h # ps) \<longrightarrow> st' a = st a)"
proof -
  obtain n where n: "st h = Some n" "n_next n = first_or ps (Some h)" using assms by (rule ring_node)
  obtain m where m: "deref st (n_next n) = Some m" "ps = [] \<or> n_next m = first_or (tl ps) (Some h)"
  proof (cases ps)
    case Nil
    with n that show thesis by simp
  next
    case (Cons c cs)
    have "ring st ([h] @ c # cs)" using assms Cons by simp
    then obtain m where "st c = Some m" "n_next m = first_or (cs @ [h]) (Some c)" by (rule ring_next)
    with n that Cons show thesis by simp
  qed
  from for_each_safe_loop_ok [of st h "[]" ps "n_next m" unwanted] assms n m show ?thesis
    by (simp add: list_for_each_safe_def)
qed

section \<open>Two lists\<close>

text \<open>
  Calls on two lists, with the heads \<open>h False\<close> and \<open>h True\<close>, and what they do to two sequences of addresses. An element
  that is added is a node that is in neither list.
\<close>

datatype klist_op =
    K_add bool nat | K_add_tail bool nat | K_del nat | K_del_init nat
  | K_move nat bool | K_move_tail nat bool | K_splice_init bool | K_for_each_safe bool "nat list"

type_synonym two_lists = "bool \<Rightarrow> nat list"

definition without :: "nat \<Rightarrow> two_lists \<Rightarrow> two_lists" where
  "without q s = (\<lambda>b. filter (\<lambda>p. p \<noteq> q) (s b))"

fun klist_step :: "(bool \<Rightarrow> nat) \<Rightarrow> 'v store \<Rightarrow> klist_op \<Rightarrow> 'v store option" where
  "klist_step h st (K_add b q) = list_add st q (h b)"
| "klist_step h st (K_add_tail b q) = list_add_tail st q (h b)"
| "klist_step h st (K_del q) = list_del st q"
| "klist_step h st (K_del_init q) = list_del_init st q"
| "klist_step h st (K_move q b) = list_move st q (h b)"
| "klist_step h st (K_move_tail q b) = list_move_tail st q (h b)"
| "klist_step h st (K_splice_init b) = list_splice_init st (h b) (h (\<not> b))"
| "klist_step h st (K_for_each_safe b qs) = map_option fst (list_for_each_safe (\<lambda>q. q \<in> set qs) st (h b))"

fun klist_spec :: "two_lists \<Rightarrow> klist_op \<Rightarrow> two_lists" where
  "klist_spec s (K_add b q) = s(b := q # s b)"
| "klist_spec s (K_add_tail b q) = s(b := s b @ [q])"
| "klist_spec s (K_del q) = without q s"
| "klist_spec s (K_del_init q) = without q s"
| "klist_spec s (K_move q b) = (without q s)(b := q # without q s b)"
| "klist_spec s (K_move_tail q b) = (without q s)(b := without q s b @ [q])"
| "klist_spec s (K_splice_init b) = s(b := [], \<not> b := s b @ s (\<not> b))"
| "klist_spec s (K_for_each_safe b qs) = s(b := filter (\<lambda>q. q \<notin> set qs) (s b))"

fun klist_valid :: "(bool \<Rightarrow> nat) \<Rightarrow> 'v store \<Rightarrow> two_lists \<Rightarrow> klist_op \<Rightarrow> bool" where
  "klist_valid h st s (K_add b q) \<longleftrightarrow> st q \<noteq> None \<and> (\<forall>b. q \<notin> set (h b # s b))"
| "klist_valid h st s (K_add_tail b q) \<longleftrightarrow> st q \<noteq> None \<and> (\<forall>b. q \<notin> set (h b # s b))"
| "klist_valid h st s (K_del q) \<longleftrightarrow> (\<exists>b. q \<in> set (s b))"
| "klist_valid h st s (K_del_init q) \<longleftrightarrow> (\<exists>b. q \<in> set (s b))"
| "klist_valid h st s (K_move q b) \<longleftrightarrow> (\<exists>b. q \<in> set (s b))"
| "klist_valid h st s (K_move_tail q b) \<longleftrightarrow> (\<exists>b. q \<in> set (s b))"
| "klist_valid h st s _ \<longleftrightarrow> True"

definition klist_inv :: "(bool \<Rightarrow> nat) \<Rightarrow> 'v store \<Rightarrow> two_lists \<Rightarrow> bool" where
  "klist_inv h st s \<longleftrightarrow> (\<forall>b. ring st (h b # s b)) \<and> set (h False # s False) \<inter> set (h True # s True) = {}"

lemma klist_inv_iff:
  "klist_inv h st s \<longleftrightarrow> ring st (h b # s b) \<and> ring st (h (\<not> b) # s (\<not> b)) \<and> set (h b # s b) \<inter> set (h (\<not> b) # s (\<not> b)) = {}"
  unfolding klist_inv_def by (cases b) (auto simp: all_bool_eq)

text \<open>An operation on the list \<open>b\<close> that stays within it and the nodes in no list.\<close>

lemma klist_inv_local:
  assumes inv: "klist_inv h st s" and r: "ring st' (h b # xs)" and frame: "\<forall>a. a \<notin> set (h b # s b) \<union> set xs \<longrightarrow> st' a = st a"
    and fresh: "set xs \<inter> set (h (\<not> b) # s (\<not> b)) = {}"
  shows "klist_inv h st' (s(b := xs))"
proof -
  have "set (h b # s b) \<inter> set (h (\<not> b) # s (\<not> b)) = {}" and o: "ring st (h (\<not> b) # s (\<not> b))"
    using inv klist_inv_iff [of h st s b] by simp_all
  with frame fresh have "\<And>a. a \<in> set (h (\<not> b) # s (\<not> b)) \<Longrightarrow> st' a = st a" by blast
  then have "ring st' (h (\<not> b) # s (\<not> b))" using ring_frame o by blast
  with r fresh \<open>set (h b # s b) \<inter> set (h (\<not> b) # s (\<not> b)) = {}\<close> show ?thesis
    using klist_inv_iff [of h st' "s(b := xs)" b] by auto
qed

lemma klist_unlink:
  assumes inv: "klist_inv h st s" and q: "q \<in> set (s b)"
  obtains as bs where "s b = as @ q # bs" "ring st (h b # as @ q # bs)" "without q s = s(b := as @ bs)"
    "\<forall>st'. ring st' (h b # as @ bs) \<longrightarrow> (\<forall>a. a \<notin> set (h b # as @ q # bs) \<longrightarrow> st' a = st a) \<longrightarrow> klist_inv h st' (without q s)"
    "q \<notin> set (h b # as @ bs)" "q \<notin> set (h (\<not> b) # s (\<not> b))"
proof -
  obtain as bs where s: "s b = as @ q # bs" using q by (auto simp: in_set_conv_decomp)
  have r: "ring st (h b # as @ q # bs)" and dis: "set (h b # s b) \<inter> set (h (\<not> b) # s (\<not> b)) = {}"
    using inv klist_inv_iff [of h st s b] s by simp_all
  then have d: "q \<notin> set (h b # as @ bs)" "q \<notin> set (h (\<not> b) # s (\<not> b))" using s by (auto simp: ring_def)
  have f: "filter (\<lambda>p. p \<noteq> q) xs = xs" if "q \<notin> set xs" for xs using that by (induction xs) auto
  have "without q s c = (s(b := as @ bs)) c" for c
    using d s by (cases "c = b"; cases b) (auto simp: without_def f)
  then have w: "without q s = s(b := as @ bs)" by blast
  show thesis
    using that [OF s r w _ d] klist_inv_local [OF inv, of _ b "as @ bs"] dis s w by fastforce
qed

lemma same_dom: "same_values st st' \<Longrightarrow> st' q = None \<longleftrightarrow> st q = None"
  unfolding same_values_def by (metis map_option_is_None)

lemma klist_add:
  assumes inv: "klist_inv h st s" and q: "st q \<noteq> None" "\<forall>b. q \<notin> set (h b # s b)"
  shows "\<exists>st'. list_add st q (h b) = Some st' \<and> klist_inv h st' (s(b := q # s b)) \<and> same_values st st'"
    "\<exists>st'. list_add_tail st q (h b) = Some st' \<and> klist_inv h st' (s(b := s b @ [q])) \<and> same_values st st'"
proof -
  have ring: "ring st (h b # s b)" and dis: "set (h b # s b) \<inter> set (h (\<not> b) # s (\<not> b)) = {}"
    using inv klist_inv_iff [of h st s b] by simp_all
  obtain n where n: "st q = Some n" "q \<notin> set (h b # s b)" "q \<notin> set (h (\<not> b) # s (\<not> b))" using q by auto
  obtain st' where st': "list_add st q (h b) = Some st'" "ring st' (h b # q # s b)" "same_values st st'"
    "\<forall>a. a \<notin> set (q # h b # s b) \<longrightarrow> st' a = st a"
    using list_add_ok [OF ring n(2,1)] by blast
  have "klist_inv h st' (s(b := q # s b))" using st'(2,4) dis n(3) by (intro klist_inv_local [OF inv]) auto
  with st' show "\<exists>st'. list_add st q (h b) = Some st' \<and> klist_inv h st' (s(b := q # s b)) \<and> same_values st st'" by blast
  obtain st' where st': "list_add_tail st q (h b) = Some st'" "ring st' (h b # s b @ [q])" "same_values st st'"
    "\<forall>a. a \<notin> set (q # h b # s b) \<longrightarrow> st' a = st a"
    using list_add_tail_ok [OF ring n(2,1)] by blast
  have "klist_inv h st' (s(b := s b @ [q]))" using st'(2,4) dis n(3) by (intro klist_inv_local [OF inv]) auto
  with st' show "\<exists>st'. list_add_tail st q (h b) = Some st' \<and> klist_inv h st' (s(b := s b @ [q])) \<and> same_values st st'" by blast
qed

text \<open>Cutting an element out of the list it is in.\<close>

lemma klist_cut:
  assumes inv: "klist_inv h st s" and q: "q \<in> set (s b)"
  shows "\<exists>n st'. st q = Some n \<and> list_del_between st (n_prev n) (n_next n) = Some st' \<and> klist_inv h st' (without q s) \<and>
      same_values st st' \<and> st' q \<noteq> None \<and> (\<forall>b. q \<notin> set (h b # without q s b))"
    "\<exists>st'. list_del st q = Some st' \<and> klist_inv h st' (without q s) \<and> same_values st st'"
    "\<exists>st'. list_del_init st q = Some st' \<and> klist_inv h st' (without q s) \<and> same_values st st'"
proof -
  obtain as bs where s: "s b = as @ q # bs" and r: "ring st (h b # as @ q # bs)" and w: "without q s = s(b := as @ bs)"
    and keep: "\<forall>st'. ring st' (h b # as @ bs) \<longrightarrow> (\<forall>a. a \<notin> set (h b # as @ q # bs) \<longrightarrow> st' a = st a) \<longrightarrow> klist_inv h st' (without q s)"
    and d: "q \<notin> set (h b # as @ bs)" "q \<notin> set (h (\<not> b) # s (\<not> b))"
    using inv q by (rule klist_unlink)
  obtain n st' where u: "st q = Some n" "list_del_between st (n_prev n) (n_next n) = Some st'" "ring st' (h b # as @ bs)"
    "same_values st st'" "st' q = Some n" "\<forall>a. a \<notin> set (h b # as @ bs) \<longrightarrow> st' a = st a"
    using unlink_ok [OF r] by blast
  have "klist_inv h st' (without q s)" using u(3,6) by (intro keep [rule_format]) auto
  moreover have "q \<notin> set (h c # without q s c)" for c
    using d by (cases "c = b"; cases b) (auto simp: w)
  ultimately show "\<exists>n st'. st q = Some n \<and> list_del_between st (n_prev n) (n_next n) = Some st' \<and> klist_inv h st' (without q s) \<and>
      same_values st st' \<and> st' q \<noteq> None \<and> (\<forall>b. q \<notin> set (h b # without q s b))"
    using u by blast
  show "\<exists>st'. list_del st q = Some st' \<and> klist_inv h st' (without q s) \<and> same_values st st'"
    using list_del_ok [OF r] keep by blast
  show "\<exists>st'. list_del_init st q = Some st' \<and> klist_inv h st' (without q s) \<and> same_values st st'"
    using list_del_init_ok [OF r] keep by blast
qed

lemma klist_move:
  assumes inv: "klist_inv h st s" and q: "q \<in> set (s b)"
  shows "\<exists>st'. list_move st q (h c) = Some st' \<and> klist_inv h st' ((without q s)(c := q # without q s c)) \<and> same_values st st'"
    "\<exists>st'. list_move_tail st q (h c) = Some st' \<and> klist_inv h st' ((without q s)(c := without q s c @ [q])) \<and> same_values st st'"
proof -
  from klist_cut(1) [OF inv q] obtain n st1 where u: "st q = Some n" "list_del_between st (n_prev n) (n_next n) = Some st1"
    "klist_inv h st1 (without q s)" "same_values st st1" "st1 q \<noteq> None" "\<forall>b. q \<notin> set (h b # without q s b)"
    by blast
  from klist_add [OF u(3,5,6), of c] u(1,2,4)
  show "\<exists>st'. list_move st q (h c) = Some st' \<and> klist_inv h st' ((without q s)(c := q # without q s c)) \<and> same_values st st'"
    "\<exists>st'. list_move_tail st q (h c) = Some st' \<and> klist_inv h st' ((without q s)(c := without q s c @ [q])) \<and> same_values st st'"
    by (auto simp: list_move_def list_move_tail_def intro: same_values_trans)
qed

lemma klist_splice:
  assumes inv: "klist_inv h st s"
  shows "\<exists>st'. list_splice_init st (h b) (h (\<not> b)) = Some st' \<and>
    klist_inv h st' (s(b := [], \<not> b := s b @ s (\<not> b))) \<and> same_values st st'"
proof (cases "s b = []")
  case True
  have ring: "ring st (h b # s b)" using inv by (simp add: klist_inv_def)
  have "list_splice_init st (h b) (h (\<not> b)) = Some st"
    using True list_empty_ok [OF ring] by (simp add: list_splice_init_def)
  moreover have "s(b := [], \<not> b := s b @ s (\<not> b)) = s" using True by (auto simp: fun_eq_iff)
  ultimately show ?thesis using inv by simp
next
  case False
  have ring: "ring st (h b # s b)" for b using inv by (simp add: klist_inv_def)
  have dis: "set (h b # s b) \<inter> set (h (\<not> b) # s (\<not> b)) = {}" using inv klist_inv_iff [of h st s b] by simp
  obtain st1 where st1: "list_splice_between st (h b) (h (\<not> b)) = Some st1" "ring st1 (h (\<not> b) # s b @ s (\<not> b))"
    "same_values st st1" "st1 (h b) = st (h b)"
    using splice_between_ok [OF ring ring dis False] by blast
  obtain n where "st1 (h b) = Some n" using ring_dom [OF ring [of b], of "h b"] st1(4) by auto
  then obtain st2 where st2: "INIT_LIST_HEAD st1 (h b) = Some st2" "ring st2 [h b]" "same_values st1 st2"
    "\<forall>a. a \<noteq> h b \<longrightarrow> st2 a = st1 a"
    using INIT_LIST_HEAD_ok by blast
  have nb: "h b \<notin> set (h (\<not> b) # s b @ s (\<not> b))" using dis ring [of b] by (auto simp: ring_def)
  have "ring st2 (h (\<not> b) # s b @ s (\<not> b)) = ring st1 (h (\<not> b) # s b @ s (\<not> b))"
    by (rule ring_frame) (metis nb st2(4))
  with st1(2) st2(2) nb have "klist_inv h st2 (s(b := [], \<not> b := s b @ s (\<not> b)))"
    by (subst klist_inv_iff [of _ _ _ b]) auto
  moreover have "list_splice_init st (h b) (h (\<not> b)) = Some st2"
    using False list_empty_ok [OF ring, of b] st1(1) st2(1) by (simp add: list_splice_init_def)
  ultimately show ?thesis using same_values_trans [OF st1(3) st2(3)] by simp
qed

lemma klist_step_ok:
  assumes inv: "klist_inv h st s" and ok: "klist_valid h st s op"
  shows "\<exists>st'. klist_step h st op = Some st' \<and> klist_inv h st' (klist_spec s op) \<and> same_values st st'"
proof (cases op)
  case (K_add b q)
  with klist_add(1) [OF inv] ok show ?thesis by simp
next
  case (K_add_tail b q)
  with klist_add(2) [OF inv] ok show ?thesis by simp
next
  case (K_del q)
  with klist_cut(2) [OF inv] ok show ?thesis by auto
next
  case (K_del_init q)
  with klist_cut(3) [OF inv] ok show ?thesis by auto
next
  case (K_move q c)
  with klist_move(1) [OF inv] ok show ?thesis by auto
next
  case (K_move_tail q c)
  with klist_move(2) [OF inv] ok show ?thesis by auto
next
  case (K_for_each_safe b qs)
  have ring: "ring st (h b # s b)" using inv by (simp add: klist_inv_def)
  have dis: "set (h b # s b) \<inter> set (h (\<not> b) # s (\<not> b)) = {}" using inv klist_inv_iff [of h st s b] by simp
  obtain st' where st': "list_for_each_safe (\<lambda>q. q \<in> set qs) st (h b) = Some (st', s b)"
    "ring st' (h b # filter (\<lambda>q. q \<notin> set qs) (s b))" "same_values st st'" "\<forall>a. a \<notin> set (h b # s b) \<longrightarrow> st' a = st a"
    using list_for_each_safe_ok [OF ring] by blast
  then have "klist_inv h st' (s(b := filter (\<lambda>q. q \<notin> set qs) (s b)))"
    using dis by (intro klist_inv_local [OF inv]) auto
  with st' K_for_each_safe show ?thesis by simp
next
  case (K_splice_init b)
  with klist_splice [OF inv] show ?thesis by simp
qed

section \<open>Runs\<close>

fun klist_run :: "(bool \<Rightarrow> nat) \<Rightarrow> 'v store \<Rightarrow> klist_op list \<Rightarrow> 'v store option" where
  "klist_run h st [] = Some st"
| "klist_run h st (op # ops) = do { st1 \<leftarrow> klist_step h st op; klist_run h st1 ops }"

fun klist_all_valid :: "(bool \<Rightarrow> nat) \<Rightarrow> 'v store \<Rightarrow> two_lists \<Rightarrow> klist_op list \<Rightarrow> bool" where
  "klist_all_valid h st s [] \<longleftrightarrow> True"
| "klist_all_valid h st s (op # ops) \<longleftrightarrow> klist_valid h st s op \<and> klist_all_valid h st (klist_spec s op) ops"

text \<open>Only what is allocated decides which calls are allowed, and that never changes.\<close>

lemma klist_valid_cong: "same_values st st' \<Longrightarrow> klist_valid h st' s op = klist_valid h st s op"
  by (cases op) (simp_all del: not_None_eq add: same_dom)

lemma klist_all_valid_cong: "same_values st st' \<Longrightarrow> klist_all_valid h st' s ops = klist_all_valid h st s ops"
  by (induction ops arbitrary: s) (simp_all add: klist_valid_cong)

lemma klist_run_ok:
  "klist_inv h st s \<Longrightarrow> klist_all_valid h st s ops \<Longrightarrow>
     \<exists>st'. klist_run h st ops = Some st' \<and> klist_inv h st' (foldl klist_spec s ops) \<and> same_values st st'"
proof (induction ops arbitrary: st s)
  case (Cons op ops)
  obtain st1 where st1: "klist_step h st op = Some st1" "klist_inv h st1 (klist_spec s op)" "same_values st st1"
    using klist_step_ok [OF Cons.prems(1)] Cons.prems(2) by auto
  have "klist_all_valid h st1 (klist_spec s op) ops" using klist_all_valid_cong [OF st1(3)] Cons.prems(2) by simp
  from Cons.IH [OF st1(2) this] st1 show ?case by (auto intro: same_values_trans)
qed simp

text \<open>
  C34: Two lists are two sequences. After both heads are initialised, every sequence of calls that adds, deletes, moves
  between the lists, splices, or deletes in a safe loop runs without touching a null or dangling pointer and has the effect of the
  same operations on two sequences; both loops and the test for emptiness show the sequences, and no payload changes.
\<close>

theorem kernel_lists_are_sequences:
  assumes "st (h False) \<noteq> None" "st (h True) \<noteq> None" "h False \<noteq> h True"
    and "klist_all_valid h st (\<lambda>_. []) ops"
  shows "\<exists>st1 st2 st3. INIT_LIST_HEAD st (h False) = Some st1 \<and> INIT_LIST_HEAD st1 (h True) = Some st2 \<and>
    klist_run h st2 ops = Some st3 \<and>
    (\<forall>b. list_for_each st3 (h b) = Some (foldl klist_spec (\<lambda>_. []) ops b) \<and>
         list_for_each_prev st3 (h b) = Some (rev (foldl klist_spec (\<lambda>_. []) ops b)) \<and>
         list_empty st3 (h b) = Some (foldl klist_spec (\<lambda>_. []) ops b = [])) \<and>
    (\<forall>a. map_option n_value (st3 a) = map_option n_value (st a))"
proof -
  obtain st1 where st1: "INIT_LIST_HEAD st (h False) = Some st1" "ring st1 [h False]" "same_values st st1"
    using assms(1) INIT_LIST_HEAD_ok by blast
  have "st1 (h True) \<noteq> None" using same_dom [OF st1(3), of "h True"] assms(2) by metis
  then obtain st2 where st2: "INIT_LIST_HEAD st1 (h True) = Some st2" "ring st2 [h True]" "same_values st1 st2"
    "\<forall>a. a \<noteq> h True \<longrightarrow> st2 a = st1 a"
    using INIT_LIST_HEAD_ok by blast
  have "ring st2 [h False] = ring st1 [h False]" using st2(4) assms(3) by (intro ring_frame) auto
  then have inv: "klist_inv h st2 (\<lambda>_. [])" using st1(2) st2(2) assms(3) by (auto simp: klist_inv_def all_bool_eq)
  have sv: "same_values st st2" using st1(3) st2(3) by (rule same_values_trans)
  then have "klist_all_valid h st2 (\<lambda>_. []) ops" using klist_all_valid_cong [OF sv] assms(4) by simp
  from klist_run_ok [OF inv this] obtain st3 where st3: "klist_run h st2 ops = Some st3"
    "klist_inv h st3 (foldl klist_spec (\<lambda>_. []) ops)" "same_values st2 st3"
    by blast
  have r: "ring st3 (h b # foldl klist_spec (\<lambda>_. []) ops b)" for b using st3(2) by (simp add: klist_inv_def)
  have "same_values st st3" using sv st3(3) by (rule same_values_trans)
  then show ?thesis
    using st1(1) st2(1) st3(1) by (simp add: same_values_def list_for_each_ok [OF r] list_for_each_prev_ok [OF r] list_empty_ok [OF r])
qed

definition sample_store :: "nat store" where
  "sample_store a = (if a < 6 then Some \<lparr>n_prev = None, n_next = None, n_value = 10 * a\<rparr> else None)"

theorem kernel_lists_are_sequences_witness:
  "\<exists>st1 st2 st3. INIT_LIST_HEAD sample_store 0 = Some st1 \<and> INIT_LIST_HEAD st1 1 = Some st2 \<and>
    klist_run (\<lambda>b. if b then 1 else 0) st2
      [K_add False 2, K_add_tail False 3, K_add True 4, K_move 2 True, K_splice_init True, K_del 4] = Some st3 \<and>
    list_for_each st3 0 = Some [2, 3] \<and> list_empty st3 1 = Some True"
proof -
  let ?h = "\<lambda>b. if b then 1 else 0 :: nat"
  let ?ops = "[K_add False 2, K_add_tail False 3, K_add True 4, K_move 2 True, K_splice_init True, K_del 4]"
  have "klist_all_valid ?h sample_store (\<lambda>_. []) ?ops"
    by (simp add: sample_store_def without_def all_bool_eq ex_bool_eq)
  moreover have "foldl klist_spec (\<lambda>_. []) ?ops = (\<lambda>b. if b then [] else [2, 3])"
    by (rule ext) (simp add: without_def)
  moreover have "sample_store (?h False) \<noteq> None" "sample_store (?h True) \<noteq> None" "?h False \<noteq> ?h True"
    by (simp_all add: sample_store_def)
  ultimately show ?thesis
    using kernel_lists_are_sequences [of sample_store ?h ?ops] by (auto simp: all_bool_eq)
qed

end
