(* ===== verification/Element_Sequence.thy ===== *)
theory Element_Sequence
  imports Node_Store
begin

text \<open>
  The macros of \<^verbatim>\<open>util/queue.h\<close> have five families of lists with the same operations: an element is put at an end or
  beside another, taken out, or put in another's place. \<open>seq_op\<close> names an operation, \<open>seq_spec\<close> is what it does to a
  sequence, and the locale \<open>element_sequence\<close> is the contract a family keeps; runs of operations are then as on
  sequences, for every family.
\<close>

section \<open>Operations on a sequence\<close>

text \<open>
  An operation names elements by address; one that inserts does so with an element allocated for it.
  The specification is a sequence of addresses with what they carry.
\<close>

datatype 'v seq_op =
    Ins_head nat 'v | Ins_tail nat 'v | Ins_after nat nat 'v | Ins_before nat nat 'v
  | Remove nat | Replace nat nat 'v

definition seq_spec :: "'v seq_op \<Rightarrow> (nat \<times> 'v) list \<Rightarrow> (nat \<times> 'v) list" where
  "seq_spec op xs =
     (case op of
        Ins_head p v \<Rightarrow> (p, v) # xs
      | Ins_tail p v \<Rightarrow> xs @ [(p, v)]
      | Ins_after r p v \<Rightarrow> concat (map (\<lambda>x. if fst x = r then [x, (p, v)] else [x]) xs)
      | Ins_before r p v \<Rightarrow> concat (map (\<lambda>x. if fst x = r then [(p, v), x] else [x]) xs)
      | Remove r \<Rightarrow> filter (\<lambda>x. fst x \<noteq> r) xs
      | Replace r p v \<Rightarrow> map (\<lambda>x. if fst x = r then (p, v) else x) xs)"

text \<open>The element an operation inserts, and the one it names as already there.\<close>

definition inserted :: "'v seq_op \<Rightarrow> (nat \<times> 'v) option" where
  "inserted op =
     (case op of
        Ins_head p v \<Rightarrow> Some (p, v) | Ins_tail p v \<Rightarrow> Some (p, v) | Ins_after r p v \<Rightarrow> Some (p, v)
      | Ins_before r p v \<Rightarrow> Some (p, v) | Remove r \<Rightarrow> None | Replace r p v \<Rightarrow> Some (p, v))"

definition named :: "'v seq_op \<Rightarrow> nat option" where
  "named op =
     (case op of
        Ins_head p v \<Rightarrow> None | Ins_tail p v \<Rightarrow> None | Ins_after r p v \<Rightarrow> Some r
      | Ins_before r p v \<Rightarrow> Some r | Remove r \<Rightarrow> Some r | Replace r p v \<Rightarrow> Some r)"

text \<open>
  Valid use: what is inserted is not in the list, what is named is, and the family has the operation, which
  may depend on the elements that are there (\<open>ok\<close>).
\<close>

definition seq_valid :: "('v seq_op \<Rightarrow> nat list \<Rightarrow> bool) \<Rightarrow> 'v seq_op \<Rightarrow> nat list \<Rightarrow> bool" where
  "seq_valid ok op ps \<longleftrightarrow>
     (case inserted op of None \<Rightarrow> True | Some (p, v) \<Rightarrow> p \<notin> set ps) \<and>
     (case named op of None \<Rightarrow> True | Some r \<Rightarrow> r \<in> set ps) \<and> ok op ps"

fun seq_valid_run :: "('v seq_op \<Rightarrow> nat list \<Rightarrow> bool) \<Rightarrow> 'v seq_op list \<Rightarrow> (nat \<times> 'v) list \<Rightarrow> bool" where
  "seq_valid_run ok [] xs = True"
| "seq_valid_run ok (op # ops) xs = (seq_valid ok op (map fst xs) \<and> seq_valid_run ok ops (seq_spec op xs))"

lemmas seq_op_defs = seq_valid_def seq_spec_def inserted_def named_def

section \<open>Runs\<close>

text \<open>
  \<open>mac\<close> is the macro an operation stands for, \<open>alloc\<close> makes the element it inserts, and \<open>holds\<close> says that
  the list is a sequence of elements with what they carry.
\<close>

fun seq_run ::
  "('q \<Rightarrow> nat \<Rightarrow> 'v \<Rightarrow> 'q) \<Rightarrow> ('q \<Rightarrow> 'v seq_op \<Rightarrow> 'q option) \<Rightarrow> 'q \<Rightarrow> 'v seq_op list \<Rightarrow> 'q option" where
  "seq_run alloc mac q [] = Some q"
| "seq_run alloc mac q (op # ops) = do {
     q1 \<leftarrow> mac (case inserted op of None \<Rightarrow> q | Some (p, v) \<Rightarrow> alloc q p v) op;
     seq_run alloc mac q1 ops
   }"

definition seq_holds ::
  "('q \<Rightarrow> nat list \<Rightarrow> bool) \<Rightarrow> ('q \<Rightarrow> nat \<Rightarrow> 'v option) \<Rightarrow> 'q \<Rightarrow> (nat \<times> 'v) list \<Rightarrow> bool" where
  "seq_holds I body q xs \<longleftrightarrow> I q (map fst xs) \<and> list_all (\<lambda>x. body q (fst x) = Some (snd x)) xs"

section \<open>The loop over all elements\<close>

text \<open>
  \<open>foreach nx p\<close> is what a loop sees that starts at \<open>p\<close> and goes on with \<open>nx\<close> until there is no element; the loop's body
  only reads. It is \<open>None\<close> when an access is invalid or the loop does not end.
\<close>

partial_function (option) foreach :: "(nat \<Rightarrow> nat option option) \<Rightarrow> nat option \<Rightarrow> nat list option" where
  "foreach nx p =
     (case p of
        None \<Rightarrow> Some []
      | Some a \<Rightarrow> do { n \<leftarrow> nx a; ps \<leftarrow> foreach nx n; Some (a # ps) })"

lemma foreach_simps [simp]:
  "foreach nx None = Some []"
  "nx a = Some n \<Longrightarrow> foreach nx (Some a) = map_option ((#) a) (foreach nx n)"
  by (simp_all add: foreach.simps map_option_case Option.bind_def split: option.split)

section \<open>The contract of a family\<close>

text \<open>The same operation on addresses alone; at an element that occurs once it splits the list there.\<close>

definition addr_spec :: "'v seq_op \<Rightarrow> nat list \<Rightarrow> nat list" where
  "addr_spec op ps =
     (case op of
        Ins_head p v \<Rightarrow> p # ps
      | Ins_tail p v \<Rightarrow> ps @ [p]
      | Ins_after r p v \<Rightarrow> concat (map (\<lambda>x. if x = r then [x, p] else [x]) ps)
      | Ins_before r p v \<Rightarrow> concat (map (\<lambda>x. if x = r then [p, x] else [x]) ps)
      | Remove r \<Rightarrow> filter (\<lambda>x. x \<noteq> r) ps
      | Replace r p v \<Rightarrow> map (\<lambda>x. if x = r then p else x) ps)"

lemma addr_spec_fst: "map fst (seq_spec op xs) = addr_spec op (map fst xs)"
  by (cases op; induction xs; simp add: seq_spec_def addr_spec_def)

lemma absent:
  assumes "r \<notin> set ps"
  shows "concat (map (\<lambda>x. if x = r then f x else [x]) ps) = ps"
    "map (\<lambda>x. if x = r then p else x) ps = ps" "filter (\<lambda>x. x \<noteq> r) ps = ps"
  using assms by (induction ps) auto

lemma addr_spec_simps [simp]:
  "addr_spec (Ins_head p v) ps = p # ps"
  "addr_spec (Ins_tail p v) ps = ps @ [p]"
  by (simp_all add: addr_spec_def)

lemma addr_spec_at:
  assumes "r \<notin> set as" "r \<notin> set bs"
  shows "addr_spec (Ins_after r p v) (as @ r # bs) = as @ r # p # bs"
    "addr_spec (Ins_before r p v) (as @ r # bs) = as @ p # r # bs"
    "addr_spec (Remove r) (as @ r # bs) = as @ bs"
    "addr_spec (Replace r p v) (as @ r # bs) = as @ p # bs"
  using assms by (simp_all add: addr_spec_def absent)

lemma addr_spec_remove_head [simp]: "r \<notin> set bs \<Longrightarrow> addr_spec (Remove r) (r # bs) = bs"
  by (simp add: addr_spec_at(3) [of r "[]", simplified])

lemma first_or_Some [simp]: "first_or ps (Some r) \<noteq> None" "first_or ps x = None \<longleftrightarrow> ps = [] \<and> x = None"
  by (cases ps; simp)+

lemma in_seq_spec: "x \<in> set (seq_spec op xs) \<Longrightarrow> x \<in> set xs \<or> inserted op = Some x"
  by (cases op) (auto simp: seq_spec_def inserted_def split: if_splits)

lemma distinct_splitE:
  assumes "distinct ps" "r \<in> set ps"
  obtains as bs where "ps = as @ r # bs" "r \<notin> set as" "r \<notin> set bs"
  using assms by (auto simp: in_set_conv_decomp)

locale element_sequence =
  fixes inv :: "'q \<Rightarrow> nat list \<Rightarrow> bool"
    and body :: "'q \<Rightarrow> nat \<Rightarrow> 'v option"
    and alloc :: "'q \<Rightarrow> nat \<Rightarrow> 'v \<Rightarrow> 'q"
    and mac :: "'q \<Rightarrow> 'v seq_op \<Rightarrow> 'q option"
    and ok :: "'v seq_op \<Rightarrow> nat list \<Rightarrow> bool"
  assumes alloc_law: "inv q ps \<Longrightarrow> p \<notin> set ps \<Longrightarrow>
      inv (alloc q p v) ps \<and> (\<forall>a. body (alloc q p v) a = (if a = p then Some v else body q a))"
    and mac_law: "inv q ps \<Longrightarrow> seq_valid ok op ps \<Longrightarrow>
      (case inserted op of None \<Rightarrow> True | Some (p, v) \<Rightarrow> body q p = Some v) \<Longrightarrow>
      \<exists>q'. mac q op = Some q' \<and> inv q' (addr_spec op ps) \<and> (\<forall>a. body q' a = body q a)"
begin

lemma call_ok:
  assumes "seq_holds inv body q xs" "seq_valid ok op (map fst xs)"
  shows "\<exists>q'. mac (case inserted op of None \<Rightarrow> q | Some (p, v) \<Rightarrow> alloc q p v) op = Some q' \<and>
           seq_holds inv body q' (seq_spec op xs)"
proof -
  let ?q1 = "case inserted op of None \<Rightarrow> q | Some (p, v) \<Rightarrow> alloc q p v"
  have q1: "inv ?q1 (map fst xs) \<and> list_all (\<lambda>x. body ?q1 (fst x) = Some (snd x)) xs \<and>
      (case inserted op of None \<Rightarrow> True | Some (p, v) \<Rightarrow> body ?q1 p = Some v)"
  proof (cases "inserted op")
    case None
    with assms(1) show ?thesis by (simp add: seq_holds_def)
  next
    case (Some pv)
    then obtain p v where pv: "inserted op = Some (p, v)" by (cases pv) auto
    then have p: "p \<notin> set (map fst xs)" using assms(2) by (simp add: seq_valid_def)
    with alloc_law [OF _ p, of q v] assms(1) show ?thesis
      by (auto simp: pv seq_holds_def list_all_iff)
  qed
  from mac_law [of ?q1, OF _ assms(2)] q1 obtain q' where q': "mac ?q1 op = Some q'"
    "inv q' (addr_spec op (map fst xs))" "\<forall>a. body q' a = body ?q1 a" by blast
  have "body ?q1 (fst x) = Some (snd x)" if "x \<in> set (seq_spec op xs)" for x
    using in_seq_spec [OF that] q1 by (auto simp: list_all_iff)
  with q' show ?thesis by (auto simp: seq_holds_def addr_spec_fst list_all_iff)
qed

lemma run_ok:
  "seq_holds inv body q xs \<Longrightarrow> seq_valid_run ok ops xs \<Longrightarrow>
     \<exists>q'. seq_run alloc mac q ops = Some q' \<and> seq_holds inv body q' (fold seq_spec ops xs)"
proof (induction ops arbitrary: q xs)
  case (Cons op ops)
  obtain q1 where "mac (case inserted op of None \<Rightarrow> q | Some (p, v) \<Rightarrow> alloc q p v) op = Some q1"
    "seq_holds inv body q1 (seq_spec op xs)"
    using call_ok [OF Cons.prems(1)] Cons.prems(2) by auto
  with Cons.IH [of q1 "seq_spec op xs"] Cons.prems(2) show ?case by simp
qed simp

text \<open>A run on a new list.\<close>

lemma run_new:
  assumes "inv q []" "seq_valid_run ok ops []" "xs = fold seq_spec ops []"
  obtains q' where "seq_run alloc mac q ops = Some q'" "seq_holds inv body q' xs" "inv q' (map fst xs)"
proof -
  have "seq_holds inv body q []" using assms(1) by (simp add: seq_holds_def)
  from run_ok [OF this assms(2)] obtain q' where "seq_run alloc mac q ops = Some q'" "seq_holds inv body q' xs"
    unfolding assms(3) by blast
  then show ?thesis using that by (simp add: seq_holds_def)
qed

end

end
