(* ===== verification/Tail_Queue.thy ===== *)
theory Tail_Queue
  imports Element_Sequence
begin

text \<open>
  The tail queues of \<^verbatim>\<open>util/queue.h\<close> (the TAILQ macros) on an explicit store. An element does not
  point back to its predecessor but to the pointer that points to it: a \<open>pp\<close> is the address of such
  a pointer, \<open>tqh_first\<close> of the head or \<open>tqe_next\<close> of an element, and writing through it is
  \<open>write_pp\<close>. \<open>TAILQ_LAST\<close> and \<open>TAILQ_PREV\<close> rely on an element's link fields having the layout of a
  queue head; \<open>pp_second\<close> is the field that follows a pointer in either of the two. A macro's
  result is \<open>None\<close> when it follows a pointer that is null or dangling.
\<close>

section \<open>Data\<close>

datatype pp = Head_first | Next_of nat

record 'v tq_elem =
  tqe_next :: "nat option"
  tqe_prev :: pp
  tqe_body :: 'v

record 'v tailq =
  tq_store :: "nat \<rightharpoonup> 'v tq_elem"
  tqh_first :: "nat option"
  tqh_last :: pp

definition read_pp :: "'v tailq \<Rightarrow> pp \<Rightarrow> nat option option" where
  "read_pp q x = (case x of Head_first \<Rightarrow> Some (tqh_first q) | Next_of a \<Rightarrow> map_option tqe_next (tq_store q a))"

definition write_pp :: "'v tailq \<Rightarrow> pp \<Rightarrow> nat option \<Rightarrow> 'v tailq option" where
  "write_pp q x p =
     (case x of
        Head_first \<Rightarrow> Some (q\<lparr>tqh_first := p\<rparr>)
      | Next_of a \<Rightarrow> do {
          e \<leftarrow> tq_store q a;
          Some (q\<lparr>tq_store := (tq_store q)(a \<mapsto> e\<lparr>tqe_next := p\<rparr>)\<rparr>)
        })"

definition pp_second :: "'v tailq \<Rightarrow> pp \<Rightarrow> pp option" where
  "pp_second q x = (case x of Head_first \<Rightarrow> Some (tqh_last q) | Next_of a \<Rightarrow> map_option tqe_prev (tq_store q a))"

definition set_tqe_next :: "'v tailq \<Rightarrow> nat \<Rightarrow> nat option \<Rightarrow> 'v tailq option" where
  "set_tqe_next q a p = do {
     e \<leftarrow> tq_store q a;
     Some (q\<lparr>tq_store := (tq_store q)(a \<mapsto> e\<lparr>tqe_next := p\<rparr>)\<rparr>)
   }"

definition set_tqe_prev :: "'v tailq \<Rightarrow> nat \<Rightarrow> pp \<Rightarrow> 'v tailq option" where
  "set_tqe_prev q a x = do {
     e \<leftarrow> tq_store q a;
     Some (q\<lparr>tq_store := (tq_store q)(a \<mapsto> e\<lparr>tqe_prev := x\<rparr>)\<rparr>)
   }"

section \<open>The macros\<close>

definition TAILQ_FIRST :: "'v tailq \<Rightarrow> nat option" where
  "TAILQ_FIRST q = tqh_first q"

definition TAILQ_NEXT :: "'v tailq \<Rightarrow> nat \<Rightarrow> nat option option" where
  "TAILQ_NEXT q elm = map_option tqe_next (tq_store q elm)"

definition TAILQ_LAST :: "'v tailq \<Rightarrow> nat option option" where
  "TAILQ_LAST q = do { x \<leftarrow> pp_second q (tqh_last q); read_pp q x }"

definition TAILQ_PREV :: "'v tailq \<Rightarrow> nat \<Rightarrow> nat option option" where
  "TAILQ_PREV q elm = do { e \<leftarrow> tq_store q elm; x \<leftarrow> pp_second q (tqe_prev e); read_pp q x }"

definition TAILQ_EMPTY :: "'v tailq \<Rightarrow> bool" where
  "TAILQ_EMPTY q \<longleftrightarrow> TAILQ_FIRST q = None"

definition TAILQ_FOREACH :: "'v tailq \<Rightarrow> nat list option" where
  "TAILQ_FOREACH q = foreach (TAILQ_NEXT q) (TAILQ_FIRST q)"

definition TAILQ_FOREACH_REVERSE :: "'v tailq \<Rightarrow> nat list option" where
  "TAILQ_FOREACH_REVERSE q = do { p \<leftarrow> TAILQ_LAST q; foreach (TAILQ_PREV q) p }"

text \<open>The loop whose body may unlink and free the element it is at: the next one is read before.\<close>

partial_function (option) foreach_safe ::
  "('v tailq \<Rightarrow> nat \<Rightarrow> 'v tailq option) \<Rightarrow> 'v tailq \<Rightarrow> nat option \<Rightarrow> 'v tailq option" where
  "foreach_safe body q var =
     (case var of
        None \<Rightarrow> Some q
      | Some a \<Rightarrow> do { tvar \<leftarrow> TAILQ_NEXT q a; q1 \<leftarrow> body q a; foreach_safe body q1 tvar })"

definition TAILQ_FOREACH_SAFE :: "('v tailq \<Rightarrow> nat \<Rightarrow> 'v tailq option) \<Rightarrow> 'v tailq \<Rightarrow> 'v tailq option" where
  "TAILQ_FOREACH_SAFE body q = foreach_safe body q (TAILQ_FIRST q)"

definition TAILQ_INIT :: "'v tailq \<Rightarrow> 'v tailq" where
  "TAILQ_INIT q = q\<lparr>tqh_first := None, tqh_last := Head_first\<rparr>"

definition TAILQ_INSERT_HEAD :: "'v tailq \<Rightarrow> nat \<Rightarrow> 'v tailq option" where
  "TAILQ_INSERT_HEAD q elm = do {
     q1 \<leftarrow> set_tqe_next q elm (tqh_first q);
     q2 \<leftarrow> (case tqh_first q1 of
              Some f \<Rightarrow> set_tqe_prev q1 f (Next_of elm)
            | None \<Rightarrow> Some (q1\<lparr>tqh_last := Next_of elm\<rparr>));
     set_tqe_prev (q2\<lparr>tqh_first := Some elm\<rparr>) elm Head_first
   }"

definition TAILQ_INSERT_TAIL :: "'v tailq \<Rightarrow> nat \<Rightarrow> 'v tailq option" where
  "TAILQ_INSERT_TAIL q elm = do {
     q1 \<leftarrow> set_tqe_next q elm None;
     q2 \<leftarrow> set_tqe_prev q1 elm (tqh_last q1);
     q3 \<leftarrow> write_pp q2 (tqh_last q2) (Some elm);
     Some (q3\<lparr>tqh_last := Next_of elm\<rparr>)
   }"

definition TAILQ_INSERT_AFTER :: "'v tailq \<Rightarrow> nat \<Rightarrow> nat \<Rightarrow> 'v tailq option" where
  "TAILQ_INSERT_AFTER q listelm elm = do {
     nx \<leftarrow> TAILQ_NEXT q listelm;
     q1 \<leftarrow> set_tqe_next q elm nx;
     q2 \<leftarrow> (case nx of
              Some n \<Rightarrow> set_tqe_prev q1 n (Next_of elm)
            | None \<Rightarrow> Some (q1\<lparr>tqh_last := Next_of elm\<rparr>));
     q3 \<leftarrow> set_tqe_next q2 listelm (Some elm);
     set_tqe_prev q3 elm (Next_of listelm)
   }"

definition TAILQ_INSERT_BEFORE :: "'v tailq \<Rightarrow> nat \<Rightarrow> nat \<Rightarrow> 'v tailq option" where
  "TAILQ_INSERT_BEFORE q listelm elm = do {
     e \<leftarrow> tq_store q listelm;
     q1 \<leftarrow> set_tqe_prev q elm (tqe_prev e);
     q2 \<leftarrow> set_tqe_next q1 elm (Some listelm);
     e2 \<leftarrow> tq_store q2 listelm;
     q3 \<leftarrow> write_pp q2 (tqe_prev e2) (Some elm);
     set_tqe_prev q3 listelm (Next_of elm)
   }"

definition TAILQ_REMOVE :: "'v tailq \<Rightarrow> nat \<Rightarrow> 'v tailq option" where
  "TAILQ_REMOVE q elm = do {
     e \<leftarrow> tq_store q elm;
     q1 \<leftarrow> (case tqe_next e of
              Some n \<Rightarrow> set_tqe_prev q n (tqe_prev e)
            | None \<Rightarrow> Some (q\<lparr>tqh_last := tqe_prev e\<rparr>));
     e1 \<leftarrow> tq_store q1 elm;
     write_pp q1 (tqe_prev e1) (tqe_next e1)
   }"

definition TAILQ_REPLACE :: "'v tailq \<Rightarrow> nat \<Rightarrow> nat \<Rightarrow> 'v tailq option" where
  "TAILQ_REPLACE q elm elm2 = do {
     e \<leftarrow> tq_store q elm;
     q1 \<leftarrow> set_tqe_next q elm2 (tqe_next e);
     q2 \<leftarrow> (case tqe_next e of
              Some n \<Rightarrow> set_tqe_prev q1 n (Next_of elm2)
            | None \<Rightarrow> Some (q1\<lparr>tqh_last := Next_of elm2\<rparr>));
     e2 \<leftarrow> tq_store q2 elm;
     q3 \<leftarrow> set_tqe_prev q2 elm2 (tqe_prev e2);
     write_pp q3 (tqe_prev e2) (Some elm2)
   }"

section \<open>Invariant\<close>

fun tq_linked :: "(nat \<rightharpoonup> 'v tq_elem) \<Rightarrow> pp \<Rightarrow> nat list \<Rightarrow> nat option \<Rightarrow> bool" where
  "tq_linked st x [] nx = True"
| "tq_linked st x (p # ps) nx =
     ((case st p of None \<Rightarrow> False | Some e \<Rightarrow> tqe_prev e = x \<and> tqe_next e = first_or ps nx) \<and>
      tq_linked st (Next_of p) ps nx)"

definition pp_after :: "pp \<Rightarrow> nat list \<Rightarrow> pp" where
  "pp_after x ps = (if ps = [] then x else Next_of (last ps))"

lemma pp_after_simps [simp]:
  "pp_after x [] = x" "pp_after x (p # ps) = pp_after (Next_of p) ps"
  "pp_after x (ps @ qs) = pp_after (pp_after x ps) qs"
  by (auto simp: pp_after_def)

definition tq_inv :: "'v tailq \<Rightarrow> nat list \<Rightarrow> bool" where
  "tq_inv q ps \<longleftrightarrow>
     distinct ps \<and> tq_linked (tq_store q) Head_first ps None \<and>
     tqh_first q = first_or ps None \<and> tqh_last q = pp_after Head_first ps"

definition tq_bodies :: "'v tailq \<Rightarrow> nat list \<Rightarrow> 'v list" where
  "tq_bodies q ps = map (\<lambda>p. tqe_body (the (tq_store q p))) ps"

lemma tq_bodies_simps [simp]:
  "tq_bodies q [] = []" "tq_bodies q (p # ps) = tqe_body (the (tq_store q p)) # tq_bodies q ps"
  "tq_bodies q (ps @ qs) = tq_bodies q ps @ tq_bodies q qs"
  "length (tq_bodies q ps) = length ps"
  by (simp_all add: tq_bodies_def)

lemma tq_linked_append:
  "tq_linked st x (ps @ qs) nx \<longleftrightarrow>
     tq_linked st x ps (first_or qs nx) \<and> tq_linked st (pp_after x ps) qs nx"
  by (induction ps arbitrary: x) (auto split: option.splits)

lemma tq_linked_frame [simp]: "p \<notin> set ps \<Longrightarrow> tq_linked (st(p := e)) x ps nx = tq_linked st x ps nx"
  by (induction ps arbitrary: x) auto

lemma tq_linked_dom: "tq_linked st x ps nx \<Longrightarrow> p \<in> set ps \<Longrightarrow> \<exists>e. st p = Some e"
  by (induction ps arbitrary: x) (auto split: option.splits)

lemma tq_bodies_cong:
  "(\<And>p. p \<in> set ps \<Longrightarrow> map_option tqe_body (tq_store q' p) = map_option tqe_body (tq_store q p)) \<Longrightarrow>
   (\<And>p. p \<in> set ps \<Longrightarrow> tq_store q p \<noteq> None) \<Longrightarrow> tq_bodies q' ps = tq_bodies q ps"
  by (fastforce simp: tq_bodies_def)

lemma tq_around:
  assumes "tq_linked st Head_first (as @ p # bs) None"
  obtains e where "st p = Some e" "tqe_prev e = pp_after Head_first as" "tqe_next e = first_or bs None"
    "tq_linked st Head_first as (Some p)" "tq_linked st (Next_of p) bs None"
  using assms by (auto simp: tq_linked_append split: option.splits)

lemmas tq_defs = tq_inv_def tq_linked_append set_tqe_next_def set_tqe_prev_def write_pp_def read_pp_def

text \<open>An element that is to be inserted is allocated, and not in the queue.\<close>

lemma TAILQ_INIT_ok: "tq_inv (TAILQ_INIT q) []"
  by (simp add: tq_inv_def TAILQ_INIT_def)

lemma TAILQ_INSERT_TAIL_ok:
  assumes inv: "tq_inv q ps" and p: "tq_store q p = Some e" "p \<notin> set ps"
  shows "\<exists>q'. TAILQ_INSERT_TAIL q p = Some q' \<and> tq_inv q' (ps @ [p]) \<and>
           (\<forall>a. map_option tqe_body (tq_store q' a) = map_option tqe_body (tq_store q a))"
proof (cases ps rule: rev_cases)
  case Nil
  with inv p show ?thesis by (auto simp: TAILQ_INSERT_TAIL_def tq_defs)
next
  case (snoc qs r)
  obtain f where "tq_store q r = Some f"
    using inv by (auto simp: tq_inv_def snoc elim: tq_around)
  with snoc inv p show ?thesis by (auto simp: TAILQ_INSERT_TAIL_def tq_defs)
qed

lemma TAILQ_INSERT_HEAD_ok:
  assumes inv: "tq_inv q ps" and p: "tq_store q p = Some e" "p \<notin> set ps"
  shows "\<exists>q'. TAILQ_INSERT_HEAD q p = Some q' \<and> tq_inv q' (p # ps) \<and>
           (\<forall>a. map_option tqe_body (tq_store q' a) = map_option tqe_body (tq_store q a))"
proof (cases ps)
  case Nil
  with inv p show ?thesis by (auto simp: TAILQ_INSERT_HEAD_def tq_defs)
next
  case (Cons r qs)
  obtain f where "tq_store q r = Some f"
    using inv by (auto simp: tq_inv_def Cons split: option.splits)
  with Cons inv p show ?thesis by (auto simp: TAILQ_INSERT_HEAD_def tq_defs)
qed

lemma TAILQ_INSERT_AFTER_ok:
  assumes inv: "tq_inv q (as @ r # bs)" and p: "tq_store q p = Some e" "p \<notin> set (as @ r # bs)"
  shows "\<exists>q'. TAILQ_INSERT_AFTER q r p = Some q' \<and> tq_inv q' (as @ r # p # bs) \<and>
           (\<forall>a. map_option tqe_body (tq_store q' a) = map_option tqe_body (tq_store q a))"
proof -
  obtain f where f: "tq_store q r = Some f" "tqe_next f = first_or bs None"
    using inv by (auto simp: tq_inv_def elim: tq_around)
  show ?thesis
  proof (cases bs)
    case Nil
    with inv p f show ?thesis by (auto simp: TAILQ_INSERT_AFTER_def TAILQ_NEXT_def tq_defs)
  next
    case (Cons s cs)
    obtain g where "tq_store q s = Some g"
      using inv by (auto simp: tq_inv_def Cons tq_linked_append split: option.splits)
    with Cons inv p f show ?thesis by (auto simp: TAILQ_INSERT_AFTER_def TAILQ_NEXT_def tq_defs)
  qed
qed

lemma TAILQ_INSERT_BEFORE_ok:
  assumes inv: "tq_inv q (as @ r # bs)" and p: "tq_store q p = Some e" "p \<notin> set (as @ r # bs)"
  shows "\<exists>q'. TAILQ_INSERT_BEFORE q r p = Some q' \<and> tq_inv q' (as @ p # r # bs) \<and>
           (\<forall>a. map_option tqe_body (tq_store q' a) = map_option tqe_body (tq_store q a))"
proof -
  obtain f where f: "tq_store q r = Some f" "tqe_prev f = pp_after Head_first as"
    using inv by (auto simp: tq_inv_def elim: tq_around)
  show ?thesis
  proof (cases as rule: rev_cases)
    case Nil
    with inv p f show ?thesis by (auto simp: TAILQ_INSERT_BEFORE_def tq_defs)
  next
    case (snoc cs s)
    obtain g where "tq_store q s = Some g"
      using inv by (auto simp: tq_inv_def snoc elim: tq_around)
    with snoc inv p f show ?thesis by (auto simp: TAILQ_INSERT_BEFORE_def tq_defs)
  qed
qed

lemma TAILQ_REMOVE_ok:
  assumes inv: "tq_inv q (as @ r # bs)"
  shows "\<exists>q'. TAILQ_REMOVE q r = Some q' \<and> tq_inv q' (as @ bs) \<and>
           (\<forall>a. map_option tqe_body (tq_store q' a) = map_option tqe_body (tq_store q a))"
proof -
  obtain f where f: "tq_store q r = Some f" "tqe_prev f = pp_after Head_first as" "tqe_next f = first_or bs None"
    using inv by (auto simp: tq_inv_def elim: tq_around)
  show ?thesis
  proof (cases as rule: rev_cases)
    case Nil
    show ?thesis
    proof (cases bs)
      case (Cons t ds)
      obtain h where "tq_store q t = Some h"
        using inv by (auto simp: tq_inv_def Cons tq_linked_append split: option.splits)
      with Nil Cons inv f show ?thesis by (auto simp: TAILQ_REMOVE_def tq_defs)
    qed (use Nil inv f in \<open>auto simp: TAILQ_REMOVE_def tq_defs\<close>)
  next
    case (snoc cs s)
    obtain g where g: "tq_store q s = Some g"
      using inv by (auto simp: tq_inv_def snoc elim: tq_around)
    show ?thesis
    proof (cases bs)
      case (Cons t ds)
      obtain h where "tq_store q t = Some h"
        using inv by (auto simp: tq_inv_def Cons tq_linked_append split: option.splits)
      with snoc Cons inv f g show ?thesis by (auto simp: TAILQ_REMOVE_def tq_defs)
    qed (use snoc inv f g in \<open>auto simp: TAILQ_REMOVE_def tq_defs\<close>)
  qed
qed

lemma TAILQ_REPLACE_ok:
  assumes inv: "tq_inv q (as @ r # bs)" and p: "tq_store q p = Some e" "p \<notin> set (as @ r # bs)"
  shows "\<exists>q'. TAILQ_REPLACE q r p = Some q' \<and> tq_inv q' (as @ p # bs) \<and>
           (\<forall>a. map_option tqe_body (tq_store q' a) = map_option tqe_body (tq_store q a))"
proof -
  obtain f where f: "tq_store q r = Some f" "tqe_prev f = pp_after Head_first as" "tqe_next f = first_or bs None"
    using inv by (auto simp: tq_inv_def elim: tq_around)
  show ?thesis
  proof (cases as rule: rev_cases)
    case Nil
    show ?thesis
    proof (cases bs)
      case (Cons t ds)
      obtain h where "tq_store q t = Some h"
        using inv by (auto simp: tq_inv_def Cons tq_linked_append split: option.splits)
      with Nil Cons inv f p show ?thesis by (auto simp: TAILQ_REPLACE_def tq_defs)
    qed (use Nil inv f p in \<open>auto simp: TAILQ_REPLACE_def tq_defs\<close>)
  next
    case (snoc cs s)
    obtain g where g: "tq_store q s = Some g"
      using inv by (auto simp: tq_inv_def snoc elim: tq_around)
    show ?thesis
    proof (cases bs)
      case (Cons t ds)
      obtain h where "tq_store q t = Some h"
        using inv by (auto simp: tq_inv_def Cons tq_linked_append split: option.splits)
      with snoc Cons inv f g p show ?thesis by (auto simp: TAILQ_REPLACE_def tq_defs)
    qed (use snoc inv f g p in \<open>auto simp: TAILQ_REPLACE_def tq_defs\<close>)
  qed
qed

text \<open>The two macros that read an element as a queue head find the last and the previous element.\<close>

lemma TAILQ_LAST_ok: "tq_inv q ps \<Longrightarrow> TAILQ_LAST q = Some (last_or None ps)"
proof (cases ps rule: rev_cases)
  case (snoc qs p)
  assume inv: "tq_inv q ps"
  then obtain e where e: "tq_store q p = Some e" "tqe_prev e = pp_after Head_first qs"
    by (auto simp: tq_inv_def snoc elim: tq_around)
  show ?thesis
  proof (cases qs rule: rev_cases)
    case Nil
    with inv e snoc show ?thesis by (auto simp: TAILQ_LAST_def pp_second_def read_pp_def tq_inv_def)
  next
    case (snoc rs r)
    then obtain f where "tq_store q r = Some f" "tqe_next f = Some p"
      using inv \<open>ps = qs @ [p]\<close> by (auto simp: tq_inv_def tq_linked_append split: option.splits)
    with inv e snoc \<open>ps = qs @ [p]\<close> show ?thesis
      by (auto simp: TAILQ_LAST_def pp_second_def read_pp_def tq_inv_def)
  qed
qed (auto simp: TAILQ_LAST_def pp_second_def read_pp_def tq_inv_def)

lemma TAILQ_PREV_ok:
  assumes inv: "tq_inv q (as @ p # bs)" and ne: "as \<noteq> []"
  shows "TAILQ_PREV q p = Some (Some (last as))"
proof -
  obtain cs r where as: "as = cs @ [r]" using ne by (cases as rule: rev_cases) auto
  obtain e where e: "tq_store q p = Some e" "tqe_prev e = Next_of r"
    using inv by (auto simp: as tq_inv_def tq_linked_append split: option.splits)
  obtain f where f: "tq_store q r = Some f" "tqe_prev f = pp_after Head_first cs"
    using inv by (auto simp: as tq_inv_def tq_linked_append split: option.splits)
  have "read_pp q (pp_after Head_first cs) = Some (Some r)"
  proof (cases cs rule: rev_cases)
    case Nil
    with inv as show ?thesis by (simp add: read_pp_def tq_inv_def)
  next
    case (snoc ds s)
    then obtain g where "tq_store q s = Some g" "tqe_next g = Some r"
      using inv as by (auto simp: tq_inv_def tq_linked_append split: option.splits)
    with snoc show ?thesis by (simp add: read_pp_def)
  qed
  with e f as show ?thesis by (simp add: TAILQ_PREV_def pp_second_def)
qed

lemma TAILQ_PREV_first:
  assumes "tq_inv q (p # bs)"
  shows "TAILQ_PREV q p = Some None"
proof -
  obtain ds t where ps: "p # bs = ds @ [t]" by (metis rev_exhaust list.distinct(1))
  with assms have inv: "tq_inv q (ds @ t # [])" by simp
  obtain f where "tq_store q t = Some f" "tqe_next f = None"
    using inv by (auto simp: tq_inv_def elim: tq_around)
  moreover obtain e where "tq_store q p = Some e" "tqe_prev e = Head_first"
    using assms by (auto simp: tq_inv_def split: option.splits)
  moreover have "tqh_last q = Next_of t" using inv by (simp add: tq_inv_def)
  ultimately show ?thesis by (simp add: TAILQ_PREV_def pp_second_def read_pp_def)
qed

text \<open>The loops end and visit every element.\<close>

lemma tq_linked_foreach:
  "tq_linked st x ps None \<Longrightarrow> foreach (\<lambda>a. map_option tqe_next (st a)) (first_or ps None) = Some ps"
  by (induction ps arbitrary: x) (auto split: option.splits)

lemma TAILQ_FOREACH_ok: "tq_inv q ps \<Longrightarrow> TAILQ_FOREACH q = Some ps"
  using tq_linked_foreach [of "tq_store q" Head_first ps]
  by (simp add: TAILQ_FOREACH_def TAILQ_FIRST_def TAILQ_NEXT_def [abs_def] tq_inv_def)

lemma foreach_reverse:
  "tq_inv q (as @ bs) \<Longrightarrow> foreach (TAILQ_PREV q) (last_or None as) = Some (rev as)"
proof (induction as arbitrary: bs rule: rev_induct)
  case (snoc p as)
  then have inv: "tq_inv q (as @ p # bs)" by simp
  have "TAILQ_PREV q p = Some (last_or None as)"
    using TAILQ_PREV_ok [OF inv] TAILQ_PREV_first [of q p bs] inv by (cases "as = []") (auto simp: last_or_def)
  with snoc.IH [OF inv] show ?case by simp
qed simp

lemma TAILQ_FOREACH_REVERSE_ok: "tq_inv q ps \<Longrightarrow> TAILQ_FOREACH_REVERSE q = Some (rev ps)"
  using foreach_reverse [of q ps "[]"] by (simp add: TAILQ_FOREACH_REVERSE_def TAILQ_LAST_ok)

section \<open>A queue of allocated elements\<close>

text \<open>
  What \<^verbatim>\<open>ce_queue.c\<close> and \<^verbatim>\<open>ce_threadpool.c\<close> do with a tail queue: append an element that was just
  allocated (zeroed memory, whose links \<open>TAILQ_INSERT_TAIL\<close> writes before anything reads them), look
  at the first element, unlink an element, and free one.
\<close>

definition tq_alloc :: "'v tailq \<Rightarrow> nat \<Rightarrow> 'v \<Rightarrow> 'v tailq" where
  "tq_alloc q p v =
     q\<lparr>tq_store := (tq_store q)(p \<mapsto> \<lparr>tqe_next = None, tqe_prev = Head_first, tqe_body = v\<rparr>)\<rparr>"

definition tq_body :: "'v tailq \<Rightarrow> nat \<Rightarrow> 'v option" where
  "tq_body q p = map_option tqe_body (tq_store q p)"

definition tq_set_body :: "'v tailq \<Rightarrow> nat \<Rightarrow> 'v \<Rightarrow> 'v tailq option" where
  "tq_set_body q p v = do {
     e \<leftarrow> tq_store q p;
     Some (q\<lparr>tq_store := (tq_store q)(p \<mapsto> e\<lparr>tqe_body := v\<rparr>)\<rparr>)
   }"

definition tq_free :: "'v tailq \<Rightarrow> nat \<Rightarrow> 'v tailq" where
  "tq_free q p = q\<lparr>tq_store := (tq_store q)(p := None)\<rparr>"

definition tq_append_new :: "'v tailq \<Rightarrow> nat \<Rightarrow> 'v \<Rightarrow> 'v tailq option" where
  "tq_append_new q p v = TAILQ_INSERT_TAIL (tq_alloc q p v) p"

lemma tq_inv_fresh: "tq_inv q ps \<Longrightarrow> tq_store q p = None \<Longrightarrow> p \<notin> set ps"
  using tq_linked_dom [of "tq_store q" Head_first ps None p] by (auto simp: tq_inv_def)

lemma tq_inv_alloc: "tq_inv q ps \<Longrightarrow> p \<notin> set ps \<Longrightarrow> tq_inv (tq_alloc q p v) ps"
  by (simp add: tq_inv_def tq_alloc_def)

lemma tq_inv_free: "tq_inv q ps \<Longrightarrow> p \<notin> set ps \<Longrightarrow> tq_inv (tq_free q p) ps"
  by (simp add: tq_inv_def tq_free_def)

lemma tq_linked_set_body:
  "st p = Some e \<Longrightarrow> tq_linked (st(p \<mapsto> e\<lparr>tqe_body := v\<rparr>)) x ps nx = tq_linked st x ps nx"
  by (induction ps arbitrary: x) auto

lemma tq_inv_set_body: "tq_set_body q p v = Some q' \<Longrightarrow> tq_inv q ps \<Longrightarrow> tq_inv q' ps"
  by (auto simp: tq_set_body_def tq_inv_def tq_linked_set_body)

lemma tq_body_simps [simp]:
  "tq_body (tq_alloc q p v) a = (if a = p then Some v else tq_body q a)"
  "tq_body (tq_free q p) a = (if a = p then None else tq_body q a)"
  by (simp_all add: tq_body_def tq_alloc_def tq_free_def)

lemma tq_set_body_Some:
  "tq_body q p = Some w \<Longrightarrow>
     \<exists>q'. tq_set_body q p v = Some q' \<and> (\<forall>a. tq_body q' a = (if a = p then Some v else tq_body q a))"
  by (auto simp: tq_set_body_def tq_body_def)

lemma tq_bodies_body: "tq_inv q ps \<Longrightarrow> map (tq_body q) ps = map Some (tq_bodies q ps)"
proof -
  assume "tq_inv q ps"
  then have "tq_body q p = Some (tqe_body (the (tq_store q p)))" if "p \<in> set ps" for p
    using that tq_linked_dom [of "tq_store q" Head_first ps None p] by (auto simp: tq_inv_def tq_body_def)
  then show ?thesis by (simp add: tq_bodies_def)
qed

text \<open>A safe loop may take out and free every element.\<close>

definition unlink_and_free :: "'v tailq \<Rightarrow> nat \<Rightarrow> 'v tailq option" where
  "unlink_and_free q p = do { q1 \<leftarrow> TAILQ_REMOVE q p; Some (tq_free q1 p) }"

lemma foreach_safe_frees:
  "tq_inv q ps \<Longrightarrow> \<exists>q'. foreach_safe unlink_and_free q (first_or ps None) = Some q' \<and> tq_inv q' [] \<and>
     (\<forall>a. tq_body q' a = (if a \<in> set ps then None else tq_body q a))"
proof (induction ps arbitrary: q)
  case (Cons p ps)
  obtain e where e: "tq_store q p = Some e" "tqe_next e = first_or ps None"
    using Cons.prems by (auto simp: tq_inv_def split: option.splits)
  obtain q1 where q1: "TAILQ_REMOVE q p = Some q1" "tq_inv q1 ps" "\<forall>a. tq_body q1 a = tq_body q a"
    using TAILQ_REMOVE_ok [of q "[]" p ps] Cons.prems by (auto simp: tq_body_def)
  have "tq_inv (tq_free q1 p) ps" using tq_inv_free [OF q1(2)] Cons.prems by (simp add: tq_inv_def)
  moreover have "unlink_and_free q p = Some (tq_free q1 p)" using q1(1) by (simp add: unlink_and_free_def)
  then have "foreach_safe unlink_and_free q (Some p) = foreach_safe unlink_and_free (tq_free q1 p) (first_or ps None)"
    using e by (subst foreach_safe.simps) (simp add: TAILQ_NEXT_def)
  ultimately show ?case using Cons.IH q1(3) by fastforce
qed (simp add: foreach_safe.simps)

lemma TAILQ_FOREACH_SAFE_frees:
  "tq_inv q ps \<Longrightarrow> \<exists>q'. TAILQ_FOREACH_SAFE unlink_and_free q = Some q' \<and> tq_inv q' [] \<and>
     (\<forall>a. tq_body q' a = (if a \<in> set ps then None else tq_body q a))"
  using foreach_safe_frees [of q ps] by (simp add: TAILQ_FOREACH_SAFE_def TAILQ_FIRST_def tq_inv_def)

section \<open>The interface\<close>

text \<open>
  What the clients rely on: \<open>first\<close> is the oldest element, a fresh element goes to the end, any
  element can be unlinked, and neither changes what the elements carry.
\<close>

datatype 'v eq_op = Append nat 'v | Take_first

locale element_queue =
  fixes inv :: "'q \<Rightarrow> nat list \<Rightarrow> bool"
    and body :: "'q \<Rightarrow> nat \<Rightarrow> 'v option"
    and first :: "'q \<Rightarrow> nat option"
    and append_new :: "'q \<Rightarrow> nat \<Rightarrow> 'v \<Rightarrow> 'q option"
    and unlink :: "'q \<Rightarrow> nat \<Rightarrow> 'q option"
    and release :: "'q \<Rightarrow> nat \<Rightarrow> 'q"
  assumes first_law: "inv q ps \<Longrightarrow> first q = first_or ps None"
    and allocated: "inv q ps \<Longrightarrow> p \<in> set ps \<Longrightarrow> body q p \<noteq> None"
    and append_law: "inv q ps \<Longrightarrow> p \<notin> set ps \<Longrightarrow>
      \<exists>q'. append_new q p v = Some q' \<and> inv q' (ps @ [p]) \<and>
        (\<forall>a. body q' a = (if a = p then Some v else body q a))"
    and unlink_law: "inv q (as @ p # bs) \<Longrightarrow>
      \<exists>q'. unlink q p = Some q' \<and> inv q' (as @ bs) \<and> (\<forall>a. body q' a = body q a)"
    and release_law: "inv q ps \<Longrightarrow> p \<notin> set ps \<Longrightarrow>
      inv (release q p) ps \<and> (\<forall>a. body (release q p) a = (if a = p then None else body q a))"
    and distinct_law: "inv q ps \<Longrightarrow> distinct ps"
begin

lemma append_fresh:
  assumes "inv q ps" "body q p = None"
  shows "\<exists>q'. append_new q p v = Some q' \<and> inv q' (ps @ [p]) \<and>
           map (body q') (ps @ [p]) = map (body q) ps @ [Some v] \<and>
           (\<forall>a. body q' a = (if a = p then Some v else body q a))"
proof -
  have "p \<notin> set ps" using allocated [OF assms(1), of p] assms(2) by blast
  with append_law [OF assms(1) this, of v] show ?thesis by auto
qed

lemma take_first:
  assumes "inv q (p # ps)"
  shows "\<exists>q' v. first q = Some p \<and> body q p = Some v \<and> unlink q p = Some q' \<and> inv (release q' p) ps \<and>
           map (body q) (p # ps) = Some v # map (body (release q' p)) ps \<and>
           (\<forall>a. body (release q' p) a = (if a = p then None else body q a))"
proof -
  obtain v where v: "body q p = Some v" using allocated [OF assms] by fastforce
  obtain q' where q': "unlink q p = Some q'" "inv q' ps" "\<forall>a. body q' a = body q a"
    using unlink_law [of q "[]" p ps] assms by auto
  have p: "p \<notin> set ps" using distinct_law [OF assms] by simp
  with v q' release_law [OF q'(2) p] first_law [OF assms] show ?thesis by auto
qed

text \<open>A run of appends and takes, with what was appended and what was taken.\<close>

fun run :: "'q \<Rightarrow> 'v eq_op list \<Rightarrow> ('q \<times> 'v list \<times> 'v list) option" where
  "run q [] = Some (q, [], [])"
| "run q (Append p v # ops) =
     (if body q p \<noteq> None then run q ops
      else do {
        q1 \<leftarrow> append_new q p v;
        (q2, put, got) \<leftarrow> run q1 ops;
        Some (q2, v # put, got)
      })"
| "run q (Take_first # ops) =
     (case first q of
        None \<Rightarrow> run q ops
      | Some p \<Rightarrow> do {
          v \<leftarrow> body q p;
          q1 \<leftarrow> unlink q p;
          (q2, put, got) \<leftarrow> run (release q1 p) ops;
          Some (q2, put, v # got)
        })"

lemma run_fifo:
  assumes "inv q ps"
  shows "\<exists>q' put got ps'. run q ops = Some (q', put, got) \<and> inv q' ps' \<and>
           map (body q) ps @ map Some put = map Some got @ map (body q') ps'"
  using assms
proof (induction ops arbitrary: q ps)
  case (Cons op ops)
  show ?case
  proof (cases op)
    case (Append p v)
    show ?thesis
    proof (cases "body q p")
      case None
      obtain q1 where q1: "append_new q p v = Some q1" "inv q1 (ps @ [p])"
        "map (body q1) (ps @ [p]) = map (body q) ps @ [Some v]"
        using append_fresh [OF Cons.prems None] by blast
      obtain q2 put got ps' where r: "run q1 ops = Some (q2, put, got)" "inv q2 ps'"
        "map (body q1) (ps @ [p]) @ map Some put = map Some got @ map (body q2) ps'"
        using Cons.IH [OF q1(2)] by blast
      have eq: "map (body q) ps @ map Some (v # put) = map Some got @ map (body q2) ps'"
        using r(3) unfolding q1(3) by simp
      have run: "run q (op # ops) = Some (q2, v # put, got)"
        using None q1(1) r(1) by (simp add: Append)
      show ?thesis
        by (intro exI conjI) (rule run, rule r(2), rule eq)
    next
      case (Some w)
      with Cons.IH [OF Cons.prems] show ?thesis by (simp add: Append)
    qed
  next
    case Take_first
    show ?thesis
    proof (cases ps)
      case Nil
      with Cons.IH [OF Cons.prems] first_law [OF Cons.prems] show ?thesis by (simp add: Take_first)
    next
      case (Cons p ps1)
      have "inv q (p # ps1)" using Cons.prems Cons by simp
      from take_first [OF this] obtain q1 v where q1: "first q = Some p" "body q p = Some v" "unlink q p = Some q1"
        "inv (release q1 p) ps1" "map (body q) (p # ps1) = Some v # map (body (release q1 p)) ps1"
        by (elim exE conjE) (rule that)
      obtain q2 put got ps' where r: "run (release q1 p) ops = Some (q2, put, got)" "inv q2 ps'"
        "map (body (release q1 p)) ps1 @ map Some put = map Some got @ map (body q2) ps'"
        using Cons.IH [OF q1(4)] by blast
      have eq: "map (body q) ps @ map Some put = map Some (v # got) @ map (body q2) ps'"
        using r(3) unfolding Cons q1(5) by simp
      have run: "run q (op # ops) = Some (q2, put, v # got)"
        using q1 r(1) by (simp add: Take_first)
      show ?thesis
        by (intro exI conjI) (rule run, rule r(2), rule eq)
    qed
  qed
qed auto

end

interpretation tq: element_queue tq_inv tq_body TAILQ_FIRST tq_append_new TAILQ_REMOVE tq_free
proof unfold_locales
  fix q :: "'a tailq" and ps p and v :: 'a
  assume inv: "tq_inv q ps"
  show "TAILQ_FIRST q = first_or ps None" using inv by (simp add: TAILQ_FIRST_def tq_inv_def)
  show "distinct ps" using inv by (simp add: tq_inv_def)
  show "tq_body q p \<noteq> None" if "p \<in> set ps"
    using tq_inv_fresh [OF inv, of p] that by (auto simp: tq_body_def)
  assume p: "p \<notin> set ps"
  show "tq_inv (tq_free q p) ps \<and> (\<forall>a. tq_body (tq_free q p) a = (if a = p then None else tq_body q a))"
    using tq_inv_free [OF inv p] by simp
  show "\<exists>q'. tq_append_new q p v = Some q' \<and> tq_inv q' (ps @ [p]) \<and>
      (\<forall>a. tq_body q' a = (if a = p then Some v else tq_body q a))"
    using TAILQ_INSERT_TAIL_ok [OF tq_inv_alloc [OF inv p, of v], of p] p
    unfolding tq_body_def [symmetric] tq_body_simps by (simp add: tq_append_new_def tq_alloc_def)
next
  fix q :: "'a tailq" and as p bs
  assume "tq_inv q (as @ p # bs)"
  from TAILQ_REMOVE_ok [OF this]
  show "\<exists>q'. TAILQ_REMOVE q p = Some q' \<and> tq_inv q' (as @ bs) \<and> (\<forall>a. tq_body q' a = tq_body q a)"
    by (simp add: tq_body_def)
qed

section \<open>All macros against sequences\<close>

text \<open>The family has every operation; a macro only moves links, so what the elements carry is what it was.\<close>

definition tq_macro :: "'v tailq \<Rightarrow> 'v seq_op \<Rightarrow> 'v tailq option" where
  "tq_macro q op =
     (case op of
        Ins_head p v \<Rightarrow> TAILQ_INSERT_HEAD q p
      | Ins_tail p v \<Rightarrow> TAILQ_INSERT_TAIL q p
      | Ins_after r p v \<Rightarrow> TAILQ_INSERT_AFTER q r p
      | Ins_before r p v \<Rightarrow> TAILQ_INSERT_BEFORE q r p
      | Remove r \<Rightarrow> TAILQ_REMOVE q r
      | Replace r p v \<Rightarrow> TAILQ_REPLACE q r p)"

definition any_op :: "'v seq_op \<Rightarrow> nat list \<Rightarrow> bool" where
  "any_op op ps \<longleftrightarrow> True"

lemma tq_macro_ok:
  assumes inv: "tq_inv q ps" and valid: "seq_valid any_op op ps"
    and new: "case inserted op of None \<Rightarrow> True | Some (p, v) \<Rightarrow> tq_body q p = Some v"
  shows "\<exists>q'. tq_macro q op = Some q' \<and> tq_inv q' (addr_spec op ps) \<and> (\<forall>a. tq_body q' a = tq_body q a)"
proof (cases "named op")
  case None
  from None valid inv new show ?thesis
    using TAILQ_INSERT_HEAD_ok [OF inv] TAILQ_INSERT_TAIL_ok [OF inv]
    by (cases op) (auto simp: tq_macro_def seq_op_defs tq_body_def)
next
  case (Some r)
  then have "distinct ps" "r \<in> set ps" using inv valid by (auto simp: tq_inv_def seq_valid_def)
  then obtain as bs where ps: "ps = as @ r # bs" "r \<notin> set as" "r \<notin> set bs" by (rule distinct_splitE)
  note macs = TAILQ_INSERT_AFTER_ok [OF inv [unfolded ps(1)]] TAILQ_INSERT_BEFORE_ok [OF inv [unfolded ps(1)]]
    TAILQ_REMOVE_ok [OF inv [unfolded ps(1)]] TAILQ_REPLACE_ok [OF inv [unfolded ps(1)]]
  from Some valid new show ?thesis
    using macs ps(2,3) unfolding ps(1)
    by (cases op) (auto simp: tq_macro_def seq_valid_def inserted_def named_def tq_body_def addr_spec_at)
qed

interpretation tail: element_sequence tq_inv tq_body tq_alloc tq_macro any_op
  by unfold_locales (simp_all add: tq_inv_alloc tq_macro_ok)

section \<open>Properties\<close>

text \<open>
  C24: the tail queue macros implement a sequence. Every run of insertions at either end, insertions
  before and after an element, removals and replacements, that inserts elements not in the queue and
  names elements in it, follows no bad pointer; afterwards the links, read forwards, are the elements
  of the same operations on a sequence, \<open>TAILQ_FIRST\<close>, \<open>TAILQ_LAST\<close> and \<open>TAILQ_EMPTY\<close> tell its first and
  last element and whether it has any, and the loops in both directions end and visit it.
\<close>

theorem tailq_implements_sequence:
  assumes "seq_valid_run any_op ops []" "xs = fold seq_spec ops []"
  shows "\<exists>q. seq_run tq_alloc tq_macro (TAILQ_INIT q0) ops = Some q \<and> seq_holds tq_inv tq_body q xs \<and>
           TAILQ_FIRST q = first_or (map fst xs) None \<and>
           TAILQ_LAST q = Some (last_or None (map fst xs)) \<and> (TAILQ_EMPTY q \<longleftrightarrow> xs = []) \<and>
           TAILQ_FOREACH q = Some (map fst xs) \<and> TAILQ_FOREACH_REVERSE q = Some (rev (map fst xs))"
proof -
  obtain q where q: "seq_run tq_alloc tq_macro (TAILQ_INIT q0) ops = Some q" "seq_holds tq_inv tq_body q xs"
    "tq_inv q (map fst xs)" by (rule tail.run_new [OF TAILQ_INIT_ok assms])
  with TAILQ_LAST_ok [OF q(3)] TAILQ_FOREACH_ok [OF q(3)] TAILQ_FOREACH_REVERSE_ok [OF q(3)] show ?thesis
    by (auto simp: TAILQ_FIRST_def TAILQ_EMPTY_def tq_inv_def first_or_None)
qed

definition tq_zeroed :: "nat tailq" where
  "tq_zeroed = \<lparr>tq_store = Map.empty, tqh_first = None, tqh_last = Head_first\<rparr>"

theorem tailq_implements_sequence_witness:
  "\<exists>q. seq_run tq_alloc tq_macro (TAILQ_INIT tq_zeroed)
         [Ins_tail 1 10, Ins_head 2 20, Ins_after 2 3 30, Remove 1, Ins_before 3 4 40, Replace 2 5 50] = Some q \<and>
       seq_holds tq_inv tq_body q [(5, 50), (4, 40), (3, 30)] \<and>
       TAILQ_FIRST q = first_or (map fst [(5, 50 :: nat), (4, 40), (3, 30)]) None \<and>
       TAILQ_LAST q = Some (last_or None (map fst [(5, 50 :: nat), (4, 40), (3, 30)])) \<and>
       (TAILQ_EMPTY q \<longleftrightarrow> [(5 :: nat, 50 :: nat), (4, 40), (3, 30)] = []) \<and>
       TAILQ_FOREACH q = Some (map fst [(5, 50 :: nat), (4, 40), (3, 30)]) \<and>
       TAILQ_FOREACH_REVERSE q = Some (rev (map fst [(5, 50 :: nat), (4, 40), (3, 30)]))"
  by (rule tailq_implements_sequence) (simp_all add: seq_op_defs any_op_def)

end
