(* ===== verification/Bsd_Lists.thy ===== *)
theory Bsd_Lists
  imports Tail_Queue
begin

text \<open>
  Three more families of \<^verbatim>\<open>util/queue.h\<close>: singly linked lists (SLIST), lists whose elements know the pointer that
  points to them (LIST), and simple queues (SIMPLEQ). Null is \<open>None\<close>; a macro's result is \<open>None\<close> when it
  follows a pointer that is null or dangling. Each family interprets \<open>element_sequence\<close> with the operations it has.
\<close>

section \<open>Singly linked elements\<close>

text \<open>The elements of SLIST and SIMPLEQ have one link.\<close>

record 'v s_elem =
  s_next :: "nat option"
  s_body :: 'v

type_synonym 'v s_store = "nat \<rightharpoonup> 'v s_elem"

definition s_set_next :: "'v s_store \<Rightarrow> nat \<Rightarrow> nat option \<Rightarrow> 'v s_store option" where
  "s_set_next st a p = do { e \<leftarrow> st a; Some (st(a \<mapsto> e\<lparr>s_next := p\<rparr>)) }"

definition s_alloc :: "'v s_store \<Rightarrow> nat \<Rightarrow> 'v \<Rightarrow> 'v s_store" where
  "s_alloc st p v = st(p \<mapsto> \<lparr>s_next = None, s_body = v\<rparr>)"

definition s_carries :: "'v s_store \<Rightarrow> nat \<Rightarrow> 'v option" where
  "s_carries st p = map_option s_body (st p)"

fun s_linked :: "'v s_store \<Rightarrow> nat list \<Rightarrow> nat option \<Rightarrow> bool" where
  "s_linked st [] nx = True"
| "s_linked st (p # ps) nx = (map_option s_next (st p) = Some (first_or ps nx) \<and> s_linked st ps nx)"

lemma s_linked_append: "s_linked st (ps @ qs) nx \<longleftrightarrow> s_linked st ps (first_or qs nx) \<and> s_linked st qs nx"
  by (induction ps) auto

lemma s_linked_frame [simp]: "p \<notin> set ps \<Longrightarrow> s_linked (st(p := e)) ps nx = s_linked st ps nx"
  by (induction ps) auto

lemma s_linked_foreach: "s_linked st ps None \<Longrightarrow> foreach (\<lambda>a. map_option s_next (st a)) (first_or ps None) = Some ps"
  by (induction ps) auto

lemmas s_defs = s_set_next_def s_alloc_def s_carries_def s_linked_append

section \<open>SLIST\<close>

record 'v slist =
  sl_store :: "'v s_store"
  slh_first :: "nat option"

definition SLIST_FIRST :: "'v slist \<Rightarrow> nat option" where
  "SLIST_FIRST q = slh_first q"

definition SLIST_EMPTY :: "'v slist \<Rightarrow> bool" where
  "SLIST_EMPTY q \<longleftrightarrow> SLIST_FIRST q = None"

definition SLIST_NEXT :: "'v slist \<Rightarrow> nat \<Rightarrow> nat option option" where
  "SLIST_NEXT q elm = map_option s_next (sl_store q elm)"

definition SLIST_FOREACH :: "'v slist \<Rightarrow> nat list option" where
  "SLIST_FOREACH q = foreach (SLIST_NEXT q) (SLIST_FIRST q)"

definition SLIST_INIT :: "'v slist \<Rightarrow> 'v slist" where
  "SLIST_INIT q = q\<lparr>slh_first := None\<rparr>"

definition SLIST_INSERT_AFTER :: "'v slist \<Rightarrow> nat \<Rightarrow> nat \<Rightarrow> 'v slist option" where
  "SLIST_INSERT_AFTER q slistelm elm = do {
     nx \<leftarrow> SLIST_NEXT q slistelm;
     st1 \<leftarrow> s_set_next (sl_store q) elm nx;
     st2 \<leftarrow> s_set_next st1 slistelm (Some elm);
     Some (q\<lparr>sl_store := st2\<rparr>)
   }"

definition SLIST_INSERT_HEAD :: "'v slist \<Rightarrow> nat \<Rightarrow> 'v slist option" where
  "SLIST_INSERT_HEAD q elm = do {
     st1 \<leftarrow> s_set_next (sl_store q) elm (slh_first q);
     Some (q\<lparr>sl_store := st1, slh_first := Some elm\<rparr>)
   }"

definition SLIST_REMOVE_HEAD :: "'v slist \<Rightarrow> 'v slist option" where
  "SLIST_REMOVE_HEAD q = do {
     f \<leftarrow> slh_first q;
     nx \<leftarrow> SLIST_NEXT q f;
     Some (q\<lparr>slh_first := nx\<rparr>)
   }"

text \<open>Only the first element can be taken out, and nothing be put in front of an element that is not the first.\<close>

definition slist_op :: "'v seq_op \<Rightarrow> nat list \<Rightarrow> bool" where
  "slist_op op ps =
     (case op of Ins_head p v \<Rightarrow> True | Ins_after r p v \<Rightarrow> True | Remove r \<Rightarrow> ps \<noteq> [] \<and> r = hd ps | _ \<Rightarrow> False)"

definition slist_macro :: "'v slist \<Rightarrow> 'v seq_op \<Rightarrow> 'v slist option" where
  "slist_macro q op =
     (case op of
        Ins_head p v \<Rightarrow> SLIST_INSERT_HEAD q p
      | Ins_after r p v \<Rightarrow> SLIST_INSERT_AFTER q r p
      | Remove r \<Rightarrow> SLIST_REMOVE_HEAD q
      | _ \<Rightarrow> None)"

definition slist_alloc :: "'v slist \<Rightarrow> nat \<Rightarrow> 'v \<Rightarrow> 'v slist" where
  "slist_alloc q p v = q\<lparr>sl_store := s_alloc (sl_store q) p v\<rparr>"

definition slist_inv :: "'v slist \<Rightarrow> nat list \<Rightarrow> bool" where
  "slist_inv q ps \<longleftrightarrow> distinct ps \<and> s_linked (sl_store q) ps None \<and> slh_first q = first_or ps None"

definition slist_body :: "'v slist \<Rightarrow> nat \<Rightarrow> 'v option" where
  "slist_body q p = s_carries (sl_store q) p"

lemma slist_macro_ok:
  assumes inv: "slist_inv q ps" and valid: "seq_valid slist_op op ps"
    and new: "case inserted op of None \<Rightarrow> True | Some (p, v) \<Rightarrow> slist_body q p = Some v"
  shows "\<exists>q'. slist_macro q op = Some q' \<and> slist_inv q' (addr_spec op ps) \<and> (\<forall>a. slist_body q' a = slist_body q a)"
proof (cases "named op")
  case None
  with valid inv new show ?thesis
    by (cases op) (auto simp: slist_macro_def slist_op_def slist_inv_def slist_body_def seq_op_defs s_defs SLIST_INSERT_HEAD_def)
next
  case (Some r)
  then have "distinct ps" "r \<in> set ps" using inv valid by (auto simp: slist_inv_def seq_valid_def)
  then obtain as bs where ps: "ps = as @ r # bs" "r \<notin> set as" "r \<notin> set bs" by (rule distinct_splitE)
  show ?thesis
  proof (cases op)
    case (Ins_after r' p v)
    with Some valid inv new ps(2,3) show ?thesis unfolding ps(1)
      by (auto simp: slist_macro_def slist_inv_def slist_body_def seq_op_defs s_defs addr_spec_at
          SLIST_INSERT_AFTER_def SLIST_NEXT_def)
  next
    case (Remove r')
    with Some valid have [simp]: "as = []" "r' = r"
      using ps(2) by (auto simp: ps(1) seq_valid_def slist_op_def named_def hd_append split: if_splits)
    from Remove inv ps(3) show ?thesis unfolding ps(1)
      by (auto simp: slist_macro_def slist_inv_def slist_body_def SLIST_REMOVE_HEAD_def SLIST_NEXT_def)
  qed (use Some valid in \<open>auto simp: seq_valid_def slist_op_def named_def\<close>)
qed

interpretation slist: element_sequence slist_inv slist_body slist_alloc slist_macro slist_op
proof unfold_locales
  show "slist_inv (slist_alloc q p v) ps \<and> (\<forall>a. slist_body (slist_alloc q p v) a = (if a = p then Some v else slist_body q a))"
    if "slist_inv q ps" "p \<notin> set ps" for q :: "'a slist" and ps p v
    using that by (simp add: slist_inv_def slist_body_def slist_alloc_def s_defs)
qed (rule slist_macro_ok)

section \<open>SIMPLEQ\<close>

record 'v simpleq =
  sq_store :: "'v s_store"
  sqh_first :: "nat option"
  sqh_last :: pp

definition SIMPLEQ_FIRST :: "'v simpleq \<Rightarrow> nat option" where
  "SIMPLEQ_FIRST q = sqh_first q"

definition SIMPLEQ_EMPTY :: "'v simpleq \<Rightarrow> bool" where
  "SIMPLEQ_EMPTY q \<longleftrightarrow> SIMPLEQ_FIRST q = None"

definition SIMPLEQ_NEXT :: "'v simpleq \<Rightarrow> nat \<Rightarrow> nat option option" where
  "SIMPLEQ_NEXT q elm = map_option s_next (sq_store q elm)"

definition SIMPLEQ_FOREACH :: "'v simpleq \<Rightarrow> nat list option" where
  "SIMPLEQ_FOREACH q = foreach (SIMPLEQ_NEXT q) (SIMPLEQ_FIRST q)"

definition SIMPLEQ_INIT :: "'v simpleq \<Rightarrow> 'v simpleq" where
  "SIMPLEQ_INIT q = q\<lparr>sqh_first := None, sqh_last := Head_first\<rparr>"

definition SIMPLEQ_INSERT_HEAD :: "'v simpleq \<Rightarrow> nat \<Rightarrow> 'v simpleq option" where
  "SIMPLEQ_INSERT_HEAD q elm = do {
     st1 \<leftarrow> s_set_next (sq_store q) elm (sqh_first q);
     Some (q\<lparr>sq_store := st1, sqh_last := (if sqh_first q = None then Next_of elm else sqh_last q),
             sqh_first := Some elm\<rparr>)
   }"

definition SIMPLEQ_INSERT_TAIL :: "'v simpleq \<Rightarrow> nat \<Rightarrow> 'v simpleq option" where
  "SIMPLEQ_INSERT_TAIL q elm = do {
     st1 \<leftarrow> s_set_next (sq_store q) elm None;
     q2 \<leftarrow> (case sqh_last q of
              Head_first \<Rightarrow> Some (q\<lparr>sq_store := st1, sqh_first := Some elm\<rparr>)
            | Next_of a \<Rightarrow> do {
                st2 \<leftarrow> s_set_next st1 a (Some elm);
                Some (q\<lparr>sq_store := st2\<rparr>)
              });
     Some (q2\<lparr>sqh_last := Next_of elm\<rparr>)
   }"

definition SIMPLEQ_INSERT_AFTER :: "'v simpleq \<Rightarrow> nat \<Rightarrow> nat \<Rightarrow> 'v simpleq option" where
  "SIMPLEQ_INSERT_AFTER q listelm elm = do {
     nx \<leftarrow> SIMPLEQ_NEXT q listelm;
     st1 \<leftarrow> s_set_next (sq_store q) elm nx;
     st2 \<leftarrow> s_set_next st1 listelm (Some elm);
     Some (q\<lparr>sq_store := st2, sqh_last := (if nx = None then Next_of elm else sqh_last q)\<rparr>)
   }"

definition SIMPLEQ_REMOVE_HEAD :: "'v simpleq \<Rightarrow> nat \<Rightarrow> 'v simpleq option" where
  "SIMPLEQ_REMOVE_HEAD q elm = do {
     nx \<leftarrow> SIMPLEQ_NEXT q elm;
     Some (q\<lparr>sqh_first := nx, sqh_last := (if nx = None then Head_first else sqh_last q)\<rparr>)
   }"

text \<open>As for SLIST, but elements can be put at the end; \<open>SIMPLEQ_REMOVE_HEAD\<close> is told the first element.\<close>

definition simpleq_op :: "'v seq_op \<Rightarrow> nat list \<Rightarrow> bool" where
  "simpleq_op op ps =
     (case op of
        Ins_before r p v \<Rightarrow> False | Replace r p v \<Rightarrow> False | Remove r \<Rightarrow> ps \<noteq> [] \<and> r = hd ps | _ \<Rightarrow> True)"

definition simpleq_macro :: "'v simpleq \<Rightarrow> 'v seq_op \<Rightarrow> 'v simpleq option" where
  "simpleq_macro q op =
     (case op of
        Ins_head p v \<Rightarrow> SIMPLEQ_INSERT_HEAD q p
      | Ins_tail p v \<Rightarrow> SIMPLEQ_INSERT_TAIL q p
      | Ins_after r p v \<Rightarrow> SIMPLEQ_INSERT_AFTER q r p
      | Remove r \<Rightarrow> SIMPLEQ_REMOVE_HEAD q r
      | _ \<Rightarrow> None)"

definition simpleq_alloc :: "'v simpleq \<Rightarrow> nat \<Rightarrow> 'v \<Rightarrow> 'v simpleq" where
  "simpleq_alloc q p v = q\<lparr>sq_store := s_alloc (sq_store q) p v\<rparr>"

definition simpleq_inv :: "'v simpleq \<Rightarrow> nat list \<Rightarrow> bool" where
  "simpleq_inv q ps \<longleftrightarrow>
     distinct ps \<and> s_linked (sq_store q) ps None \<and>
     sqh_first q = first_or ps None \<and> sqh_last q = pp_after Head_first ps"

definition simpleq_body :: "'v simpleq \<Rightarrow> nat \<Rightarrow> 'v option" where
  "simpleq_body q p = s_carries (sq_store q) p"

lemmas simpleq_defs = simpleq_macro_def simpleq_inv_def simpleq_body_def seq_op_defs s_defs addr_spec_at
  SIMPLEQ_INSERT_HEAD_def SIMPLEQ_INSERT_TAIL_def SIMPLEQ_INSERT_AFTER_def SIMPLEQ_REMOVE_HEAD_def SIMPLEQ_NEXT_def

lemma simpleq_macro_ok:
  assumes inv: "simpleq_inv q ps" and valid: "seq_valid simpleq_op op ps"
    and new: "case inserted op of None \<Rightarrow> True | Some (p, v) \<Rightarrow> simpleq_body q p = Some v"
  shows "\<exists>q'. simpleq_macro q op = Some q' \<and> simpleq_inv q' (addr_spec op ps) \<and> (\<forall>a. simpleq_body q' a = simpleq_body q a)"
proof (cases "named op")
  case None
  show ?thesis
  proof (cases ps rule: rev_cases)
    case Nil
    with None valid inv new show ?thesis by (cases op) (auto simp: simpleq_defs)
  next
    case (snoc qs r)
    with None valid inv new show ?thesis by (cases op) (auto simp: simpleq_defs)
  qed
next
  case (Some r)
  then have "distinct ps" "r \<in> set ps" using inv valid by (auto simp: simpleq_inv_def seq_valid_def)
  then obtain as bs where ps: "ps = as @ r # bs" "r \<notin> set as" "r \<notin> set bs" by (rule distinct_splitE)
  obtain f where f: "sq_store q r = Some f" "s_next f = first_or bs None"
    using inv by (auto simp: ps(1) simpleq_inv_def s_linked_append)
  show ?thesis
  proof (cases op)
    case (Ins_after r' p v)
    with Some valid inv new ps(2,3) f show ?thesis unfolding ps(1)
      by (cases bs) (auto simp: simpleq_defs)
  next
    case (Remove r')
    with Some valid have [simp]: "as = []" "r' = r"
      using ps(2) by (auto simp: ps(1) seq_valid_def simpleq_op_def named_def hd_append split: if_splits)
    from Remove inv ps(3) f show ?thesis unfolding ps(1) by (cases bs) (auto simp: simpleq_defs)
  qed (use Some valid in \<open>auto simp: seq_valid_def simpleq_op_def named_def\<close>)
qed

interpretation simpleq: element_sequence simpleq_inv simpleq_body simpleq_alloc simpleq_macro simpleq_op
proof unfold_locales
  show "simpleq_inv (simpleq_alloc q p v) ps \<and>
      (\<forall>a. simpleq_body (simpleq_alloc q p v) a = (if a = p then Some v else simpleq_body q a))"
    if "simpleq_inv q ps" "p \<notin> set ps" for q :: "'a simpleq" and ps p v
    using that by (simp add: simpleq_inv_def simpleq_body_def simpleq_alloc_def s_defs)
qed (rule simpleq_macro_ok)

section \<open>LIST\<close>

record 'v le_elem =
  le_next :: "nat option"
  le_prev :: pp
  le_body :: 'v

record 'v le_list =
  le_store :: "nat \<rightharpoonup> 'v le_elem"
  lh_first :: "nat option"

definition le_set_next :: "'v le_list \<Rightarrow> nat \<Rightarrow> nat option \<Rightarrow> 'v le_list option" where
  "le_set_next q a p = do { e \<leftarrow> le_store q a; Some (q\<lparr>le_store := (le_store q)(a \<mapsto> e\<lparr>le_next := p\<rparr>)\<rparr>) }"

definition le_set_prev :: "'v le_list \<Rightarrow> nat \<Rightarrow> pp \<Rightarrow> 'v le_list option" where
  "le_set_prev q a x = do { e \<leftarrow> le_store q a; Some (q\<lparr>le_store := (le_store q)(a \<mapsto> e\<lparr>le_prev := x\<rparr>)\<rparr>) }"

definition le_write :: "'v le_list \<Rightarrow> pp \<Rightarrow> nat option \<Rightarrow> 'v le_list option" where
  "le_write q x p = (case x of Head_first \<Rightarrow> Some (q\<lparr>lh_first := p\<rparr>) | Next_of a \<Rightarrow> le_set_next q a p)"

definition LIST_FIRST :: "'v le_list \<Rightarrow> nat option" where
  "LIST_FIRST q = lh_first q"

definition LIST_EMPTY :: "'v le_list \<Rightarrow> bool" where
  "LIST_EMPTY q \<longleftrightarrow> LIST_FIRST q = None"

definition LIST_NEXT :: "'v le_list \<Rightarrow> nat \<Rightarrow> nat option option" where
  "LIST_NEXT q elm = map_option le_next (le_store q elm)"

definition LIST_FOREACH :: "'v le_list \<Rightarrow> nat list option" where
  "LIST_FOREACH q = foreach (LIST_NEXT q) (LIST_FIRST q)"

definition LIST_INIT :: "'v le_list \<Rightarrow> 'v le_list" where
  "LIST_INIT q = q\<lparr>lh_first := None\<rparr>"

definition LIST_INSERT_AFTER :: "'v le_list \<Rightarrow> nat \<Rightarrow> nat \<Rightarrow> 'v le_list option" where
  "LIST_INSERT_AFTER q listelm elm = do {
     nx \<leftarrow> LIST_NEXT q listelm;
     q1 \<leftarrow> le_set_next q elm nx;
     q2 \<leftarrow> (case nx of None \<Rightarrow> Some q1 | Some n \<Rightarrow> le_set_prev q1 n (Next_of elm));
     q3 \<leftarrow> le_set_next q2 listelm (Some elm);
     le_set_prev q3 elm (Next_of listelm)
   }"

definition LIST_INSERT_BEFORE :: "'v le_list \<Rightarrow> nat \<Rightarrow> nat \<Rightarrow> 'v le_list option" where
  "LIST_INSERT_BEFORE q listelm elm = do {
     e \<leftarrow> le_store q listelm;
     q1 \<leftarrow> le_set_prev q elm (le_prev e);
     q2 \<leftarrow> le_set_next q1 elm (Some listelm);
     e2 \<leftarrow> le_store q2 listelm;
     q3 \<leftarrow> le_write q2 (le_prev e2) (Some elm);
     le_set_prev q3 listelm (Next_of elm)
   }"

definition LIST_INSERT_HEAD :: "'v le_list \<Rightarrow> nat \<Rightarrow> 'v le_list option" where
  "LIST_INSERT_HEAD q elm = do {
     q1 \<leftarrow> le_set_next q elm (lh_first q);
     q2 \<leftarrow> (case lh_first q1 of None \<Rightarrow> Some q1 | Some f \<Rightarrow> le_set_prev q1 f (Next_of elm));
     le_set_prev (q2\<lparr>lh_first := Some elm\<rparr>) elm Head_first
   }"

definition LIST_REMOVE :: "'v le_list \<Rightarrow> nat \<Rightarrow> 'v le_list option" where
  "LIST_REMOVE q elm = do {
     e \<leftarrow> le_store q elm;
     q1 \<leftarrow> (case le_next e of None \<Rightarrow> Some q | Some n \<Rightarrow> le_set_prev q n (le_prev e));
     e1 \<leftarrow> le_store q1 elm;
     le_write q1 (le_prev e1) (le_next e1)
   }"

definition LIST_REPLACE :: "'v le_list \<Rightarrow> nat \<Rightarrow> nat \<Rightarrow> 'v le_list option" where
  "LIST_REPLACE q elm elm2 = do {
     e \<leftarrow> le_store q elm;
     q1 \<leftarrow> le_set_next q elm2 (le_next e);
     q2 \<leftarrow> (case le_next e of None \<Rightarrow> Some q1 | Some n \<Rightarrow> le_set_prev q1 n (Next_of elm2));
     e2 \<leftarrow> le_store q2 elm;
     q3 \<leftarrow> le_set_prev q2 elm2 (le_prev e2);
     e3 \<leftarrow> le_store q3 elm2;
     le_write q3 (le_prev e3) (Some elm2)
   }"

text \<open>Without a pointer to the end there is no insertion there.\<close>

definition list_op :: "'v seq_op \<Rightarrow> nat list \<Rightarrow> bool" where
  "list_op op ps = (case op of Ins_tail p v \<Rightarrow> False | _ \<Rightarrow> True)"

definition list_macro :: "'v le_list \<Rightarrow> 'v seq_op \<Rightarrow> 'v le_list option" where
  "list_macro q op =
     (case op of
        Ins_head p v \<Rightarrow> LIST_INSERT_HEAD q p
      | Ins_tail p v \<Rightarrow> None
      | Ins_after r p v \<Rightarrow> LIST_INSERT_AFTER q r p
      | Ins_before r p v \<Rightarrow> LIST_INSERT_BEFORE q r p
      | Remove r \<Rightarrow> LIST_REMOVE q r
      | Replace r p v \<Rightarrow> LIST_REPLACE q r p)"

definition list_alloc :: "'v le_list \<Rightarrow> nat \<Rightarrow> 'v \<Rightarrow> 'v le_list" where
  "list_alloc q p v =
     q\<lparr>le_store := (le_store q)(p \<mapsto> \<lparr>le_next = None, le_prev = Head_first, le_body = v\<rparr>)\<rparr>"

fun le_linked :: "(nat \<rightharpoonup> 'v le_elem) \<Rightarrow> pp \<Rightarrow> nat list \<Rightarrow> nat option \<Rightarrow> bool" where
  "le_linked st x [] nx = True"
| "le_linked st x (p # ps) nx =
     ((case st p of None \<Rightarrow> False | Some e \<Rightarrow> le_prev e = x \<and> le_next e = first_or ps nx) \<and>
      le_linked st (Next_of p) ps nx)"

definition list_inv :: "'v le_list \<Rightarrow> nat list \<Rightarrow> bool" where
  "list_inv q ps \<longleftrightarrow> distinct ps \<and> le_linked (le_store q) Head_first ps None \<and> lh_first q = first_or ps None"

definition list_body :: "'v le_list \<Rightarrow> nat \<Rightarrow> 'v option" where
  "list_body q p = map_option le_body (le_store q p)"

lemma le_linked_append:
  "le_linked st x (ps @ qs) nx \<longleftrightarrow> le_linked st x ps (first_or qs nx) \<and> le_linked st (pp_after x ps) qs nx"
  by (induction ps arbitrary: x) (auto split: option.splits)

lemma le_linked_frame [simp]: "p \<notin> set ps \<Longrightarrow> le_linked (st(p := e)) x ps nx = le_linked st x ps nx"
  by (induction ps arbitrary: x) auto

lemma le_linked_foreach:
  "le_linked st x ps None \<Longrightarrow> foreach (\<lambda>a. map_option le_next (st a)) (first_or ps None) = Some ps"
  by (induction ps arbitrary: x) (auto split: option.splits)

lemmas list_defs = list_macro_def list_inv_def list_body_def seq_op_defs addr_spec_def absent le_linked_append list_op_def
  LIST_INSERT_HEAD_def LIST_INSERT_AFTER_def LIST_INSERT_BEFORE_def LIST_REMOVE_def LIST_REPLACE_def LIST_NEXT_def
  le_set_next_def le_set_prev_def le_write_def

lemma list_macro_at:
  assumes inv: "list_inv q (as @ r # bs)" and r: "named op = Some r"
    and valid: "seq_valid list_op op (as @ r # bs)"
    and new: "case inserted op of None \<Rightarrow> True | Some (p, v) \<Rightarrow> list_body q p = Some v"
  shows "\<exists>q'. list_macro q op = Some q' \<and> list_inv q' (addr_spec op (as @ r # bs)) \<and> (\<forall>a. list_body q' a = list_body q a)"
proof -
  obtain f where f: "le_store q r = Some f" "le_prev f = pp_after Head_first as" "le_next f = first_or bs None"
    using inv by (auto simp: list_inv_def le_linked_append split: option.splits)
  note facts = f inv r valid new
  show ?thesis
  proof (cases as rule: rev_cases)
    case Nil
    show ?thesis
    proof (cases bs)
      case (Cons t ds)
      obtain h where "le_store q t = Some h"
        using inv by (auto simp: list_inv_def Cons le_linked_append split: option.splits)
      with Nil Cons facts show ?thesis by (cases op) (auto simp: list_defs)
    qed (use Nil facts in \<open>cases op; auto simp: list_defs\<close>)
  next
    case (snoc cs s)
    obtain g where g: "le_store q s = Some g"
      using inv by (auto simp: list_inv_def snoc le_linked_append split: option.splits)
    show ?thesis
    proof (cases bs)
      case (Cons t ds)
      obtain h where "le_store q t = Some h"
        using inv by (auto simp: list_inv_def Cons le_linked_append split: option.splits)
      with snoc Cons facts g show ?thesis by (cases op) (auto simp: list_defs)
    qed (use snoc facts g in \<open>cases op; auto simp: list_defs\<close>)
  qed
qed

lemma list_macro_ok:
  assumes inv: "list_inv q ps" and valid: "seq_valid list_op op ps"
    and new: "case inserted op of None \<Rightarrow> True | Some (p, v) \<Rightarrow> list_body q p = Some v"
  shows "\<exists>q'. list_macro q op = Some q' \<and> list_inv q' (addr_spec op ps) \<and> (\<forall>a. list_body q' a = list_body q a)"
proof (cases "named op")
  case None
  have "ps = [] \<or> (\<exists>t ds. ps = t # ds \<and> le_store q t \<noteq> None)"
    using inv by (cases ps) (auto simp: list_inv_def split: option.splits)
  with None valid inv new show ?thesis by (cases op) (auto simp: list_defs)
next
  case (Some r)
  then have "distinct ps" "r \<in> set ps" using inv valid by (auto simp: list_inv_def seq_valid_def)
  then obtain as bs where ps: "ps = as @ r # bs" by (rule distinct_splitE)
  show ?thesis using list_macro_at [OF inv [unfolded ps] Some valid [unfolded ps] new] by (simp add: ps)
qed

interpretation le: element_sequence list_inv list_body list_alloc list_macro list_op
proof unfold_locales
  show "list_inv (list_alloc q p v) ps \<and> (\<forall>a. list_body (list_alloc q p v) a = (if a = p then Some v else list_body q a))"
    if "list_inv q ps" "p \<notin> set ps" for q :: "'a le_list" and ps p v
    using that by (simp add: list_inv_def list_body_def list_alloc_def)
qed (rule list_macro_ok)

section \<open>Properties\<close>

text \<open>
  C38: the singly linked lists, the simple queues and the LIST macros implement sequences. Every run of the operations
  a family has, with elements that are not in the list yet and beside elements that are, follows no bad pointer;
  afterwards the list holds the elements of the same operations on a sequence, the first is what \<open>FIRST\<close> gives, the loop
  \<open>FOREACH\<close> ends and visits them in order, and \<open>EMPTY\<close> tells whether there are any.
\<close>

theorem bsd_lists_are_sequences:
  assumes "seq_valid_run slist_op ops1 []" "seq_valid_run simpleq_op ops2 []" "seq_valid_run list_op ops3 []"
    and "xs = fold seq_spec ops1 []" "ys = fold seq_spec ops2 []" "zs = fold seq_spec ops3 []"
  shows "\<exists>q1 q2 q3.
      seq_run slist_alloc slist_macro (SLIST_INIT q01) ops1 = Some q1 \<and> seq_holds slist_inv slist_body q1 xs \<and>
      SLIST_FOREACH q1 = Some (map fst xs) \<and> SLIST_FIRST q1 = first_or (map fst xs) None \<and> SLIST_EMPTY q1 = (xs = []) \<and>
      seq_run simpleq_alloc simpleq_macro (SIMPLEQ_INIT q02) ops2 = Some q2 \<and> seq_holds simpleq_inv simpleq_body q2 ys \<and>
      SIMPLEQ_FOREACH q2 = Some (map fst ys) \<and> SIMPLEQ_FIRST q2 = first_or (map fst ys) None \<and> SIMPLEQ_EMPTY q2 = (ys = []) \<and>
      seq_run list_alloc list_macro (LIST_INIT q03) ops3 = Some q3 \<and> seq_holds list_inv list_body q3 zs \<and>
      LIST_FOREACH q3 = Some (map fst zs) \<and> LIST_FIRST q3 = first_or (map fst zs) None \<and> LIST_EMPTY q3 = (zs = [])"
proof -
  have new: "slist_inv (SLIST_INIT q01) []" "simpleq_inv (SIMPLEQ_INIT q02) []" "list_inv (LIST_INIT q03) []"
    by (simp_all add: slist_inv_def SLIST_INIT_def simpleq_inv_def SIMPLEQ_INIT_def list_inv_def LIST_INIT_def)
  obtain q1 where q1: "seq_run slist_alloc slist_macro (SLIST_INIT q01) ops1 = Some q1"
    "seq_holds slist_inv slist_body q1 xs" "slist_inv q1 (map fst xs)"
    by (rule slist.run_new [OF new(1) assms(1,4)])
  obtain q2 where q2: "seq_run simpleq_alloc simpleq_macro (SIMPLEQ_INIT q02) ops2 = Some q2"
    "seq_holds simpleq_inv simpleq_body q2 ys" "simpleq_inv q2 (map fst ys)"
    by (rule simpleq.run_new [OF new(2) assms(2,5)])
  obtain q3 where q3: "seq_run list_alloc list_macro (LIST_INIT q03) ops3 = Some q3"
    "seq_holds list_inv list_body q3 zs" "list_inv q3 (map fst zs)"
    by (rule le.run_new [OF new(3) assms(3,6)])
  have loops: "SLIST_FOREACH q1 = Some (map fst xs)" "SIMPLEQ_FOREACH q2 = Some (map fst ys)"
    "LIST_FOREACH q3 = Some (map fst zs)"
    using q1(3) q2(3) q3(3) s_linked_foreach le_linked_foreach
    by (auto simp: slist_inv_def SLIST_FOREACH_def SLIST_FIRST_def SLIST_NEXT_def [abs_def] simpleq_inv_def SIMPLEQ_FOREACH_def
        SIMPLEQ_FIRST_def SIMPLEQ_NEXT_def [abs_def] list_inv_def LIST_FOREACH_def LIST_FIRST_def LIST_NEXT_def [abs_def])
  with q1 q2 q3 show ?thesis
    by (simp add: slist_inv_def SLIST_FIRST_def SLIST_EMPTY_def simpleq_inv_def SIMPLEQ_FIRST_def SIMPLEQ_EMPTY_def
        list_inv_def LIST_FIRST_def LIST_EMPTY_def)
qed

text \<open>Storage that the macros have not seen yet.\<close>

definition slist_new :: "nat slist" where
  "slist_new = \<lparr>sl_store = Map.empty, slh_first = None\<rparr>"

definition simpleq_new :: "nat simpleq" where
  "simpleq_new = \<lparr>sq_store = Map.empty, sqh_first = None, sqh_last = Head_first\<rparr>"

definition list_new :: "nat le_list" where
  "list_new = \<lparr>le_store = Map.empty, lh_first = None\<rparr>"

theorem bsd_lists_are_sequences_witness:
  "\<exists>q1 q2 q3.
      seq_run slist_alloc slist_macro (SLIST_INIT slist_new) [Ins_head 1 10, Ins_after 1 2 20, Remove 1] = Some q1 \<and>
      seq_holds slist_inv slist_body q1 [(2, 20)] \<and> SLIST_FOREACH q1 = Some (map fst [(2, 20 :: nat)]) \<and>
      SLIST_FIRST q1 = first_or (map fst [(2, 20 :: nat)]) None \<and> SLIST_EMPTY q1 = ([(2 :: nat, 20 :: nat)] = []) \<and>
      seq_run simpleq_alloc simpleq_macro (SIMPLEQ_INIT simpleq_new) [Ins_tail 1 10, Ins_tail 2 20, Remove 1, Ins_after 2 3 30]
        = Some q2 \<and> seq_holds simpleq_inv simpleq_body q2 [(2, 20), (3, 30)] \<and>
      SIMPLEQ_FOREACH q2 = Some (map fst [(2, 20 :: nat), (3, 30)]) \<and>
      SIMPLEQ_FIRST q2 = first_or (map fst [(2, 20 :: nat), (3, 30)]) None \<and>
      SIMPLEQ_EMPTY q2 = ([(2 :: nat, 20 :: nat), (3, 30)] = []) \<and>
      seq_run list_alloc list_macro (LIST_INIT list_new) [Ins_head 1 10, Ins_before 1 2 20, Replace 1 3 30, Remove 2] = Some q3 \<and>
      seq_holds list_inv list_body q3 [(3, 30)] \<and> LIST_FOREACH q3 = Some (map fst [(3, 30 :: nat)]) \<and>
      LIST_FIRST q3 = first_or (map fst [(3, 30 :: nat)]) None \<and> LIST_EMPTY q3 = ([(3 :: nat, 30 :: nat)] = [])"
  by (rule bsd_lists_are_sequences) (simp_all add: seq_op_defs slist_op_def simpleq_op_def list_op_def)

end
