(* ===== verification/Circle_Queue.thy ===== *)
theory Circle_Queue
  imports Element_Sequence
begin

text \<open>
  The circular queues of \<^verbatim>\<open>util/queue.h\<close> (the CIRCLEQ macros), on the store of nodes. A link is the address of an
  element or that of the head (\<^verbatim>\<open>CIRCLEQ_END\<close>), which stands as \<open>None\<close> here: no macro follows it, and the links of
  an element are written before they are read, so a null pointer never occurs. \<open>CIRCLEQ_REPLACE\<close> is left out: it
  selects fields of the head with a dot where every other macro follows a pointer, and cannot be compiled.
\<close>

section \<open>The macros\<close>

record 'v circleq =
  cq_nodes :: "'v store"
  cqh_first :: "nat option"
  cqh_last :: "nat option"

definition CIRCLEQ_FIRST :: "'v circleq \<Rightarrow> nat option" where
  "CIRCLEQ_FIRST q = cqh_first q"

definition CIRCLEQ_LAST :: "'v circleq \<Rightarrow> nat option" where
  "CIRCLEQ_LAST q = cqh_last q"

definition CIRCLEQ_NEXT :: "'v circleq \<Rightarrow> nat \<Rightarrow> nat option option" where
  "CIRCLEQ_NEXT q elm = map_option n_next (cq_nodes q elm)"

definition CIRCLEQ_PREV :: "'v circleq \<Rightarrow> nat \<Rightarrow> nat option option" where
  "CIRCLEQ_PREV q elm = map_option n_prev (cq_nodes q elm)"

definition CIRCLEQ_EMPTY :: "'v circleq \<Rightarrow> bool" where
  "CIRCLEQ_EMPTY q \<longleftrightarrow> CIRCLEQ_FIRST q = None"

definition CIRCLEQ_FOREACH :: "'v circleq \<Rightarrow> nat list option" where
  "CIRCLEQ_FOREACH q = foreach (CIRCLEQ_NEXT q) (CIRCLEQ_FIRST q)"

definition CIRCLEQ_FOREACH_REVERSE :: "'v circleq \<Rightarrow> nat list option" where
  "CIRCLEQ_FOREACH_REVERSE q = foreach (CIRCLEQ_PREV q) (CIRCLEQ_LAST q)"

definition CIRCLEQ_INIT :: "'v circleq \<Rightarrow> 'v circleq" where
  "CIRCLEQ_INIT q = q\<lparr>cqh_first := None, cqh_last := None\<rparr>"

text \<open>The two ways a macro makes an element, or the head in its place, point to another.\<close>

definition link_prev :: "'v circleq \<Rightarrow> nat option \<Rightarrow> nat option \<Rightarrow> 'v circleq option" where
  "link_prev q at x =
     (if at = None then Some (q\<lparr>cqh_last := x\<rparr>)
      else do { st \<leftarrow> set_prev (cq_nodes q) at x; Some (q\<lparr>cq_nodes := st\<rparr>) })"

definition link_next :: "'v circleq \<Rightarrow> nat option \<Rightarrow> nat option \<Rightarrow> 'v circleq option" where
  "link_next q at x =
     (if at = None then Some (q\<lparr>cqh_first := x\<rparr>)
      else do { st \<leftarrow> set_next (cq_nodes q) at x; Some (q\<lparr>cq_nodes := st\<rparr>) })"

definition set_links :: "'v circleq \<Rightarrow> nat \<Rightarrow> nat option \<Rightarrow> nat option \<Rightarrow> 'v circleq option" where
  "set_links q elm nx pr = do {
     st1 \<leftarrow> set_next (cq_nodes q) (Some elm) nx;
     st2 \<leftarrow> set_prev st1 (Some elm) pr;
     Some (q\<lparr>cq_nodes := st2\<rparr>)
   }"

definition CIRCLEQ_INSERT_AFTER :: "'v circleq \<Rightarrow> nat \<Rightarrow> nat \<Rightarrow> 'v circleq option" where
  "CIRCLEQ_INSERT_AFTER q listelm elm = do {
     nx \<leftarrow> CIRCLEQ_NEXT q listelm;
     q1 \<leftarrow> set_links q elm nx (Some listelm);
     nx1 \<leftarrow> CIRCLEQ_NEXT q1 listelm;
     q2 \<leftarrow> link_prev q1 nx1 (Some elm);
     link_next q2 (Some listelm) (Some elm)
   }"

definition CIRCLEQ_INSERT_BEFORE :: "'v circleq \<Rightarrow> nat \<Rightarrow> nat \<Rightarrow> 'v circleq option" where
  "CIRCLEQ_INSERT_BEFORE q listelm elm = do {
     pr \<leftarrow> CIRCLEQ_PREV q listelm;
     q1 \<leftarrow> set_links q elm (Some listelm) pr;
     pr1 \<leftarrow> CIRCLEQ_PREV q1 listelm;
     q2 \<leftarrow> link_next q1 pr1 (Some elm);
     link_prev q2 (Some listelm) (Some elm)
   }"

definition CIRCLEQ_INSERT_HEAD :: "'v circleq \<Rightarrow> nat \<Rightarrow> 'v circleq option" where
  "CIRCLEQ_INSERT_HEAD q elm = do {
     q1 \<leftarrow> set_links q elm (cqh_first q) None;
     q2 \<leftarrow> (if cqh_last q1 = None then Some (q1\<lparr>cqh_last := Some elm\<rparr>)
            else do {
              st \<leftarrow> set_prev (cq_nodes q1) (cqh_first q1) (Some elm);
              Some (q1\<lparr>cq_nodes := st\<rparr>)
            });
     Some (q2\<lparr>cqh_first := Some elm\<rparr>)
   }"

definition CIRCLEQ_INSERT_TAIL :: "'v circleq \<Rightarrow> nat \<Rightarrow> 'v circleq option" where
  "CIRCLEQ_INSERT_TAIL q elm = do {
     q1 \<leftarrow> set_links q elm None (cqh_last q);
     q2 \<leftarrow> (if cqh_first q1 = None then Some (q1\<lparr>cqh_first := Some elm\<rparr>)
            else do {
              st \<leftarrow> set_next (cq_nodes q1) (cqh_last q1) (Some elm);
              Some (q1\<lparr>cq_nodes := st\<rparr>)
            });
     Some (q2\<lparr>cqh_last := Some elm\<rparr>)
   }"

definition CIRCLEQ_REMOVE :: "'v circleq \<Rightarrow> nat \<Rightarrow> 'v circleq option" where
  "CIRCLEQ_REMOVE q elm = do {
     e \<leftarrow> cq_nodes q elm;
     q1 \<leftarrow> link_prev q (n_next e) (n_prev e);
     e1 \<leftarrow> cq_nodes q1 elm;
     link_next q1 (n_prev e1) (n_next e1)
   }"

section \<open>The queue as a sequence\<close>

definition circle_inv :: "'v circleq \<Rightarrow> nat list \<Rightarrow> bool" where
  "circle_inv q ps \<longleftrightarrow>
     distinct ps \<and> linked (cq_nodes q) None ps None \<and>
     cqh_first q = first_or ps None \<and> cqh_last q = last_or None ps"

definition circle_body :: "'v circleq \<Rightarrow> nat \<Rightarrow> 'v option" where
  "circle_body q p = map_option n_value (cq_nodes q p)"

definition circle_alloc :: "'v circleq \<Rightarrow> nat \<Rightarrow> 'v \<Rightarrow> 'v circleq" where
  "circle_alloc q p v = q\<lparr>cq_nodes := (cq_nodes q)(p \<mapsto> \<lparr>n_prev = None, n_next = None, n_value = v\<rparr>)\<rparr>"

definition circle_op :: "'v seq_op \<Rightarrow> nat list \<Rightarrow> bool" where
  "circle_op op ps = (case op of Replace r p v \<Rightarrow> False | _ \<Rightarrow> True)"

definition circle_macro :: "'v circleq \<Rightarrow> 'v seq_op \<Rightarrow> 'v circleq option" where
  "circle_macro q op =
     (case op of
        Ins_head p v \<Rightarrow> CIRCLEQ_INSERT_HEAD q p
      | Ins_tail p v \<Rightarrow> CIRCLEQ_INSERT_TAIL q p
      | Ins_after r p v \<Rightarrow> CIRCLEQ_INSERT_AFTER q r p
      | Ins_before r p v \<Rightarrow> CIRCLEQ_INSERT_BEFORE q r p
      | Remove r \<Rightarrow> CIRCLEQ_REMOVE q r
      | Replace r p v \<Rightarrow> None)"

lemma last_or_Some [simp]: "last_or (Some r) ps \<noteq> None" "\<exists>y. last_or (Some r) ps = Some y"
  by (auto simp: last_or_def)

lemmas circle_defs = circle_macro_def circle_inv_def circle_body_def circle_op_def seq_op_defs addr_spec_def absent
  linked_append set_links_def link_prev_def link_next_def set_prev_def set_next_def CIRCLEQ_NEXT_def CIRCLEQ_PREV_def
  CIRCLEQ_INSERT_HEAD_def CIRCLEQ_INSERT_TAIL_def CIRCLEQ_INSERT_AFTER_def CIRCLEQ_INSERT_BEFORE_def CIRCLEQ_REMOVE_def

lemma circle_macro_at:
  assumes inv: "circle_inv q (as @ r # bs)" and r: "named op = Some r"
    and valid: "seq_valid circle_op op (as @ r # bs)"
    and new: "case inserted op of None \<Rightarrow> True | Some (p, v) \<Rightarrow> circle_body q p = Some v"
  shows "\<exists>q'. circle_macro q op = Some q' \<and> circle_inv q' (addr_spec op (as @ r # bs)) \<and>
           (\<forall>a. circle_body q' a = circle_body q a)"
proof -
  obtain f where f: "cq_nodes q r = Some f" "n_prev f = last_or None as" "n_next f = first_or bs None"
    using inv by (auto simp: circle_inv_def elim: linked_nodeE)
  note facts = f inv r valid new
  show ?thesis
  proof (cases as rule: rev_cases)
    case Nil
    show ?thesis
    proof (cases bs)
      case (Cons t ds)
      obtain h where "cq_nodes q t = Some h"
        using inv by (auto simp: circle_inv_def Cons linked_append split: option.splits)
      with Nil Cons facts show ?thesis by (cases op) (auto simp: circle_defs)
    qed (use Nil facts in \<open>cases op; auto simp: circle_defs\<close>)
  next
    case (snoc cs s)
    obtain g where g: "cq_nodes q s = Some g"
      using inv by (auto simp: circle_inv_def snoc linked_append split: option.splits)
    show ?thesis
    proof (cases bs)
      case (Cons t ds)
      obtain h where "cq_nodes q t = Some h"
        using inv by (auto simp: circle_inv_def Cons linked_append split: option.splits)
      with snoc Cons facts g show ?thesis by (cases op) (auto simp: circle_defs)
    qed (use snoc facts g in \<open>cases op; auto simp: circle_defs\<close>)
  qed
qed

lemma circle_macro_ok:
  assumes inv: "circle_inv q ps" and valid: "seq_valid circle_op op ps"
    and new: "case inserted op of None \<Rightarrow> True | Some (p, v) \<Rightarrow> circle_body q p = Some v"
  shows "\<exists>q'. circle_macro q op = Some q' \<and> circle_inv q' (addr_spec op ps) \<and> (\<forall>a. circle_body q' a = circle_body q a)"
proof (cases "named op")
  case None
  show ?thesis
  proof (cases op)
    case (Ins_head p v)
    show ?thesis
    proof (cases ps)
      case (Cons t ds)
      obtain h where "cq_nodes q t = Some h"
        using inv by (auto simp: circle_inv_def Cons split: option.splits)
      with Cons Ins_head valid inv new show ?thesis by (auto simp: circle_defs)
    qed (use Ins_head valid inv new in \<open>auto simp: circle_defs\<close>)
  next
    case (Ins_tail p v)
    show ?thesis
    proof (cases ps rule: rev_cases)
      case (snoc ds t)
      obtain h where "cq_nodes q t = Some h"
        using inv by (auto simp: circle_inv_def snoc linked_append split: option.splits)
      with snoc Ins_tail valid inv new show ?thesis by (auto simp: circle_defs)
    qed (use Ins_tail valid inv new in \<open>auto simp: circle_defs\<close>)
  qed (use None in \<open>simp_all add: named_def\<close>)
next
  case (Some r)
  then have "distinct ps" "r \<in> set ps" using inv valid by (auto simp: circle_inv_def seq_valid_def)
  then obtain as bs where ps: "ps = as @ r # bs" by (rule distinct_splitE)
  show ?thesis using circle_macro_at [OF inv [unfolded ps] Some valid [unfolded ps] new] by (simp add: ps)
qed

interpretation circle: element_sequence circle_inv circle_body circle_alloc circle_macro circle_op
proof unfold_locales
  show "circle_inv (circle_alloc q p v) ps \<and>
      (\<forall>a. circle_body (circle_alloc q p v) a = (if a = p then Some v else circle_body q a))"
    if "circle_inv q ps" "p \<notin> set ps" for q :: "'a circleq" and ps p v
    using that by (simp add: circle_inv_def circle_body_def circle_alloc_def)
qed (rule circle_macro_ok)

lemma linked_foreach:
  "linked st pr ps None \<Longrightarrow> foreach (\<lambda>a. map_option n_next (st a)) (first_or ps None) = Some ps"
  by (induction ps arbitrary: pr) (auto split: option.splits)

lemma linked_foreach_reverse:
  "linked st None ps nx \<Longrightarrow> foreach (\<lambda>a. map_option n_prev (st a)) (last_or None ps) = Some (rev ps)"
  by (induction ps arbitrary: nx rule: rev_induct) (auto simp: linked_append split: option.splits)

section \<open>Properties\<close>

text \<open>
  C37: the circular queue macros implement a sequence. Every run of insertions at either end, before and after an
  element, and of removals, that inserts elements not in the queue and names elements in it, follows no bad pointer;
  afterwards the loops in both directions end and visit the elements of the same operations on a sequence.
\<close>

theorem circleq_implements_sequence:
  assumes "seq_valid_run circle_op ops []" "xs = fold seq_spec ops []"
  shows "\<exists>q. seq_run circle_alloc circle_macro (CIRCLEQ_INIT q0) ops = Some q \<and>
           seq_holds circle_inv circle_body q xs \<and> CIRCLEQ_FOREACH q = Some (map fst xs) \<and>
           CIRCLEQ_FOREACH_REVERSE q = Some (rev (map fst xs)) \<and> CIRCLEQ_EMPTY q = (xs = [])"
proof -
  have new: "circle_inv (CIRCLEQ_INIT q0) []" by (simp add: circle_inv_def CIRCLEQ_INIT_def)
  obtain q where q: "seq_run circle_alloc circle_macro (CIRCLEQ_INIT q0) ops = Some q"
    "seq_holds circle_inv circle_body q xs" "circle_inv q (map fst xs)" by (rule circle.run_new [OF new assms])
  with linked_foreach linked_foreach_reverse show ?thesis
    by (auto simp: circle_inv_def CIRCLEQ_FOREACH_def CIRCLEQ_FOREACH_REVERSE_def CIRCLEQ_EMPTY_def CIRCLEQ_FIRST_def
        CIRCLEQ_LAST_def CIRCLEQ_NEXT_def [abs_def] CIRCLEQ_PREV_def [abs_def])
qed

definition circleq_new :: "nat circleq" where
  "circleq_new = \<lparr>cq_nodes = Map.empty, cqh_first = None, cqh_last = None\<rparr>"

theorem circleq_implements_sequence_witness:
  "\<exists>q. seq_run circle_alloc circle_macro (CIRCLEQ_INIT circleq_new)
         [Ins_tail 1 10, Ins_head 2 20, Ins_after 2 3 30, Remove 1, Ins_before 3 4 40] = Some q \<and>
       seq_holds circle_inv circle_body q [(2, 20), (4, 40), (3, 30)] \<and>
       CIRCLEQ_FOREACH q = Some (map fst [(2, 20 :: nat), (4, 40), (3, 30)]) \<and>
       CIRCLEQ_FOREACH_REVERSE q = Some (rev (map fst [(2, 20 :: nat), (4, 40), (3, 30)])) \<and>
       CIRCLEQ_EMPTY q = ([(2 :: nat, 20 :: nat), (4, 40), (3, 30)] = [])"
  by (rule circleq_implements_sequence) (simp_all add: seq_op_defs circle_op_def)

end
