(* ===== verification/Condvar.thy ===== *)
theory Condvar
  imports Prelude
begin

text \<open>
  Condition variables, as the models of the blocking queue and the thread pool use them. A critical
  section is one step; it ends by unlocking or by waiting. It says what it did to the condition
  variable, and \<open>wakes\<close> which of the waiting threads that lets go: a signal wakes at least one of them,
  a broadcast all. A thread that was let go still has to take the lock again.
\<close>

datatype cond_op = Quiet | Signal | Broadcast

fun wakes :: "cond_op \<Rightarrow> 'a set \<Rightarrow> 'a set \<Rightarrow> bool" where
  "wakes Quiet W V \<longleftrightarrow> V = {}"
| "wakes Signal W V \<longleftrightarrow> V \<subseteq> W \<and> (W \<noteq> {} \<longrightarrow> V \<noteq> {})"
| "wakes Broadcast W V \<longleftrightarrow> V = W"

lemma wakes_subset: "wakes c W V \<Longrightarrow> V \<subseteq> W"
  by (cases c) auto

lemma wakes_exists: "\<exists>V. wakes c W V"
  by (cases c) auto

end
