(* ===== verification/Blocking_Queue.thy ===== *)
theory Blocking_Queue
  imports Tail_Queue Condvar
begin

text \<open>
  The blocking queue of \<^verbatim>\<open>cevent/ce_queue.c\<close>. Each function is a definition on the state the mutex
  protects, from \<open>pthread_mutex_lock\<close> to the unlock or to the wait; \<open>ce_queue_get\<close> is in two parts, up to
  its wait and after it. The threads that call them are a step relation \<open>cq_step\<close> on the queue, the
  threads that wait and those that were let go and have not yet taken the lock again.

  \<open>None\<close> is undefined behaviour. \<open>ce_assert\<close> is the empty macro of a release build, and \<open>ce_calloc\<close> returns
  the address of an element not in use.
\<close>

section \<open>State and operations\<close>

record 'v ce_queue =
  cq_queue :: "'v tailq"
  cq_stop :: bool

definition ce_queue_new :: "'v ce_queue" where
  "ce_queue_new =
     \<lparr>cq_queue = TAILQ_INIT \<lparr>tq_store = Map.empty, tqh_first = None, tqh_last = Head_first\<rparr>,
      cq_stop = False\<rparr>"

text \<open>The queue afterwards, what was done to the condition variable, and the result.\<close>

definition ce_queue_push ::
  "'v ce_queue option \<Rightarrow> nat \<Rightarrow> 'v \<Rightarrow> ('v ce_queue option \<times> cond_op \<times> bool) option" where
  "ce_queue_push queue item body =
     (case queue of
        None \<Rightarrow> Some (None, Quiet, False)
      | Some q \<Rightarrow> do {
          tq \<leftarrow> TAILQ_INSERT_TAIL (tq_alloc (cq_queue q) item body) item;
          Some (Some (q\<lparr>cq_queue := tq\<rparr>), Signal, True)
        })"

text \<open>The end of \<open>ce_queue_get\<close>: the item found, if any, is unlinked, freed and handed out.\<close>

definition get_item :: "'v ce_queue \<Rightarrow> nat option \<Rightarrow> ('v ce_queue \<times> int \<times> 'v option) option" where
  "get_item q item =
     (case item of
        Some p \<Rightarrow> do {
          body \<leftarrow> tq_body (cq_queue q) p;
          tq \<leftarrow> TAILQ_REMOVE (cq_queue q) p;
          Some (q\<lparr>cq_queue := tq_free tq p\<rparr>, 1, Some body)
        }
      | None \<Rightarrow> Some (q, 0, None))"

text \<open>\<open>Returns q r b\<close>: the result is \<open>r\<close> and \<open>b\<close> is stored in \<open>*body\<close> (NULL is \<open>None\<close>).\<close>

datatype 'v get_step = Returns "'v ce_queue option" int "'v option" | Waits

definition ce_queue_get :: "'v ce_queue option \<Rightarrow> bool \<Rightarrow> int \<Rightarrow> 'v get_step option" where
  "ce_queue_get queue body_ok timeout =
     (case queue of
        None \<Rightarrow> Some (Returns None 0 None)
      | Some q \<Rightarrow>
          if \<not> body_ok then Some (Returns queue 0 None)
          else
            let item = TAILQ_FIRST (cq_queue q) in
            if item = None \<and> \<not> cq_stop q
            then (if timeout = 0 then Some (Returns queue 0 None) else Some Waits)
            else map_option (\<lambda>(q', r, b). Returns (Some q') r b) (get_item q item))"

text \<open>The rest of the loop body after a wait that gave \<open>wait_r\<close>; it never waits a second time.\<close>

definition ce_queue_get_woken :: "'v ce_queue \<Rightarrow> int \<Rightarrow> ('v ce_queue \<times> int \<times> 'v option) option" where
  "ce_queue_get_woken q wait_r =
     (if cq_stop q then Some (q, -1, None)
      else
        let item = TAILQ_FIRST (cq_queue q) in
        if item = None
        then (if wait_r \<noteq> 0 then Some (q, 0, None) else Some (q, -1, None))
        else get_item q item)"

definition ce_queue_stop :: "'v ce_queue option \<Rightarrow> 'v ce_queue option \<times> cond_op \<times> bool" where
  "ce_queue_stop queue =
     (case queue of
        None \<Rightarrow> (None, Quiet, False)
      | Some q \<Rightarrow> (Some (q\<lparr>cq_stop := True\<rparr>), Signal, True))"

text \<open>
  \<open>ce_queue_destroy\<close> stops the queue and frees it; the pointer is NULL afterwards. Elements still queued
  stay allocated: they are the leak the second component reports.
\<close>

definition ce_queue_destroy :: "'v ce_queue option \<Rightarrow> 'v ce_queue option \<times> (nat \<rightharpoonup> 'v tq_elem)" where
  "ce_queue_destroy queue =
     (case queue of
        None \<Rightarrow> (None, Map.empty)
      | Some _ \<Rightarrow>
          (case ce_queue_stop queue of
             (Some q, _) \<Rightarrow> (None, tq_store (cq_queue q))
           | (None, _) \<Rightarrow> (None, Map.empty)))"

section \<open>Threads\<close>

text \<open>
  A thread is idle, waits in \<open>ce_queue_get\<close> with a timeout, or was let go with the result of its wait.
\<close>

record 'v cq_sys =
  cs_queue :: "'v ce_queue"
  cs_waiting :: "nat \<rightharpoonup> int"
  cs_woken :: "nat \<rightharpoonup> int"

definition cq_start :: "'v cq_sys" where
  "cq_start = \<lparr>cs_queue = ce_queue_new, cs_waiting = Map.empty, cs_woken = Map.empty\<rparr>"

text \<open>The waiting threads \<open>V\<close> are let go with the result 0.\<close>

definition let_go :: "nat set \<Rightarrow> 'v cq_sys \<Rightarrow> 'v cq_sys" where
  "let_go V s =
     s\<lparr>cs_waiting := cs_waiting s |` (- V),
       cs_woken := (\<lambda>t. if t \<in> V then Some 0 else cs_woken s t)\<rparr>"

definition cs_idle :: "'v cq_sys \<Rightarrow> nat \<Rightarrow> bool" where
  "cs_idle s t \<longleftrightarrow> cs_waiting s t = None \<and> cs_woken s t = None"

datatype 'v cq_event = Push 'v | Return nat int "'v option" | Stop | Spurious nat | Timeout nat | Wait nat

inductive cq_step :: "'v cq_sys \<Rightarrow> 'v cq_event \<Rightarrow> 'v cq_sys \<Rightarrow> bool" where
  push: "tq_store (cq_queue (cs_queue s)) item = None \<Longrightarrow>
     ce_queue_push (Some (cs_queue s)) item v = Some (Some q, c, True) \<Longrightarrow>
     wakes c (dom (cs_waiting s)) V \<Longrightarrow>
     cq_step s (Push v) (let_go V (s\<lparr>cs_queue := q\<rparr>))"
| get: "cs_idle s t \<Longrightarrow>
     ce_queue_get (Some (cs_queue s)) True timeout = Some (Returns (Some q) r b) \<Longrightarrow>
     cq_step s (Return t r b) (s\<lparr>cs_queue := q\<rparr>)"
| wait: "cs_idle s t \<Longrightarrow> ce_queue_get (Some (cs_queue s)) True timeout = Some Waits \<Longrightarrow>
     cq_step s (Wait t) (s\<lparr>cs_waiting := (cs_waiting s)(t \<mapsto> timeout)\<rparr>)"
| spurious: "cs_waiting s t = Some timeout \<Longrightarrow>
     cq_step s (Spurious t) (let_go {t} s)"
| timed_out: "cs_waiting s t = Some timeout \<Longrightarrow> 0 < timeout \<Longrightarrow> wait_r \<noteq> 0 \<Longrightarrow>
     cq_step s (Timeout t)
       (s\<lparr>cs_waiting := (cs_waiting s)(t := None), cs_woken := (cs_woken s)(t \<mapsto> wait_r)\<rparr>)"
| resume: "cs_woken s t = Some wait_r \<Longrightarrow>
     ce_queue_get_woken (cs_queue s) wait_r = Some (q, r, b) \<Longrightarrow>
     cq_step s (Return t r b) (s\<lparr>cs_queue := q, cs_woken := (cs_woken s)(t := None)\<rparr>)"
| stop: "ce_queue_stop (Some (cs_queue s)) = (Some q, c, True) \<Longrightarrow>
     wakes c (dom (cs_waiting s)) V \<Longrightarrow>
     cq_step s Stop (let_go V (s\<lparr>cs_queue := q\<rparr>))"

text \<open>A run, the oldest event first.\<close>

inductive cq_run :: "'v cq_sys \<Rightarrow> 'v cq_event list \<Rightarrow> 'v cq_sys \<Rightarrow> bool" where
  run_nil: "cq_run s [] s"
| run_step: "cq_run s es s1 \<Longrightarrow> cq_step s1 e s2 \<Longrightarrow> cq_run s (es @ [e]) s2"

text \<open>What a run pushed and what its calls of \<open>ce_queue_get\<close> handed out.\<close>

fun pushed :: "'v cq_event list \<Rightarrow> 'v list" where
  "pushed [] = []"
| "pushed (Push v # es) = v # pushed es"
| "pushed (_ # es) = pushed es"

fun handed_out :: "'v cq_event list \<Rightarrow> 'v list" where
  "handed_out [] = []"
| "handed_out (Return _ _ (Some v) # es) = v # handed_out es"
| "handed_out (_ # es) = handed_out es"

lemma pushed_append [simp]: "pushed (es @ fs) = pushed es @ pushed fs"
  by (induction es rule: pushed.induct) simp_all

lemma handed_out_append [simp]: "handed_out (es @ fs) = handed_out es @ handed_out fs"
  by (induction es rule: handed_out.induct) simp_all

section \<open>The queue as a sequence\<close>

definition cq_holds :: "'v ce_queue \<Rightarrow> 'v list \<Rightarrow> bool" where
  "cq_holds q xs \<longleftrightarrow>
     (\<exists>ps. tq_inv (cq_queue q) ps \<and> map (tq_body (cq_queue q)) ps = map Some xs)"

lemma cq_holds_new: "cq_holds ce_queue_new []"
  by (simp add: cq_holds_def ce_queue_new_def TAILQ_INIT_ok)

lemma cq_holds_stop [simp]: "cq_holds (q\<lparr>cq_stop := x\<rparr>) xs = cq_holds q xs"
  by (simp add: cq_holds_def)

lemma ce_queue_push_ok:
  assumes "cq_holds q xs" "tq_store (cq_queue q) p = None"
  shows "\<exists>q'. ce_queue_push (Some q) p v = Some (Some q', Signal, True) \<and> cq_holds q' (xs @ [v]) \<and>
           cq_stop q' = cq_stop q"
proof -
  obtain ps where ps: "tq_inv (cq_queue q) ps" "map (tq_body (cq_queue q)) ps = map Some xs"
    using assms(1) by (auto simp: cq_holds_def)
  have "tq_body (cq_queue q) p = None" using assms(2) by (simp add: tq_body_def)
  from tq.append_fresh [OF ps(1) this, of v] obtain tq where
    "tq_append_new (cq_queue q) p v = Some tq" "tq_inv tq (ps @ [p])"
    "map (tq_body tq) (ps @ [p]) = map Some (xs @ [v])"
    using ps(2) by auto
  then show ?thesis
    by (auto simp: ce_queue_push_def tq_append_new_def cq_holds_def intro!: exI [of _ "ps @ [p]"])
qed

lemma get_item_ok:
  assumes "cq_holds q xs"
  shows "\<exists>q'. get_item q (TAILQ_FIRST (cq_queue q)) =
           Some (q', case xs of [] \<Rightarrow> (0, None) | x # _ \<Rightarrow> (1, Some x)) \<and>
         cq_holds q' (tl xs) \<and> cq_stop q' = cq_stop q"
    and "TAILQ_FIRST (cq_queue q) = None \<longleftrightarrow> xs = []"
proof -
  obtain ps where ps: "tq_inv (cq_queue q) ps" "map (tq_body (cq_queue q)) ps = map Some xs"
    using assms by (auto simp: cq_holds_def)
  have first: "TAILQ_FIRST (cq_queue q) = first_or ps None" by (rule tq.first_law [OF ps(1)])
  show "TAILQ_FIRST (cq_queue q) = None \<longleftrightarrow> xs = []"
    using ps(2) by (cases ps) (auto simp: first)
  show "\<exists>q'. get_item q (TAILQ_FIRST (cq_queue q)) =
           Some (q', case xs of [] \<Rightarrow> (0, None) | x # _ \<Rightarrow> (1, Some x)) \<and>
         cq_holds q' (tl xs) \<and> cq_stop q' = cq_stop q"
  proof (cases ps)
    case Nil
    with ps assms first show ?thesis by (simp add: get_item_def)
  next
    case (Cons p ps1)
    have "tq_inv (cq_queue q) (p # ps1)" using ps(1) Cons by simp
    from tq.take_first [OF this] obtain tq v where
      r: "tq_body (cq_queue q) p = Some v" "TAILQ_REMOVE (cq_queue q) p = Some tq"
      "tq_inv (tq_free tq p) ps1" and
      b: "map (tq_body (cq_queue q)) (p # ps1) = Some v # map (tq_body (tq_free tq p)) ps1"
      by (elim exE conjE) (rule that)
    obtain y ys where xs: "xs = y # ys" using ps(2) Cons by (cases xs) simp_all
    have "y = v" "map (tq_body (tq_free tq p)) ps1 = map Some ys"
      using ps(2) b by (simp_all add: Cons xs r(1))
    with r first show ?thesis
      by (auto simp: Cons xs get_item_def cq_holds_def intro!: exI [of _ ps1])
  qed
qed

text \<open>The result of a call that does not wait any more: what it returns and what it leaves.\<close>

definition get_answer :: "'v list \<Rightarrow> int \<times> 'v option" where
  "get_answer xs = (case xs of [] \<Rightarrow> (0, None) | x # _ \<Rightarrow> (1, Some x))"

lemma ce_queue_get_ok:
  assumes "cq_holds q xs"
  shows "xs = [] \<Longrightarrow> \<not> cq_stop q \<Longrightarrow> timeout \<noteq> 0 \<Longrightarrow> ce_queue_get (Some q) True timeout = Some Waits"
    and "xs \<noteq> [] \<or> cq_stop q \<or> timeout = 0 \<Longrightarrow>
      \<exists>q'. ce_queue_get (Some q) True timeout = Some (Returns (Some q') (fst (get_answer xs)) (snd (get_answer xs))) \<and>
        cq_holds q' (tl xs) \<and> cq_stop q' = cq_stop q"
  using get_item_ok [OF assms] assms
  by (auto simp: ce_queue_get_def get_answer_def Let_def split: list.splits)

lemma ce_queue_get_returnsD:
  assumes "ce_queue_get (Some q) True timeout = Some (Returns (Some q') r b)" "cq_holds q xs"
  shows "(r, b) = get_answer xs \<and> cq_holds q' (tl xs) \<and> cq_stop q' = cq_stop q"
  using ce_queue_get_ok [OF assms(2), of timeout] assms(1)
  by (cases "xs \<noteq> [] \<or> cq_stop q \<or> timeout = 0") auto

lemma ce_queue_get_woken_ok:
  assumes "cq_holds q xs"
  shows "\<exists>q'. ce_queue_get_woken q wait_r =
           Some (q', if cq_stop q then (-1, None)
                     else if xs = [] then (if wait_r \<noteq> 0 then 0 else -1, None)
                     else get_answer xs) \<and>
         cq_holds q' (if cq_stop q then xs else tl xs) \<and> cq_stop q' = cq_stop q"
  using get_item_ok [OF assms] assms
  by (auto simp: ce_queue_get_woken_def get_answer_def Let_def split: list.splits)

text \<open>One step: what it does to the sequence, and the result code it gives.\<close>

lemma let_go_simps [simp]:
  "cs_queue (let_go V s) = cs_queue s"
  "cs_waiting (let_go V s) t = (if t \<in> V then None else cs_waiting s t)"
  "cs_woken (let_go V s) t = (if t \<in> V then Some 0 else cs_woken s t)"
  by (simp_all add: let_go_def restrict_map_def)

lemma cq_step_holds:
  assumes "cq_step s e s'" "cq_holds (cs_queue s) xs"
  shows "\<exists>xs'. cq_holds (cs_queue s') xs' \<and> xs @ pushed [e] = handed_out [e] @ xs'"
  using assms
proof cases
  case (push item v q c V)
  then show ?thesis using ce_queue_push_ok [OF assms(2) push(3), of v] by auto
next
  case (get t timeout q r b)
  from ce_queue_get_returnsD [OF get(4) assms(2)] show ?thesis
    using get by (auto simp: get_answer_def split: list.splits)
next
  case (resume t wait_r q r b)
  from ce_queue_get_woken_ok [OF assms(2), of wait_r] show ?thesis
    using resume by (auto simp: get_answer_def split: list.splits if_splits)
qed (use assms(2) in \<open>auto simp: ce_queue_stop_def\<close>)

lemma cq_run_holds:
  "cq_run s es s' \<Longrightarrow> cq_holds (cs_queue s) xs \<Longrightarrow>
     \<exists>xs'. cq_holds (cs_queue s') xs' \<and> xs @ pushed es = handed_out es @ xs'"
proof (induction rule: cq_run.induct)
  case (run_step s es s1 e s2)
  then obtain xs1 where xs1: "cq_holds (cs_queue s1) xs1" "xs @ pushed es = handed_out es @ xs1" by blast
  obtain xs2 where xs2: "cq_holds (cs_queue s2) xs2" "xs1 @ pushed [e] = handed_out [e] @ xs2"
    using cq_step_holds [OF run_step.hyps(2) xs1(1)] by blast
  have "xs @ pushed (es @ [e]) = handed_out (es @ [e]) @ xs2"
    using xs1(2) xs2(2) by (simp flip: append_assoc) simp
  with xs2(1) show ?case by blast
qed auto

lemma cq_start_holds: "cq_holds (cs_queue cq_start) []"
  by (simp add: cq_start_def cq_holds_new)

text \<open>A waiting thread stays where it is until a push, a stop, its timeout or a spurious wakeup.\<close>

lemma cq_step_waiting:
  assumes "cq_step s e s'" "cs_waiting s t = Some n"
    and "e \<notin> {Stop, Spurious t, Timeout t}" "\<forall>v. e \<noteq> Push v"
  shows "cs_waiting s' t = Some n"
  using assms by (cases rule: cq_step.cases) (auto simp: cs_idle_def)

lemma cq_run_waiting:
  "cq_run s es s' \<Longrightarrow> cs_waiting s t = Some n \<Longrightarrow>
     set es \<inter> {Stop, Spurious t, Timeout t} = {} \<Longrightarrow> pushed es = [] \<Longrightarrow> cs_waiting s' t = Some n"
proof (induction rule: cq_run.induct)
  case (run_step s es s1 e s2)
  then have "cs_waiting s1 t = Some n" by simp
  moreover have "e \<notin> {Stop, Spurious t, Timeout t}" using run_step.prems(2) by auto
  moreover have "\<forall>v. e \<noteq> Push v" using run_step.prems(3) by auto
  ultimately show ?case using cq_step_waiting [OF run_step.hyps(2)] by blast
qed simp

text \<open>No thread is both waiting and let go.\<close>

lemma cq_step_disjoint:
  "cq_step s e s' \<Longrightarrow> cs_waiting s t = None \<or> cs_woken s t = None \<Longrightarrow>
     cs_waiting s' t = None \<or> cs_woken s' t = None"
  by (cases rule: cq_step.cases) (auto simp: cs_idle_def dest: wakes_subset split: if_splits)

lemma cq_run_disjoint: "cq_run cq_start es s \<Longrightarrow> cs_waiting s t = None \<or> cs_woken s t = None"
proof (induction "cq_start :: 'a cq_sys" es s rule: cq_run.induct)
  case (run_step es s1 e s2)
  from cq_step_disjoint [OF run_step(3,2)] show ?case .
qed (simp add: cq_start_def)

section \<open>Properties\<close>

text \<open>
  C7: under every interleaving of pushes, gets, timeouts, spurious wakeups and stops the queue loses
  nothing, duplicates nothing and keeps the order: the bodies pushed are those handed out so far
  followed by those still in the tail queue, whose links are intact; and no call that could be made in
  a reachable state follows a bad pointer.
\<close>

theorem ce_queue_fifo:
  assumes "cq_run cq_start es s"
  shows "\<exists>xs. cq_holds (cs_queue s) xs \<and> pushed es = handed_out es @ xs \<and>
           (\<forall>p v. tq_store (cq_queue (cs_queue s)) p = None \<longrightarrow>
              ce_queue_push (Some (cs_queue s)) p v \<noteq> None) \<and>
           (\<forall>timeout. ce_queue_get (Some (cs_queue s)) True timeout \<noteq> None) \<and>
           (\<forall>wait_r. ce_queue_get_woken (cs_queue s) wait_r \<noteq> None)"
proof -
  obtain xs where xs: "cq_holds (cs_queue s) xs" "pushed es = handed_out es @ xs"
    using cq_run_holds [OF assms cq_start_holds] by auto
  have "ce_queue_get (Some (cs_queue s)) True timeout \<noteq> None" for timeout
    using ce_queue_get_ok [OF xs(1), of timeout] by fastforce
  moreover have "ce_queue_push (Some (cs_queue s)) p v \<noteq> None"
    if "tq_store (cq_queue (cs_queue s)) p = None" for p v
    using ce_queue_push_ok [OF xs(1) that, of v] by auto
  moreover have "ce_queue_get_woken (cs_queue s) wait_r \<noteq> None" for wait_r
    using ce_queue_get_woken_ok [OF xs(1), of wait_r] by auto
  ultimately show ?thesis using xs by blast
qed

text \<open>
  What \<open>ce_queue_get\<close> does when it takes the lock. It waits exactly when the queue is empty and not
  stopped and the timeout is not zero. Otherwise it returns at once: the oldest body with the result 1
  even if the queue was stopped, or NULL with the result 0 if it is empty, and this is also the result
  of a call on a stopped empty queue, for which its comment announces -1.
\<close>

lemma ce_queue_get_spec:
  assumes "cq_holds q xs"
  shows "\<exists>q'. ce_queue_get (Some q) True timeout =
             Some (if xs = [] \<and> \<not> cq_stop q \<and> timeout \<noteq> 0 then Waits
                   else case xs of [] \<Rightarrow> Returns (Some q') 0 None | x # _ \<Rightarrow> Returns (Some q') 1 (Some x)) \<and>
           cq_holds q' (tl xs) \<and> cq_stop q' = cq_stop q"
proof (cases "xs = [] \<and> \<not> cq_stop q \<and> timeout \<noteq> 0")
  case True
  with ce_queue_get_ok(1) [OF assms, of timeout] assms show ?thesis by auto
next
  case False
  then have "xs \<noteq> [] \<or> cq_stop q \<or> timeout = 0" by blast
  from ce_queue_get_ok(2) [OF assms this] False show ?thesis
    by (auto simp: get_answer_def split: list.splits)
qed

definition stopped_queue :: "nat ce_queue" where
  "stopped_queue = ce_queue_new\<lparr>cq_stop := True\<rparr>"

lemma ce_queue_get_spec_witness:
  "\<exists>q'. ce_queue_get (Some stopped_queue) True (-1) =
       Some (if [] = ([] :: nat list) \<and> \<not> cq_stop stopped_queue \<and> (-1 :: int) \<noteq> 0 then Waits
             else case [] of [] \<Rightarrow> Returns (Some q') 0 None | x # _ \<Rightarrow> Returns (Some q') 1 (Some x)) \<and>
     cq_holds q' (tl []) \<and> cq_stop q' = cq_stop stopped_queue"
  by (rule ce_queue_get_spec) (simp add: stopped_queue_def cq_holds_new)

text \<open>
  A thread let go from its wait always finishes its call in one step, with -1 when the queue was
  stopped (even if it holds bodies), else with 1 and the oldest body, else with 0 after a timeout and
  -1 after any other wakeup; so every call of \<open>ce_queue_get\<close> waits at most once.
\<close>

lemma ce_queue_get_resumes:
  assumes "cq_run cq_start es s" "cs_woken s t = Some wait_r"
  shows "\<exists>xs s'. cq_holds (cs_queue s) xs \<and>
           cq_step s
             (if cq_stop (cs_queue s) then Return t (-1) None
              else case xs of
                     x # _ \<Rightarrow> Return t 1 (Some x)
                   | [] \<Rightarrow> Return t (if wait_r = 0 then -1 else 0) None) s' \<and>
           cs_idle s' t \<and> cq_holds (cs_queue s') (if cq_stop (cs_queue s) then xs else tl xs)"
proof -
  obtain xs where xs: "cq_holds (cs_queue s) xs" using cq_run_holds [OF assms(1) cq_start_holds] by blast
  obtain q' where q': "ce_queue_get_woken (cs_queue s) wait_r =
      Some (q', if cq_stop (cs_queue s) then (-1, None)
                else if xs = [] then (if wait_r \<noteq> 0 then 0 else -1, None) else get_answer xs)"
    "cq_holds q' (if cq_stop (cs_queue s) then xs else tl xs)"
    using ce_queue_get_woken_ok [OF xs, of wait_r] by blast
  have idle: "cs_waiting s t = None" using cq_run_disjoint [OF assms(1), of t] assms(2) by auto
  show ?thesis
    by (rule exI [of _ xs], rule exI [of _ "s\<lparr>cs_queue := q', cs_woken := (cs_woken s)(t := None)\<rparr>"])
      (use xs q' idle cq_step.resume [OF assms(2)] in
        \<open>auto simp: cs_idle_def get_answer_def split: list.splits\<close>)
qed

lemma cq_start_holds_simps: "\<not> cq_stop (cs_queue cq_start)"
  by (simp add: cq_start_def ce_queue_new_def)

lemma step_wait:
  "cs_idle s t \<Longrightarrow> cq_holds (cs_queue s) [] \<Longrightarrow> \<not> cq_stop (cs_queue s) \<Longrightarrow> timeout \<noteq> 0 \<Longrightarrow>
     cq_step s (Wait t) (s\<lparr>cs_waiting := (cs_waiting s)(t \<mapsto> timeout)\<rparr>)"
  by (rule cq_step.wait) (simp_all add: ce_queue_get_ok)

text \<open>Two threads that wait without a timeout.\<close>

definition two_waiting :: "nat cq_sys" where
  "two_waiting = cq_start\<lparr>cs_waiting := [1 \<mapsto> -1, 2 \<mapsto> -1]\<rparr>"

lemma cq_run_singleton: "cq_step s e s' \<Longrightarrow> cq_run s [e] s'"
  using cq_run.run_step [OF cq_run.run_nil] by fastforce

lemma two_waiting_run: "cq_run cq_start [Wait 1, Wait 2] two_waiting"
proof -
  let ?s1 = "(cq_start :: nat cq_sys)\<lparr>cs_waiting := [1 \<mapsto> -1]\<rparr>"
  have "cq_step cq_start (Wait 1) ?s1"
    using step_wait [of "cq_start :: nat cq_sys" 1 "-1"] cq_start_holds cq_start_holds_simps
    by (simp add: cs_idle_def cq_start_def)
  then have 1: "cq_run cq_start [Wait 1] ?s1" by (rule cq_run_singleton)
  have "cq_step ?s1 (Wait 2) two_waiting"
    using step_wait [of ?s1 2 "-1"] cq_start_holds cq_start_holds_simps
    by (simp add: cs_idle_def cq_start_def two_waiting_def)
  from cq_run.run_step [OF 1 this] show ?thesis by simp
qed

lemma ce_queue_get_resumes_witness:
  "\<exists>xs s'. cq_holds (cs_queue (let_go {1} two_waiting)) xs \<and>
     cq_step (let_go {1} two_waiting)
       (if cq_stop (cs_queue (let_go {1} two_waiting)) then Return 1 (-1) None
        else case xs of
               x # _ \<Rightarrow> Return 1 1 (Some x)
             | [] \<Rightarrow> Return 1 (if (0 :: int) = 0 then -1 else 0) None) s' \<and>
     cs_idle s' 1 \<and>
     cq_holds (cs_queue s') (if cq_stop (cs_queue (let_go {1} two_waiting)) then xs else tl xs)"
proof (rule ce_queue_get_resumes)
  have "cq_step two_waiting (Spurious 1) (let_go {1} two_waiting)"
    by (rule cq_step.spurious [of _ _ "-1"]) (simp add: two_waiting_def)
  from cq_run.run_step [OF two_waiting_run this]
  show "cq_run cq_start ([Wait 1, Wait 2] @ [Spurious 1]) (let_go {1} two_waiting)" .
qed simp

theorem ce_queue_fifo_witness:
  "\<exists>xs. cq_holds (cs_queue two_waiting) xs \<and>
     pushed [Wait 1, Wait 2] = handed_out [Wait 1, Wait 2] @ xs \<and>
     (\<forall>p v. tq_store (cq_queue (cs_queue two_waiting)) p = None \<longrightarrow>
        ce_queue_push (Some (cs_queue two_waiting)) p v \<noteq> None) \<and>
     (\<forall>timeout. ce_queue_get (Some (cs_queue two_waiting)) True timeout \<noteq> None) \<and>
     (\<forall>wait_r. ce_queue_get_woken (cs_queue two_waiting) wait_r \<noteq> None)"
  by (rule ce_queue_fifo [OF two_waiting_run])

text \<open>
  C30: \<open>ce_queue_stop\<close> signals once, so it need not reach every thread that waits. With two threads
  waiting there is a stop after which the second stays in \<open>pthread_cond_wait\<close> through everything that can
  happen without another push, another stop, its timeout or a spurious wakeup, although the queue is
  stopped.
\<close>

theorem ce_queue_stop_wakes_one:
  assumes "cq_run cq_start es s" "cs_waiting s t1 = Some n1" "cs_waiting s t2 = Some n2" "t1 \<noteq> t2"
  shows "\<exists>s'. cq_step s Stop s' \<and> cq_stop (cs_queue s') \<and> cs_waiting s' t1 = None \<and>
           (\<forall>fs s''. cq_run s' fs s'' \<and> pushed fs = [] \<and> set fs \<inter> {Stop, Spurious t2, Timeout t2} = {} \<longrightarrow>
              cs_waiting s'' t2 = Some n2)"
proof -
  let ?s = "let_go {t1} (s\<lparr>cs_queue := (cs_queue s)\<lparr>cq_stop := True\<rparr>\<rparr>)"
  have "cq_step s Stop ?s"
    by (rule cq_step.stop [where c = Signal]) (use assms(2) in \<open>auto simp: ce_queue_stop_def\<close>)
  moreover have "cs_waiting ?s t2 = Some n2" using assms(3,4) by simp
  ultimately show ?thesis
    by (intro exI [of _ ?s]) (auto dest: cq_run_waiting)
qed

theorem ce_queue_stop_wakes_one_witness:
  "\<exists>s'. cq_step two_waiting Stop s' \<and> cq_stop (cs_queue s') \<and> cs_waiting s' 1 = None \<and>
     (\<forall>fs s''. cq_run s' fs s'' \<and> pushed fs = [] \<and> set fs \<inter> {Stop, Spurious 2, Timeout 2} = {} \<longrightarrow>
        cs_waiting s'' 2 = Some (-1))"
  by (rule ce_queue_stop_wakes_one [OF two_waiting_run]) (simp_all add: two_waiting_def)

text \<open>
  -1 does not mean that the queue was stopped. A thread waits, a body is pushed and signalled, a
  second thread takes it before the first has the lock again, and the first returns -1, with no stop
  and no spurious wakeup.
\<close>

lemma ce_queue_get_aborts_unstopped:
  "\<exists>s. cq_run cq_start [Wait 1, Push (7 :: nat), Return 2 1 (Some 7), Return 1 (-1) None] s"
proof -
  let ?s0 = "cq_start :: nat cq_sys"
  let ?s1 = "?s0\<lparr>cs_waiting := [1 \<mapsto> -1]\<rparr>"
  have "cq_step ?s0 (Wait 1) ?s1"
    using step_wait [of ?s0 1 "-1"] cq_start_holds cq_start_holds_simps
    by (simp add: cs_idle_def cq_start_def)
  then have r1: "cq_run ?s0 [Wait 1] ?s1" by (rule cq_run_singleton)
  have h1: "cq_holds (cs_queue ?s1) []" using cq_start_holds by simp
  have free: "tq_store (cq_queue (cs_queue ?s1)) 5 = None"
    by (simp add: cq_start_def ce_queue_new_def TAILQ_INIT_def)
  obtain q2 where q2: "ce_queue_push (Some (cs_queue ?s1)) 5 (7 :: nat) = Some (Some q2, Signal, True)"
    "cq_holds q2 [7]" "\<not> cq_stop q2"
    using ce_queue_push_ok [OF h1 free, of 7] cq_start_holds_simps by auto
  let ?s2 = "let_go {1} (?s1\<lparr>cs_queue := q2\<rparr>)"
  have "cq_step ?s1 (Push 7) ?s2" by (rule cq_step.push [OF free q2(1)]) simp
  from cq_run.run_step [OF r1 this] have r2: "cq_run ?s0 [Wait 1, Push 7] ?s2" by simp
  obtain q3 where q3: "ce_queue_get (Some q2) True 0 = Some (Returns (Some q3) 1 (Some 7))"
    "cq_holds q3 []" "\<not> cq_stop q3"
    using ce_queue_get_ok(2) [OF q2(2), of 0] q2(3) by (auto simp: get_answer_def)
  let ?s3 = "?s2\<lparr>cs_queue := q3\<rparr>"
  have "cq_step ?s2 (Return 2 1 (Some 7)) ?s3"
    by (rule cq_step.get [where timeout = 0]) (use q3 in \<open>simp_all add: cs_idle_def cq_start_def\<close>)
  from cq_run.run_step [OF r2 this] have r3: "cq_run ?s0 [Wait 1, Push 7, Return 2 1 (Some 7)] ?s3" by simp
  obtain q4 where q4: "ce_queue_get_woken q3 0 = Some (q4, -1, None)" "\<not> cq_stop q4"
    using ce_queue_get_woken_ok [OF q3(2), of 0] q3(3) by auto
  have "cq_step ?s3 (Return 1 (-1) None) (?s3\<lparr>cs_queue := q4, cs_woken := (cs_woken ?s3)(1 := None)\<rparr>)"
    by (rule cq_step.resume [where wait_r = 0]) (use q4 in simp_all)
  from cq_run.run_step [OF r3 this] show ?thesis by auto
qed

end
