(* ===== verification/Thread_Pool.thy ===== *)
theory Thread_Pool
  imports Tail_Queue Condvar
begin

text \<open>
  The thread pool of \<^verbatim>\<open>cevent/ce_threadpool.c\<close>. A job (\<open>ce_tp_worker_t\<close>) is an element of the pool's tail
  queue; its callbacks are functions from its data. The functions are definitions on the pool, one per
  critical section or per access to a job outside the lock; the threads of the pool are the step
  relation \<open>tp_thread_step\<close>, with a program counter for each, and the calls of the pool's owner are
  \<open>tp_owner_step\<close>. \<open>None\<close> is an access to a job that was freed; \<open>ce_assert\<close> is the empty macro of a
  release build.
\<close>

section \<open>State\<close>

datatype tp_state = tp_state_idle | tp_state_busy | tp_state_complete | tp_state_invalid

datatype tp_kill = tp_kill_immediate | tp_kill_wait

record ('d, 'r) tp_worker =
  w_process :: "'d \<Rightarrow> 'r"
  w_complete :: bool
  w_data :: 'd
  w_result :: "'r option"
  w_state :: tp_state
  w_sem :: nat

record ('d, 'r) ce_tp =
  tp_queue :: "('d, 'r) tp_worker tailq"
  tp_nthreads :: int
  tp_abort :: bool
  tp_routines :: int

section \<open>Creating the pool\<close>

definition tp_new :: "int \<Rightarrow> ('d, 'r) ce_tp" where
  "tp_new nthreads =
     \<lparr>tp_queue = TAILQ_INIT \<lparr>tq_store = Map.empty, tqh_first = None, tqh_last = Head_first\<rparr>,
      tp_nthreads = nthreads, tp_abort = False, tp_routines = 0\<rparr>"

text \<open>
  The loop of \<open>ce_tp_create\<close>, together with the threads it has created that have not yet counted
  themselves in \<open>routines\<close>: \<open>cr_polling\<close> is the inner \<open>while\<close> with its \<open>usleep\<close>.
\<close>

record tp_create =
  cr_index :: int
  cr_polling :: bool
  cr_pending :: nat
  cr_routines :: int

definition create_start :: tp_create where
  "create_start = \<lparr>cr_index = 0, cr_polling = False, cr_pending = 0, cr_routines = 0\<rparr>"

inductive create_step :: "int \<Rightarrow> tp_create \<Rightarrow> tp_create \<Rightarrow> bool" for nthreads where
  spawn: "\<not> cr_polling s \<Longrightarrow> cr_index s < nthreads \<Longrightarrow>
     create_step nthreads s (s\<lparr>cr_polling := True, cr_pending := cr_pending s + 1\<rparr>)"
| routine_starts: "0 < cr_pending s \<Longrightarrow>
     create_step nthreads s (s\<lparr>cr_pending := cr_pending s - 1, cr_routines := cr_routines s + 1\<rparr>)"
| poll: "cr_polling s \<Longrightarrow> cr_routines s < nthreads \<Longrightarrow> create_step nthreads s s"
| next_thread: "cr_polling s \<Longrightarrow> \<not> cr_routines s < nthreads \<Longrightarrow>
     create_step nthreads s (s\<lparr>cr_polling := False, cr_index := cr_index s + 1\<rparr>)"

definition create_returns :: "int \<Rightarrow> tp_create \<Rightarrow> bool" where
  "create_returns nthreads s \<longleftrightarrow> \<not> cr_polling s \<and> \<not> cr_index s < nthreads"

section \<open>Operations of the owner\<close>

text \<open>\<open>process\<close> is \<open>None\<close> for NULL; the result is NULL or the address of the job.\<close>

definition ce_tp_worker_register ::
  "('d, 'r) ce_tp option \<Rightarrow> nat \<Rightarrow> ('d \<Rightarrow> 'r) option \<Rightarrow> bool \<Rightarrow> 'd \<Rightarrow>
     (('d, 'r) ce_tp option \<times> cond_op \<times> nat option) option" where
  "ce_tp_worker_register pool worker process complete data =
     (case (pool, process) of
        (Some p, Some process_cb) \<Rightarrow>
          if tp_abort p then Some (pool, Quiet, None)
          else do {
            q \<leftarrow> TAILQ_INSERT_TAIL
              (tq_alloc (tp_queue p) worker
                 \<lparr>w_process = process_cb, w_complete = complete, w_data = data, w_result = None,
                  w_state = tp_state_idle, w_sem = 0\<rparr>) worker;
            Some (Some (p\<lparr>tp_queue := q\<rparr>), Broadcast, Some worker)
          }
      | _ \<Rightarrow> Some (pool, Quiet, None))"

definition ce_tp_worker_touch :: "('d, 'r) ce_tp \<Rightarrow> nat option \<Rightarrow> tp_state option" where
  "ce_tp_worker_touch pool worker =
     (case worker of
        None \<Rightarrow> Some tp_state_invalid
      | Some a \<Rightarrow> map_option w_state (tq_body (tp_queue pool) a))"

text \<open>A wait returns NULL or the job's result, or it blocks on the job's semaphore.\<close>

datatype 'r wait_out = Wait_blocks | Wait_returns "'r option"

definition ce_tp_worker_wait ::
  "('d, 'r) ce_tp \<Rightarrow> nat option \<Rightarrow> (('d, 'r) ce_tp \<times> 'r wait_out) option" where
  "ce_tp_worker_wait pool worker =
     (case worker of
        None \<Rightarrow> Some (pool, Wait_returns None)
      | Some a \<Rightarrow> do {
          w \<leftarrow> tq_body (tp_queue pool) a;
          if w_sem w = 0 then Some (pool, Wait_blocks)
          else do {
            q \<leftarrow> tq_set_body (tp_queue pool) a (w\<lparr>w_sem := w_sem w - 1\<rparr>);
            Some (pool\<lparr>tp_queue := q\<rparr>, Wait_returns (w_result w))
          }
        })"

text \<open>The \<open>TAILQ_FOREACH\<close> of \<open>ce_tp_worker_free\<close>: is the job still queued?\<close>

partial_function (option) foreach_finds :: "'v tailq \<Rightarrow> nat option \<Rightarrow> nat \<Rightarrow> bool option" where
  "foreach_finds q a_worker worker =
     (case a_worker of
        None \<Rightarrow> Some False
      | Some a \<Rightarrow>
          if a = worker then Some True
          else do { nx \<leftarrow> TAILQ_NEXT q a; foreach_finds q nx worker })"

definition ce_tp_worker_free :: "('d, 'r) ce_tp \<Rightarrow> nat \<Rightarrow> ('d, 'r) ce_tp option" where
  "ce_tp_worker_free pool worker = do {
     w \<leftarrow> tq_body (tp_queue pool) worker;
     queued \<leftarrow> foreach_finds (tp_queue pool) (TAILQ_FIRST (tp_queue pool)) worker;
     q1 \<leftarrow> (if queued then TAILQ_REMOVE (tp_queue pool) worker else Some (tp_queue pool));
     q2 \<leftarrow> tq_set_body q1 worker (w\<lparr>w_sem := w_sem w + 1\<rparr>);
     Some (pool\<lparr>tp_queue := tq_free q2 worker\<rparr>)
   }"

text \<open>The last loop of \<open>ce_tp_destroy\<close>: what is still queued is freed.\<close>

partial_function (option) drain :: "('d, 'r) tp_worker tailq \<Rightarrow> ('d, 'r) tp_worker tailq option" where
  "drain q =
     (case TAILQ_FIRST q of
        None \<Rightarrow> Some q
      | Some a \<Rightarrow> do {
          q1 \<leftarrow> TAILQ_REMOVE q a;
          w \<leftarrow> tq_body q1 a;
          q2 \<leftarrow> tq_set_body q1 a (w\<lparr>w_sem := w_sem w + 1\<rparr>);
          drain (tq_free q2 a)
        })"

text \<open>The guard of \<open>ce_tp_destroy\<close> with the test that ends its first loop, and the section that sets \<open>abort\<close>.\<close>

definition destroy_may_abort :: "('d, 'r) ce_tp \<Rightarrow> tp_kill \<Rightarrow> bool" where
  "destroy_may_abort pool kill \<longleftrightarrow>
     \<not> tp_abort pool \<and> (kill = tp_kill_wait \<longrightarrow> TAILQ_FIRST (tp_queue pool) = None)"

definition destroy_abort :: "('d, 'r) ce_tp \<Rightarrow> ('d, 'r) ce_tp \<times> cond_op" where
  "destroy_abort pool = (pool\<lparr>tp_abort := True\<rparr>, Broadcast)"

section \<open>The routine of a thread\<close>

datatype routine_step = Routine_exits | Routine_waits | Routine_takes nat

text \<open>The critical section, entered from the lock or after a wait.\<close>

definition routine_section :: "('d, 'r) ce_tp \<Rightarrow> (('d, 'r) ce_tp \<times> routine_step) option" where
  "routine_section pool =
     (case TAILQ_FIRST (tp_queue pool) of
        None \<Rightarrow> Some (pool, if tp_abort pool then Routine_exits else Routine_waits)
      | Some worker \<Rightarrow> do {
          q \<leftarrow> TAILQ_REMOVE (tp_queue pool) worker;
          Some (pool\<lparr>tp_queue := q\<rparr>, Routine_takes worker)
        })"

text \<open>What it does to the job, outside the lock.\<close>

definition update_worker ::
  "('d, 'r) ce_tp \<Rightarrow> nat \<Rightarrow> (('d, 'r) tp_worker \<Rightarrow> ('d, 'r) tp_worker) \<Rightarrow> ('d, 'r) ce_tp option" where
  "update_worker pool worker f = do {
     w \<leftarrow> tq_body (tp_queue pool) worker;
     q \<leftarrow> tq_set_body (tp_queue pool) worker (f w);
     Some (pool\<lparr>tp_queue := q\<rparr>)
   }"

definition routine_busy :: "('d, 'r) ce_tp \<Rightarrow> nat \<Rightarrow> ('d, 'r) ce_tp option" where
  "routine_busy pool worker = update_worker pool worker (\<lambda>w. w\<lparr>w_state := tp_state_busy\<rparr>)"

definition routine_process :: "('d, 'r) ce_tp \<Rightarrow> nat \<Rightarrow> ('d, 'r) ce_tp option" where
  "routine_process pool worker =
     update_worker pool worker
       (\<lambda>w. w\<lparr>w_result := Some (w_process w (w_data w)), w_state := tp_state_complete\<rparr>)"

definition routine_post :: "('d, 'r) ce_tp \<Rightarrow> nat \<Rightarrow> ('d, 'r) ce_tp option" where
  "routine_post pool worker = update_worker pool worker (\<lambda>w. w\<lparr>w_sem := w_sem w + 1\<rparr>)"

section \<open>Threads\<close>

text \<open>
  Where a thread of the pool is: at the test of the \<open>for\<close> loop, about to take the lock, waiting, with a
  job in one of the phases, or at its end.
\<close>

datatype tp_pc =
    Top | Locking | Waiting | Taken nat | Busy nat | Processed nat | Posted nat | Called nat | Exited

fun pc_worker :: "tp_pc \<Rightarrow> nat option" where
  "pc_worker (Taken a) = Some a"
| "pc_worker (Busy a) = Some a"
| "pc_worker (Processed a) = Some a"
| "pc_worker (Posted a) = Some a"
| "pc_worker (Called a) = Some a"
| "pc_worker _ = None"

record ('d, 'r) tp_sys =
  ts_pool :: "('d, 'r) ce_tp"
  ts_pc :: "nat \<Rightarrow> tp_pc"

text \<open>A job as the events show it: the callback and its data.\<close>

type_synonym ('d, 'r) job = "('d \<Rightarrow> 'r) \<times> 'd"

definition w_job :: "('d, 'r) tp_worker \<Rightarrow> ('d, 'r) job" where
  "w_job w = (w_process w, w_data w)"

datatype ('d, 'r) tp_event =
    Register "('d, 'r) job" | Take nat "('d, 'r) job" | Process nat "('d, 'r) job" 'r
  | Complete nat "('d, 'r) job" 'r | Free nat nat | Abort | Silent

definition ts_move ::
  "('d, 'r) tp_sys \<Rightarrow> nat \<Rightarrow> tp_pc \<Rightarrow> ('d, 'r) ce_tp \<Rightarrow> ('d, 'r) tp_sys" where
  "ts_move s t c p = s\<lparr>ts_pool := p, ts_pc := (ts_pc s)(t := c)\<rparr>"

inductive tp_thread_step ::
  "nat \<Rightarrow> ('d, 'r) tp_sys \<Rightarrow> ('d, 'r) tp_event \<Rightarrow> ('d, 'r) tp_sys \<Rightarrow> bool" for t where
  leave: "ts_pc s t = Top \<Longrightarrow> tp_abort (ts_pool s) \<Longrightarrow>
     tp_thread_step t s Silent (ts_move s t Exited (ts_pool s))"
| lock: "ts_pc s t = Top \<Longrightarrow> \<not> tp_abort (ts_pool s) \<Longrightarrow>
     tp_thread_step t s Silent (ts_move s t Locking (ts_pool s))"
| section_exits: "ts_pc s t = Locking \<Longrightarrow> routine_section (ts_pool s) = Some (p, Routine_exits) \<Longrightarrow>
     tp_thread_step t s Silent (ts_move s t Exited p)"
| section_waits: "ts_pc s t = Locking \<Longrightarrow> routine_section (ts_pool s) = Some (p, Routine_waits) \<Longrightarrow>
     tp_thread_step t s Silent (ts_move s t Waiting p)"
| section_takes: "ts_pc s t = Locking \<Longrightarrow> routine_section (ts_pool s) = Some (p, Routine_takes a) \<Longrightarrow>
     tq_body (tp_queue p) a = Some w \<Longrightarrow>
     tp_thread_step t s (Take t (w_job w)) (ts_move s t (Taken a) p)"
| spurious: "ts_pc s t = Waiting \<Longrightarrow>
     tp_thread_step t s Silent (ts_move s t Locking (ts_pool s))"
| busy: "ts_pc s t = Taken a \<Longrightarrow> routine_busy (ts_pool s) a = Some p \<Longrightarrow>
     tp_thread_step t s Silent (ts_move s t (Busy a) p)"
| process: "ts_pc s t = Busy a \<Longrightarrow> routine_process (ts_pool s) a = Some p \<Longrightarrow>
     tq_body (tp_queue p) a = Some w \<Longrightarrow> w_result w = Some r \<Longrightarrow>
     tp_thread_step t s (Process t (w_job w) r) (ts_move s t (Processed a) p)"
| post: "ts_pc s t = Processed a \<Longrightarrow> routine_post (ts_pool s) a = Some p \<Longrightarrow>
     tp_thread_step t s Silent (ts_move s t (Posted a) p)"
| complete: "ts_pc s t = Posted a \<Longrightarrow> tq_body (tp_queue (ts_pool s)) a = Some w \<Longrightarrow>
     w_complete w \<Longrightarrow> w_result w = Some r \<Longrightarrow>
     tp_thread_step t s (Complete t (w_job w) r) (ts_move s t (Called a) (ts_pool s))"
| no_complete: "ts_pc s t = Posted a \<Longrightarrow> tq_body (tp_queue (ts_pool s)) a = Some w \<Longrightarrow>
     \<not> w_complete w \<Longrightarrow>
     tp_thread_step t s Silent (ts_move s t (Called a) (ts_pool s))"
| free: "ts_pc s t = Called a \<Longrightarrow> ce_tp_worker_free (ts_pool s) a = Some p \<Longrightarrow>
     tp_thread_step t s (Free t a) (ts_move s t Top p)"

text \<open>A broadcast sends every waiting thread back to the lock.\<close>

definition broadcast :: "(nat \<Rightarrow> tp_pc) \<Rightarrow> nat \<Rightarrow> tp_pc" where
  "broadcast pcs = (\<lambda>t. if pcs t = Waiting then Locking else pcs t)"

inductive tp_owner_step :: "('d, 'r) tp_sys \<Rightarrow> ('d, 'r) tp_event \<Rightarrow> ('d, 'r) tp_sys \<Rightarrow> bool" where
  register: "tq_body (tp_queue (ts_pool s)) a = None \<Longrightarrow>
     ce_tp_worker_register (Some (ts_pool s)) a (Some f) complete d = Some (Some p, Broadcast, Some a) \<Longrightarrow>
     tp_owner_step s (Register (f, d)) \<lparr>ts_pool = p, ts_pc = broadcast (ts_pc s)\<rparr>"
| abort: "destroy_may_abort (ts_pool s) kill \<Longrightarrow> destroy_abort (ts_pool s) = (p, Broadcast) \<Longrightarrow>
     tp_owner_step s Abort \<lparr>ts_pool = p, ts_pc = broadcast (ts_pc s)\<rparr>"

definition tp_start :: "int \<Rightarrow> ('d, 'r) tp_sys" where
  "tp_start nthreads =
     \<lparr>ts_pool = (tp_new nthreads)\<lparr>tp_routines := nthreads\<rparr>, ts_pc = (\<lambda>_. Top)\<rparr>"

inductive tp_run :: "('d, 'r) tp_sys \<Rightarrow> ('d, 'r) tp_event list \<Rightarrow> ('d, 'r) tp_sys \<Rightarrow> bool" for s0 where
  run_nil: "tp_run s0 [] s0"
| run_thread: "tp_run s0 es s \<Longrightarrow> int t < tp_nthreads (ts_pool s) \<Longrightarrow> tp_thread_step t s e s' \<Longrightarrow>
     tp_run s0 (es @ [e]) s'"
| run_owner: "tp_run s0 es s \<Longrightarrow> tp_owner_step s e s' \<Longrightarrow> tp_run s0 (es @ [e]) s'"

section \<open>Creation\<close>

text \<open>With two threads or more the loop never gets past its first index.\<close>

definition create_stuck :: "tp_create \<Rightarrow> bool" where
  "create_stuck s \<longleftrightarrow> cr_index s = 0 \<and>
     (if cr_polling s then cr_routines s + int (cr_pending s) = 1 else cr_routines s = 0 \<and> cr_pending s = 0)"

lemma create_step_stuck: "create_step n s s' \<Longrightarrow> 2 \<le> n \<Longrightarrow> create_stuck s \<Longrightarrow> create_stuck s'"
  by (cases rule: create_step.cases) (auto simp: create_stuck_def split: if_splits)

lemma create_steps_stuck: "(create_step n)\<^sup>*\<^sup>* s s' \<Longrightarrow> 2 \<le> n \<Longrightarrow> create_stuck s \<Longrightarrow> create_stuck s'"
  by (induction rule: rtranclp_induct) (auto intro: create_step_stuck)

lemma create_one: "\<exists>s. (create_step 1)\<^sup>*\<^sup>* create_start s \<and> create_returns 1 s"
proof -
  let ?s1 = "\<lparr>cr_index = 0, cr_polling = True, cr_pending = 1, cr_routines = 0\<rparr>"
  let ?s2 = "\<lparr>cr_index = 0, cr_polling = True, cr_pending = 0, cr_routines = 1\<rparr>"
  let ?s3 = "\<lparr>cr_index = 1, cr_polling = False, cr_pending = 0, cr_routines = 1\<rparr>"
  have 1: "create_step 1 create_start ?s1"
    using create_step.spawn [of create_start 1] by (simp add: create_start_def)
  have 2: "create_step 1 ?s1 ?s2" using create_step.routine_starts [of ?s1 1] by simp
  have 3: "create_step 1 ?s2 ?s3" using create_step.next_thread [of ?s2 1] by simp
  have "(create_step 1)\<^sup>*\<^sup>* create_start ?s1" by (rule r_into_rtranclp [of "create_step 1", OF 1])
  then have "(create_step 1)\<^sup>*\<^sup>* create_start ?s2"
    by (rule rtranclp.rtrancl_into_rtrancl [of "create_step 1", OF _ 2])
  then have "(create_step 1)\<^sup>*\<^sup>* create_start ?s3"
    by (rule rtranclp.rtrancl_into_rtrancl [of "create_step 1", OF _ 3])
  moreover have "create_returns 1 ?s3" by (simp add: create_returns_def)
  ultimately show ?thesis by blast
qed

section \<open>Jobs\<close>

text \<open>
  \<open>tp_wf B ps pcs\<close>: with \<open>B\<close> the jobs allocated and \<open>ps\<close> those queued, every job is either queued or
  in the hands of exactly one thread, and one that was processed has its result.
\<close>

definition done_with :: "tp_pc \<Rightarrow> bool" where
  "done_with c \<longleftrightarrow> (\<exists>a. c \<in> {Processed a, Posted a, Called a})"

definition tp_wf ::
  "(nat \<Rightarrow> ('d, 'r) tp_worker option) \<Rightarrow> nat list \<Rightarrow> (nat \<Rightarrow> tp_pc) \<Rightarrow> bool" where
  "tp_wf B ps pcs \<longleftrightarrow>
     (\<forall>a. B a \<noteq> None \<longleftrightarrow> a \<in> set ps \<or> (\<exists>t. pc_worker (pcs t) = Some a)) \<and>
     (\<forall>t a. pc_worker (pcs t) = Some a \<longrightarrow> a \<notin> set ps) \<and>
     (\<forall>t u a. pc_worker (pcs t) = Some a \<and> pc_worker (pcs u) = Some a \<longrightarrow> t = u) \<and>
     (\<forall>t a w. done_with (pcs t) \<and> pc_worker (pcs t) = Some a \<and> B a = Some w \<longrightarrow>
        w_result w = Some (w_process w (w_data w)))"

lemma done_with_simps [simp]:
  "\<not> done_with Top" "\<not> done_with Locking" "\<not> done_with Waiting" "\<not> done_with Exited"
  "\<not> done_with (Taken a)" "\<not> done_with (Busy a)"
  "done_with (Processed a)" "done_with (Posted a)" "done_with (Called a)"
  by (auto simp: done_with_def)

lemma tp_wf_held:
  assumes "tp_wf B ps pcs" "pc_worker (pcs t) = Some a"
  shows "\<exists>w. B a = Some w"
proof -
  have "B a \<noteq> None" using assms unfolding tp_wf_def by blast
  then show ?thesis by blast
qed

lemma tp_wf_result:
  assumes "tp_wf B ps pcs" "pc_worker (pcs t) = Some a"
  shows "\<exists>w. B a = Some w \<and> (done_with (pcs t) \<longrightarrow> w_result w = Some (w_process w (w_data w)))"
proof -
  obtain w where "B a = Some w" using tp_wf_held [OF assms] by blast
  with assms show ?thesis unfolding tp_wf_def by blast
qed

lemma ex_fun_upd: "(\<exists>u. P ((f(t := c)) u)) \<longleftrightarrow> P c \<or> (\<exists>u. u \<noteq> t \<and> P (f u))"
  by (metis fun_upd_apply)

lemma tp_wf_move:
  assumes "tp_wf B ps pcs" "pc_worker c = pc_worker (pcs t)" "done_with c \<longrightarrow> done_with (pcs t)"
  shows "tp_wf B ps (pcs(t := c))"
proof -
  have pc: "pc_worker ((pcs(t := c)) u) = pc_worker (pcs u)" for u using assms(2) by simp
  have "done_with ((pcs(t := c)) u) \<Longrightarrow> done_with (pcs u)" for u
    using assms(3) by (simp split: if_splits)
  with assms(1) show ?thesis unfolding tp_wf_def pc by blast
qed

lemma tp_wf_update:
  assumes wf: "tp_wf B ps pcs" and t: "pc_worker (pcs t) = Some a" "pc_worker c = Some a"
    and w: "done_with c \<longrightarrow> w_result w = Some (w_process w (w_data w))"
  shows "tp_wf (B(a \<mapsto> w)) ps (pcs(t := c))"
proof -
  have pc: "pc_worker ((pcs(t := c)) u) = pc_worker (pcs u)" for u using t by simp
  have B: "(B(a \<mapsto> w)) x \<noteq> None \<longleftrightarrow> B x \<noteq> None" for x using tp_wf_held [OF wf t(1)] by auto
  have "w_result w1 = Some (w_process w1 (w_data w1))"
    if "done_with ((pcs(t := c)) u)" "pc_worker ((pcs(t := c)) u) = Some x" "(B(a \<mapsto> w)) x = Some w1" for u x w1
  proof (cases "u = t")
    case True
    with that t w show ?thesis by simp
  next
    case False
    then have "x \<noteq> a" using wf t(1) that(2) by (auto simp: tp_wf_def)
    with False that wf show ?thesis by (auto simp: tp_wf_def)
  qed
  with wf show ?thesis unfolding tp_wf_def B pc by blast
qed

lemma tp_wf_take:
  assumes wf: "tp_wf B (a # ps) pcs" and t: "pc_worker (pcs t) = None" and d: "distinct (a # ps)"
  shows "tp_wf B ps (pcs(t := Taken a))"
proof -
  have ex: "(\<exists>u. pc_worker ((pcs(t := Taken a)) u) = Some x) \<longleftrightarrow> x = a \<or> (\<exists>u. pc_worker (pcs u) = Some x)" for x
    by (subst ex_fun_upd) (simp, metis option.distinct(1) t)
  have 1: "\<forall>x. B x \<noteq> None \<longleftrightarrow> x \<in> set ps \<or> (\<exists>u. pc_worker ((pcs(t := Taken a)) u) = Some x)"
    using wf unfolding ex tp_wf_def by auto
  from wf d show ?thesis unfolding tp_wf_def [of B ps] by (intro conjI 1) (auto simp: tp_wf_def split: if_splits)
qed

lemma tp_wf_append:
  assumes "tp_wf B ps pcs" "B a = None"
  shows "tp_wf (B(a \<mapsto> w)) (ps @ [a]) pcs"
proof -
  have "pc_worker (pcs t) \<noteq> Some a" for t using tp_wf_held [OF assms(1), of t a] assms(2) by auto
  with assms show ?thesis by (auto simp: tp_wf_def)
qed

lemma tp_wf_free:
  assumes wf: "tp_wf B ps pcs" and t: "pcs t = Called a"
  shows "tp_wf (B(a := None)) ps (pcs(t := Top))"
proof -
  have pc: "pc_worker (pcs t) = Some a" using t by simp
  have uniq: "u = t" if "pc_worker (pcs u) = Some a" for u
    using wf pc that unfolding tp_wf_def by blast
  have ex: "(\<exists>u. pc_worker ((pcs(t := Top)) u) = Some x) \<longleftrightarrow> x \<noteq> a \<and> (\<exists>u. pc_worker (pcs u) = Some x)" for x
    by (subst ex_fun_upd) (simp, metis uniq pc option.inject)
  have "a \<notin> set ps" using wf pc by (auto simp: tp_wf_def)
  then have 1: "\<forall>x. (B(a := None)) x \<noteq> None \<longleftrightarrow> x \<in> set ps \<or> (\<exists>u. pc_worker ((pcs(t := Top)) u) = Some x)"
    using wf unfolding ex tp_wf_def by auto
  from wf show ?thesis unfolding tp_wf_def [of "B(a := None)"]
    by (intro conjI 1) (auto simp: tp_wf_def split: if_splits)
qed

lemma tp_wf_broadcast: "tp_wf B ps pcs \<Longrightarrow> tp_wf B ps (broadcast pcs)"
proof -
  have "pc_worker (broadcast pcs t) = pc_worker (pcs t)" "done_with (broadcast pcs t) = done_with (pcs t)" for t
    by (simp_all add: broadcast_def)
  then show "tp_wf B ps pcs \<Longrightarrow> tp_wf B ps (broadcast pcs)" by (simp add: tp_wf_def)
qed

section \<open>The operations on a well-formed pool\<close>

abbreviation jobs :: "('d, 'r) ce_tp \<Rightarrow> nat \<Rightarrow> ('d, 'r) tp_worker option" where
  "jobs p \<equiv> tq_body (tp_queue p)"

definition same_flags :: "('d, 'r) ce_tp \<Rightarrow> ('d, 'r) ce_tp \<Rightarrow> bool" where
  "same_flags p p' \<longleftrightarrow> tp_abort p' = tp_abort p \<and> tp_nthreads p' = tp_nthreads p"

lemma update_worker_ok:
  assumes "tq_inv (tp_queue p) ps" "jobs p a = Some w"
  shows "\<exists>p'. update_worker p a f = Some p' \<and> tq_inv (tp_queue p') ps \<and> jobs p' = (jobs p)(a \<mapsto> f w) \<and>
           same_flags p p'"
proof -
  obtain q where q: "tq_set_body (tp_queue p) a (f w) = Some q"
    "\<forall>x. tq_body q x = (if x = a then Some (f w) else tq_body (tp_queue p) x)"
    using tq_set_body_Some [OF assms(2)] by blast
  then have "tq_inv q ps" using tq_inv_set_body [OF _ assms(1)] by blast
  with q assms(2) show ?thesis by (auto simp: update_worker_def same_flags_def fun_eq_iff)
qed

lemma foreach_finds_from:
  "tq_inv q (as @ bs) \<Longrightarrow> foreach_finds q (first_or bs None) a = Some (a \<in> set bs)"
proof (induction bs arbitrary: as)
  case Nil
  then show ?case by (simp add: foreach_finds.simps)
next
  case (Cons b bs)
  have "TAILQ_NEXT q b = Some (first_or bs None)"
    using Cons.prems by (auto simp: TAILQ_NEXT_def tq_inv_def elim: tq_around)
  moreover have "foreach_finds q (first_or bs None) a = Some (a \<in> set bs)"
    using Cons.IH [of "as @ [b]"] Cons.prems by simp
  ultimately show ?case by (subst foreach_finds.simps) auto
qed

lemma foreach_finds_ok: "tq_inv q ps \<Longrightarrow> foreach_finds q (TAILQ_FIRST q) a = Some (a \<in> set ps)"
  using foreach_finds_from [of q "[]" ps a] by (simp add: TAILQ_FIRST_def tq_inv_def)

lemma ce_tp_worker_free_ok:
  assumes inv: "tq_inv (tp_queue p) ps" and a: "jobs p a = Some w"
  shows "\<exists>p'. ce_tp_worker_free p a = Some p' \<and> tq_inv (tp_queue p') (remove1 a ps) \<and>
           jobs p' = (jobs p)(a := None) \<and> same_flags p p'"
proof -
  have d: "distinct ps" by (rule tq.distinct_law [OF inv])
  obtain q1 where q1: "(if a \<in> set ps then TAILQ_REMOVE (tp_queue p) a else Some (tp_queue p)) = Some q1"
    "tq_inv q1 (remove1 a ps)" "\<forall>x. tq_body q1 x = jobs p x"
  proof (cases "a \<in> set ps")
    case True
    then obtain as bs where ps: "ps = as @ a # bs" by (auto simp: in_set_conv_decomp)
    then have "remove1 a ps = as @ bs" using d by (simp add: remove1_append)
    with tq.unlink_law [of "tp_queue p" as a bs] inv True ps that show ?thesis by auto
  qed (use inv that in \<open>simp add: remove1_idem\<close>)
  have b: "tq_body q1 a = Some w" using q1(3) a by simp
  have "a \<notin> set (remove1 a ps)" using d by simp
  moreover obtain q2 where q2: "tq_set_body q1 a (w\<lparr>w_sem := w_sem w + 1\<rparr>) = Some q2"
    "\<forall>x. tq_body q2 x = (if x = a then Some (w\<lparr>w_sem := w_sem w + 1\<rparr>) else tq_body q1 x)"
    using tq_set_body_Some [OF b] by blast
  moreover have "tq_inv q2 (remove1 a ps)" by (rule tq_inv_set_body [OF q2(1) q1(2)])
  ultimately have "tq_inv (tq_free q2 a) (remove1 a ps)"
    "tq_body (tq_free q2 a) = (jobs p)(a := None)"
    using tq_inv_free [of q2 "remove1 a ps" a] q1(3) by (auto simp: fun_eq_iff)
  with foreach_finds_ok [OF inv, of a] q1(1) q2(1) a show ?thesis
    by (auto simp: ce_tp_worker_free_def same_flags_def)
qed

lemma routine_section_ok:
  assumes "tq_inv (tp_queue p) ps"
  shows "case ps of
      [] \<Rightarrow> routine_section p = Some (p, if tp_abort p then Routine_exits else Routine_waits)
    | a # ps' \<Rightarrow> \<exists>p'. routine_section p = Some (p', Routine_takes a) \<and> tq_inv (tp_queue p') ps' \<and>
        jobs p' = jobs p \<and> same_flags p p'"
proof (cases ps)
  case Nil
  with tq.first_law [OF assms] show ?thesis by (simp add: routine_section_def)
next
  case (Cons a ps')
  obtain q' where "TAILQ_REMOVE (tp_queue p) a = Some q'" "tq_inv q' ps'" "\<forall>x. tq_body q' x = jobs p x"
    using tq.unlink_law [of "tp_queue p" "[]" a ps'] assms Cons by auto
  with tq.first_law [OF assms] show ?thesis
    by (auto simp: Cons routine_section_def same_flags_def fun_eq_iff)
qed

definition new_worker :: "('d \<Rightarrow> 'r) \<Rightarrow> bool \<Rightarrow> 'd \<Rightarrow> ('d, 'r) tp_worker" where
  "new_worker f complete d =
     \<lparr>w_process = f, w_complete = complete, w_data = d, w_result = None, w_state = tp_state_idle, w_sem = 0\<rparr>"

lemma ce_tp_worker_register_ok:
  assumes "tq_inv (tp_queue p) ps" "jobs p a = None" "\<not> tp_abort p"
  shows "\<exists>p'. ce_tp_worker_register (Some p) a (Some f) complete d = Some (Some p', Broadcast, Some a) \<and>
           tq_inv (tp_queue p') (ps @ [a]) \<and> jobs p' = (jobs p)(a \<mapsto> new_worker f complete d) \<and>
           same_flags p p'"
proof -
  obtain q where "tq_append_new (tp_queue p) a (new_worker f complete d) = Some q" "tq_inv q (ps @ [a])"
    "\<forall>x. tq_body q x = (if x = a then Some (new_worker f complete d) else jobs p x)"
    using tq.append_fresh [OF assms(1,2), of "new_worker f complete d"] by blast
  with assms(3) show ?thesis
    by (auto simp: ce_tp_worker_register_def tq_append_new_def new_worker_def same_flags_def fun_eq_iff)
qed

lemma drain_ok:
  assumes "tq_inv q ps"
  shows "\<exists>q'. drain q = Some q' \<and> tq_inv q' [] \<and>
           (\<forall>a. tq_body q' a = (if a \<in> set ps then None else tq_body q a))"
  using assms
proof (induction ps arbitrary: q)
  case Nil
  then show ?case using tq.first_law [OF Nil] by (subst drain.simps) simp
next
  case (Cons a ps)
  obtain q1 where q1: "TAILQ_REMOVE q a = Some q1" "tq_inv q1 ps" "\<forall>x. tq_body q1 x = tq_body q x"
    using tq.unlink_law [of q "[]" a ps] Cons.prems by auto
  obtain w where w: "tq_body q1 a = Some w" using tq.allocated [OF Cons.prems, of a] q1(3) by auto
  let ?w = "w\<lparr>w_sem := w_sem w + 1\<rparr>"
  obtain q2 where q2: "tq_set_body q1 a ?w = Some q2"
    "\<forall>x. tq_body q2 x = (if x = a then Some ?w else tq_body q1 x)"
    using tq_set_body_Some [OF w] by blast
  have a: "a \<notin> set ps" using tq.distinct_law [OF Cons.prems] by simp
  have "tq_inv (tq_free q2 a) ps" by (rule tq_inv_free [OF tq_inv_set_body [OF q2(1) q1(2)] a])
  from Cons.IH [OF this] obtain q' where q': "drain (tq_free q2 a) = Some q'" "tq_inv q' []"
    "\<forall>x. tq_body q' x = (if x \<in> set ps then None else tq_body (tq_free q2 a) x)" by blast
  have "drain q = Some q'"
    using tq.first_law [OF Cons.prems] q1(1) w q2(1) q'(1) by (subst drain.simps) simp
  with q' q1(3) q2(2) show ?case by (intro exI [of _ q']) auto
qed

section \<open>Runs\<close>

fun registered :: "('d, 'r) tp_event list \<Rightarrow> ('d, 'r) job list" where
  "registered [] = []"
| "registered (Register j # es) = j # registered es"
| "registered (_ # es) = registered es"

fun taken :: "('d, 'r) tp_event list \<Rightarrow> (nat \<times> ('d, 'r) job) list" where
  "taken [] = []"
| "taken (Take t j # es) = (t, j) # taken es"
| "taken (_ # es) = taken es"

fun processed :: "('d, 'r) tp_event list \<Rightarrow> (nat \<times> ('d, 'r) job) list" where
  "processed [] = []"
| "processed (Process t j r # es) = (t, j) # processed es"
| "processed (_ # es) = processed es"

lemma logs_append [simp]:
  "registered (es @ fs) = registered es @ registered fs"
  "taken (es @ fs) = taken es @ taken fs"
  "processed (es @ fs) = processed es @ processed fs"
proof -
  show "registered (es @ fs) = registered es @ registered fs"
    by (induction es rule: registered.induct) simp_all
  show "taken (es @ fs) = taken es @ taken fs" by (induction es rule: taken.induct) simp_all
  show "processed (es @ fs) = processed es @ processed fs"
    by (induction es rule: processed.induct) simp_all
qed

text \<open>What thread \<open>t\<close> did, in order.\<close>

definition by_thread :: "nat \<Rightarrow> (nat \<times> 'a) list \<Rightarrow> 'a list" where
  "by_thread t xs = map snd (filter (\<lambda>x. fst x = t) xs)"

lemma by_thread_simps [simp]:
  "by_thread t [] = []" "by_thread t ((u, x) # xs) = (if u = t then x # by_thread t xs else by_thread t xs)"
  "by_thread t (xs @ ys) = by_thread t xs @ by_thread t ys"
  by (simp_all add: by_thread_def)

fun result_ok :: "('d, 'r) tp_event \<Rightarrow> bool" where
  "result_ok (Process t j r) = (r = fst j (snd j))"
| "result_ok (Complete t j r) = (r = fst j (snd j))"
| "result_ok _ = True"

definition job_at :: "(nat \<Rightarrow> ('d, 'r) tp_worker option) \<Rightarrow> nat \<Rightarrow> ('d, 'r) job" where
  "job_at B a = w_job (the (B a))"

fun unprocessed :: "(nat \<Rightarrow> ('d, 'r) tp_worker option) \<Rightarrow> tp_pc \<Rightarrow> ('d, 'r) job list" where
  "unprocessed B (Taken a) = [job_at B a]"
| "unprocessed B (Busy a) = [job_at B a]"
| "unprocessed B _ = []"

text \<open>The books of a run: what was registered, taken and processed, against the jobs there are.\<close>

definition tp_logs ::
  "(nat \<Rightarrow> ('d, 'r) tp_worker option) \<Rightarrow> nat list \<Rightarrow> (nat \<Rightarrow> tp_pc) \<Rightarrow> ('d, 'r) tp_event list \<Rightarrow> bool" where
  "tp_logs B ps pcs es \<longleftrightarrow>
     registered es = map snd (taken es) @ map (job_at B) ps \<and>
     (\<forall>t. by_thread t (taken es) = by_thread t (processed es) @ unprocessed B (pcs t)) \<and>
     list_all result_ok es"

definition tp_ok :: "('d, 'r) tp_sys \<Rightarrow> nat list \<Rightarrow> ('d, 'r) tp_event list \<Rightarrow> bool" where
  "tp_ok s ps es \<longleftrightarrow>
     tq_inv (tp_queue (ts_pool s)) ps \<and> tp_wf (jobs (ts_pool s)) ps (ts_pc s) \<and>
     tp_logs (jobs (ts_pool s)) ps (ts_pc s) es \<and>
     (tp_abort (ts_pool s) \<longrightarrow> (\<forall>t. ts_pc s t \<noteq> Waiting))"

lemma unprocessed_cong:
  "(\<And>a. pc_worker c = Some a \<Longrightarrow> job_at B' a = job_at B a) \<Longrightarrow> unprocessed B' c = unprocessed B c"
  by (cases c) simp_all

lemma tp_logs_cong:
  assumes "\<And>a. a \<in> set ps \<or> (\<exists>t. pc_worker (pcs t) = Some a) \<Longrightarrow> job_at B' a = job_at B a"
  shows "tp_logs B' ps pcs es = tp_logs B ps pcs es"
proof -
  have "map (job_at B') ps = map (job_at B) ps" using assms by simp
  moreover have "unprocessed B' (pcs t) = unprocessed B (pcs t)" for t
    using assms by (intro unprocessed_cong) blast
  ultimately show ?thesis by (simp only: tp_logs_def)
qed

text \<open>An event that is neither a registration nor a take nor a processing changes no book.\<close>

lemma tp_logs_quiet:
  assumes "tp_logs B ps pcs es" "unprocessed B c = unprocessed B (pcs t)"
    and "registered [e] = []" "taken [e] = []" "processed [e] = []" "result_ok e"
  shows "tp_logs B ps (pcs(t := c)) (es @ [e])"
  using assms by (simp add: tp_logs_def)

lemma job_at_update: "B a = Some w \<Longrightarrow> w_job w' = w_job w \<Longrightarrow> job_at (B(a \<mapsto> w')) = job_at B"
  by (auto simp: job_at_def fun_eq_iff)

lemma tp_logs_update:
  "B a = Some w \<Longrightarrow> w_job w' = w_job w \<Longrightarrow> tp_logs (B(a \<mapsto> w')) ps pcs es = tp_logs B ps pcs es"
  by (rule tp_logs_cong) (simp add: job_at_update)

lemma ts_move_simps [simp]:
  "ts_pool (ts_move s t c p) = p" "ts_pc (ts_move s t c p) = (ts_pc s)(t := c)"
  by (simp_all add: ts_move_def)

lemma tp_ok_stay:
  assumes ok: "tp_ok s ps es" and c: "pc_worker c = pc_worker (ts_pc s t)"
    "done_with c \<longrightarrow> done_with (ts_pc s t)" "unprocessed (jobs (ts_pool s)) c = unprocessed (jobs (ts_pool s)) (ts_pc s t)"
    and e: "registered [e] = []" "taken [e] = []" "processed [e] = []" "result_ok e"
    and w: "tp_abort (ts_pool s) \<longrightarrow> c \<noteq> Waiting"
  shows "tp_ok (ts_move s t c (ts_pool s)) ps (es @ [e])"
proof -
  have "tp_wf (jobs (ts_pool s)) ps ((ts_pc s)(t := c))"
    using ok c(1,2) by (intro tp_wf_move) (simp_all add: tp_ok_def)
  moreover have "tp_logs (jobs (ts_pool s)) ps ((ts_pc s)(t := c)) (es @ [e])"
    using ok c(3) e by (intro tp_logs_quiet) (simp_all add: tp_ok_def)
  ultimately show ?thesis using ok w by (simp add: tp_ok_def)
qed

lemma tp_ok_update:
  assumes ok: "tp_ok s ps es" and t: "pc_worker (ts_pc s t) = Some a" "pc_worker c = Some a"
    and w: "jobs (ts_pool s) a = Some w" "w_job (f w) = w_job w"
      "done_with c \<longrightarrow> w_result (f w) = Some (w_process (f w) (w_data (f w)))"
    and p: "update_worker (ts_pool s) a f = Some p"
    and logs: "tp_logs (jobs (ts_pool s)) ps ((ts_pc s)(t := c)) (es @ [e])"
  shows "tp_ok (ts_move s t c p) ps (es @ [e])"
proof -
  have inv: "tq_inv (tp_queue (ts_pool s)) ps" using ok by (simp add: tp_ok_def)
  have p': "tq_inv (tp_queue p) ps" "jobs p = (jobs (ts_pool s))(a \<mapsto> f w)" "tp_abort p = tp_abort (ts_pool s)"
    using update_worker_ok [OF inv w(1), of f] p by (auto simp: same_flags_def)
  have "tp_wf ((jobs (ts_pool s))(a \<mapsto> f w)) ps ((ts_pc s)(t := c))"
    using ok t w(3) by (intro tp_wf_update) (simp_all add: tp_ok_def)
  with ok p' logs t(2) show ?thesis
    by (auto simp: tp_ok_def tp_logs_update [where B = "jobs (ts_pool s)", OF w(1,2)])
qed

lemma tp_ok_take:
  assumes ok: "tp_ok s ps es" and t: "ts_pc s t = Locking"
    and sec: "routine_section (ts_pool s) = Some (p, Routine_takes a)" and w: "jobs p a = Some w"
  shows "tp_ok (ts_move s t (Taken a) p) (tl ps) (es @ [Take t (w_job w)])"
proof -
  have inv: "tq_inv (tp_queue (ts_pool s)) ps" using ok by (simp add: tp_ok_def)
  obtain ps' where ps: "ps = a # ps'" and p: "tq_inv (tp_queue p) ps'" "jobs p = jobs (ts_pool s)"
    "tp_abort p = tp_abort (ts_pool s)"
    using routine_section_ok [OF inv] sec by (auto simp: same_flags_def split: list.splits if_splits)
  have "tp_wf (jobs p) ps' ((ts_pc s)(t := Taken a))"
    using ok t tq.distinct_law [OF inv] unfolding ps p(2) by (intro tp_wf_take) (simp_all add: tp_ok_def)
  moreover have "job_at (jobs p) a = w_job w" using w by (simp add: job_at_def)
  ultimately show ?thesis using ok t p by (auto simp: tp_ok_def tp_logs_def ps)
qed

lemma tp_ok_free:
  assumes ok: "tp_ok s ps es" and t: "ts_pc s t = Called a"
    and free: "ce_tp_worker_free (ts_pool s) a = Some p"
  shows "tp_ok (ts_move s t Top p) ps (es @ [Free t a])"
proof -
  have inv: "tq_inv (tp_queue (ts_pool s)) ps" and wf: "tp_wf (jobs (ts_pool s)) ps (ts_pc s)"
    using ok by (simp_all add: tp_ok_def)
  obtain w where w: "jobs (ts_pool s) a = Some w" using tp_wf_held [OF wf, of t a] t by auto
  have held: "pc_worker (ts_pc s t) = Some a" using t by simp
  then have a: "a \<notin> set ps" using wf by (auto simp: tp_wf_def)
  have p: "tq_inv (tp_queue p) ps" "jobs p = (jobs (ts_pool s))(a := None)" "tp_abort p = tp_abort (ts_pool s)"
    using ce_tp_worker_free_ok [OF inv w] free a by (auto simp: same_flags_def remove1_idem)
  have "u = t" if "pc_worker (ts_pc s u) = Some a" for u
    using wf held that unfolding tp_wf_def by blast
  then have "pc_worker (((ts_pc s)(t := Top)) u) \<noteq> Some a" for u by auto
  then have "tp_logs (jobs p) ps ((ts_pc s)(t := Top)) (es @ [Free t a]) =
      tp_logs (jobs (ts_pool s)) ps ((ts_pc s)(t := Top)) (es @ [Free t a])"
    using a by (intro tp_logs_cong) (auto simp: p(2) job_at_def)
  moreover have "tp_logs (jobs (ts_pool s)) ps ((ts_pc s)(t := Top)) (es @ [Free t a])"
    using ok t by (intro tp_logs_quiet) (simp_all add: tp_ok_def)
  moreover have "tp_wf (jobs p) ps ((ts_pc s)(t := Top))" unfolding p(2) by (rule tp_wf_free [where pcs = "ts_pc s", OF wf t])
  ultimately show ?thesis using ok p by (simp add: tp_ok_def)
qed

lemma tp_ok_owner:
  assumes "tp_owner_step s e s'" "tp_ok s ps es"
  shows "\<exists>ps'. tp_ok s' ps' (es @ [e]) \<and> tp_nthreads (ts_pool s') = tp_nthreads (ts_pool s)"
  using assms(1)
proof cases
  case (register a f complete d p)
  have inv: "tq_inv (tp_queue (ts_pool s)) ps" and wf: "tp_wf (jobs (ts_pool s)) ps (ts_pc s)"
    using assms(2) by (simp_all add: tp_ok_def)
  have na: "\<not> tp_abort (ts_pool s)" using register(4) by (auto simp: ce_tp_worker_register_def split: if_splits)
  have p: "tq_inv (tp_queue p) (ps @ [a])" "jobs p = (jobs (ts_pool s))(a \<mapsto> new_worker f complete d)"
    "same_flags (ts_pool s) p"
    using ce_tp_worker_register_ok [OF inv register(3) na, of f complete d] register(4) by auto
  have fresh: "pc_worker (ts_pc s t) \<noteq> Some a" for t
    using tp_wf_held [OF wf, of t a] register(3) by auto
  have nps: "a \<notin> set ps" using tq.allocated [OF inv, of a] register(3) by blast
  have un: "unprocessed (jobs p) (broadcast (ts_pc s) t) = unprocessed (jobs (ts_pool s)) (ts_pc s t)" for t
    using fresh [of t] by (cases "ts_pc s t") (auto simp: broadcast_def p(2) job_at_def)
  have "map (job_at (jobs p)) (ps @ [a]) = map (job_at (jobs (ts_pool s))) ps @ [(f, d)]"
    using nps by (auto simp: p(2) job_at_def w_job_def new_worker_def)
  then have "tp_logs (jobs p) (ps @ [a]) (broadcast (ts_pc s)) (es @ [e])"
    using assms(2) by (simp add: tp_ok_def tp_logs_def un register(1))
  moreover have "tp_wf (jobs p) (ps @ [a]) (broadcast (ts_pc s))"
    unfolding p(2) by (intro tp_wf_broadcast tp_wf_append wf register(3))
  ultimately show ?thesis
    using p na by (intro exI [of _ "ps @ [a]"]) (simp add: tp_ok_def register(2) same_flags_def)
next
  case (abort kill p)
  have un: "unprocessed B (broadcast (ts_pc s) t) = unprocessed B (ts_pc s t)"
    for B :: "nat \<Rightarrow> ('a, 'b) tp_worker option" and t
    by (cases "ts_pc s t") (auto simp: broadcast_def)
  show ?thesis
    using assms(2) abort tp_wf_broadcast [of _ ps "ts_pc s"]
    by (intro exI [of _ ps]) (auto simp: tp_ok_def tp_logs_def un destroy_abort_def broadcast_def)
qed

lemma tp_ok_updates:
  assumes ok: "tp_ok s ps es" and t: "pc_worker (ts_pc s t) = Some a"
  shows "\<exists>w. jobs (ts_pool s) a = Some w \<and>
    (\<forall>f. \<exists>p. update_worker (ts_pool s) a f = Some p \<and> jobs p = (jobs (ts_pool s))(a \<mapsto> f w) \<and>
       same_flags (ts_pool s) p)"
proof -
  obtain w where w: "jobs (ts_pool s) a = Some w"
    using tp_wf_held [of "jobs (ts_pool s)" ps "ts_pc s" t a] ok t by (auto simp: tp_ok_def)
  have "tq_inv (tp_queue (ts_pool s)) ps" using ok by (simp add: tp_ok_def)
  with w update_worker_ok [OF this w] show ?thesis by blast
qed

text \<open>A step of a thread that leaves the pool alone, one that writes to its job, and the job it holds.\<close>

lemma thread_stays:
  assumes "tp_ok s ps es" "e = Silent \<or> (\<exists>j r. e = Complete t j r \<and> r = fst j (snd j))"
    "s' = ts_move s t c (ts_pool s)" "pc_worker c = pc_worker (ts_pc s t)" "done_with c \<longrightarrow> done_with (ts_pc s t)"
    "unprocessed (jobs (ts_pool s)) c = unprocessed (jobs (ts_pool s)) (ts_pc s t)"
    "tp_abort (ts_pool s) \<longrightarrow> c \<noteq> Waiting"
  shows "\<exists>ps'. tp_ok s' ps' (es @ [e]) \<and> tp_nthreads (ts_pool s') = tp_nthreads (ts_pool s)"
  using tp_ok_stay [OF assms(1,4-6), of e] assms(2,3,7) by (intro exI [of _ ps]) auto

lemma thread_updates:
  assumes ok: "tp_ok s ps es" and "update_worker (ts_pool s) a f = Some p" "s' = ts_move s t c p"
    "pc_worker (ts_pc s t) = Some a" "pc_worker c = Some a" "jobs (ts_pool s) a = Some w" "w_job (f w) = w_job w"
    "done_with c \<longrightarrow> w_result (f w) = Some (w_process (f w) (w_data (f w)))"
    "tp_logs (jobs (ts_pool s)) ps ((ts_pc s)(t := c)) (es @ [e])"
  shows "\<exists>ps'. tp_ok s' ps' (es @ [e]) \<and> tp_nthreads (ts_pool s') = tp_nthreads (ts_pool s)"
proof -
  have "tq_inv (tp_queue (ts_pool s)) ps" using ok by (simp add: tp_ok_def)
  then show ?thesis
    using tp_ok_update [OF ok assms(4,5,6,7,8,2,9)] update_worker_ok [OF _ assms(6), of ps f] assms(2,3)
    by (intro exI [of _ ps]) (auto simp: same_flags_def)
qed

lemma thread_holds:
  assumes "tp_ok s ps es" "pc_worker (ts_pc s t) = Some a"
  obtains w where "jobs (ts_pool s) a = Some w"
    "done_with (ts_pc s t) \<Longrightarrow> w_result w = Some (w_process w (w_data w))"
  using assms tp_wf_result [of "jobs (ts_pool s)" ps "ts_pc s" t a] by (auto simp: tp_ok_def)

lemma tp_ok_thread:
  assumes step: "tp_thread_step t s e s'" and ok: "tp_ok s ps es"
  shows "\<exists>ps'. tp_ok s' ps' (es @ [e]) \<and> tp_nthreads (ts_pool s') = tp_nthreads (ts_pool s)"
proof -
  have inv: "tq_inv (tp_queue (ts_pool s)) ps" and logs: "tp_logs (jobs (ts_pool s)) ps (ts_pc s) es"
    using ok by (simp_all add: tp_ok_def)
  note stay = thread_stays [where t = t, OF ok] and update = thread_updates [where t = t, OF ok]
    and holds = thread_holds [where t = t, OF ok]
  show ?thesis
    using step
  proof cases
    case (section_exits p)
    then have "p = ts_pool s" using routine_section_ok [OF inv] by (auto split: list.splits)
    with section_exits show ?thesis by (intro stay [of _ _ Exited]) simp_all
  next
    case (section_waits p)
    then have "p = ts_pool s" "\<not> tp_abort (ts_pool s)"
      using routine_section_ok [OF inv] by (auto split: list.splits if_splits)
    with section_waits show ?thesis by (intro stay [of _ _ Waiting]) simp_all
  next
    case (section_takes p a w)
    from tp_ok_take [OF ok section_takes(3,4,5)] routine_section_ok [OF inv] section_takes(1,2,4)
    show ?thesis by (auto simp: same_flags_def split: list.splits if_splits)
  next
    case (busy a p)
    obtain w where w: "jobs (ts_pool s) a = Some w" using holds [of a] busy(3) by auto
    have "tp_logs (jobs (ts_pool s)) ps ((ts_pc s)(t := Busy a)) (es @ [e])"
      by (rule tp_logs_quiet [OF logs]) (simp_all add: busy)
    with busy w show ?thesis
      by (intro update [of a "\<lambda>w. w\<lparr>w_state := tp_state_busy\<rparr>" p _ "Busy a" w])
        (simp_all add: routine_busy_def w_job_def)
  next
    case (process a p w r)
    obtain v where v: "jobs (ts_pool s) a = Some v" using holds [of a] process(3) by auto
    have "jobs p a = Some (v\<lparr>w_result := Some (w_process v (w_data v)), w_state := tp_state_complete\<rparr>)"
      using process(4) update_worker_ok [OF inv v, of
          "\<lambda>w. w\<lparr>w_result := Some (w_process w (w_data w)), w_state := tp_state_complete\<rparr>"]
      by (auto simp: routine_process_def)
    then have w: "w_job w = w_job v" "r = fst (w_job v) (snd (w_job v))"
      using process(5,6) by (auto simp: w_job_def)
    have "tp_logs (jobs (ts_pool s)) ps ((ts_pc s)(t := Processed a)) (es @ [e])"
      using logs process(3) by (simp add: tp_logs_def process(1) w job_at_def v)
    with process v show ?thesis
      by (intro update [of a "\<lambda>w. w\<lparr>w_result := Some (w_process w (w_data w)), w_state := tp_state_complete\<rparr>" p
            _ "Processed a" v])
        (simp_all add: routine_process_def w_job_def)
  next
    case (post a p)
    obtain w where w: "jobs (ts_pool s) a = Some w" "w_result w = Some (w_process w (w_data w))"
      using holds [of a] post(3) by auto
    have "tp_logs (jobs (ts_pool s)) ps ((ts_pc s)(t := Posted a)) (es @ [e])"
      by (rule tp_logs_quiet [OF logs]) (simp_all add: post)
    with post w show ?thesis
      by (intro update [of a "\<lambda>w. w\<lparr>w_sem := w_sem w + 1\<rparr>" p _ "Posted a" w])
        (simp_all add: routine_post_def w_job_def)
  next
    case (complete a w r)
    then have "r = fst (w_job w) (snd (w_job w))" using holds [of a] by (auto simp: w_job_def)
    with complete show ?thesis by (intro stay [of _ _ "Called a"]) simp_all
  next
    case (free a p)
    obtain w where w: "jobs (ts_pool s) a = Some w" using holds [of a] free(3) by auto
    from tp_ok_free [OF ok free(3,4)] ce_tp_worker_free_ok [OF inv w] free(1,2,4) show ?thesis
      by (auto simp: same_flags_def)
  next
    case leave
    then show ?thesis by (intro stay [of _ _ Exited]) simp_all
  next
    case lock
    then show ?thesis by (intro stay [of _ _ Locking]) simp_all
  next
    case spurious
    then show ?thesis by (intro stay [of _ _ Locking]) simp_all
  next
    case (no_complete a w)
    then show ?thesis by (intro stay [of _ _ "Called a"]) simp_all
  qed
qed

lemma tp_new_empty: "tq_inv (tp_queue (tp_new n)) []" "jobs (tp_new n) a = None"
  by (simp_all add: tp_new_def TAILQ_INIT_ok) (simp add: TAILQ_INIT_def tq_body_def)

lemma tp_start_ok: "tp_ok (tp_start n) [] []"
  by (simp add: tp_ok_def tp_start_def tp_new_empty tp_wf_def tp_logs_def)

lemma tp_run_ok: "tp_run (tp_start n) es s \<Longrightarrow> \<exists>ps. tp_ok s ps es \<and> tp_nthreads (ts_pool s) = n"
proof (induction rule: tp_run.induct)
  case run_nil
  show ?case using tp_start_ok [of n] by (auto simp: tp_start_def tp_new_def)
next
  case (run_thread es s t e s')
  then show ?case using tp_ok_thread [OF run_thread.hyps(3)] by metis
next
  case (run_owner es s e s')
  then show ?case using tp_ok_owner [OF run_owner.hyps(2)] by metis
qed

section \<open>Progress\<close>

text \<open>A thread with a job goes through its phases; an exited thread is the only one without a step.\<close>

fun next_phase :: "tp_pc \<Rightarrow> tp_pc" where
  "next_phase (Taken a) = Busy a"
| "next_phase (Busy a) = Processed a"
| "next_phase (Processed a) = Posted a"
| "next_phase (Posted a) = Called a"
| "next_phase (Called a) = Top"
| "next_phase c = c"

lemma worker_progress:
  assumes ok: "tp_ok s ps es" and t: "pc_worker (ts_pc s t) = Some a"
  shows "\<exists>e s'. tp_thread_step t s e s' \<and> ts_pc s' t = next_phase (ts_pc s t) \<and>
           tp_nthreads (ts_pool s') = tp_nthreads (ts_pool s)"
proof -
  obtain w where w: "jobs (ts_pool s) a = Some w"
    and upd: "\<forall>f. \<exists>p. update_worker (ts_pool s) a f = Some p \<and> jobs p = (jobs (ts_pool s))(a \<mapsto> f w) \<and>
       same_flags (ts_pool s) p" using tp_ok_updates [OF ok t] by blast
  have inv: "tq_inv (tp_queue (ts_pool s)) ps" and wf: "tp_wf (jobs (ts_pool s)) ps (ts_pc s)"
    using ok by (simp_all add: tp_ok_def)
  have res: "done_with (ts_pc s t) \<Longrightarrow> w_result w = Some (w_process w (w_data w))"
    using tp_wf_result [OF wf t] w by auto
  have ex: ?thesis if "\<exists>e. tp_thread_step t s e (ts_move s t (next_phase (ts_pc s t)) p)" "same_flags (ts_pool s) p" for p
    using that by (auto simp: same_flags_def intro!: exI [of _ "ts_move s t (next_phase (ts_pc s t)) p"])
  show ?thesis
  proof (cases "ts_pc s t")
    case (Taken b)
    then have b: "b = a" using t by simp
    obtain p where p: "routine_busy (ts_pool s) a = Some p" "same_flags (ts_pool s) p"
      using upd unfolding routine_busy_def by blast
    with tp_thread_step.busy [OF _ p(1)] Taken b show ?thesis by (intro ex [of p]) auto
  next
    case (Busy b)
    then have b: "b = a" using t by simp
    let ?f = "\<lambda>w. w\<lparr>w_result := Some (w_process w (w_data w)), w_state := tp_state_complete\<rparr>"
    obtain p where p: "update_worker (ts_pool s) a ?f = Some p" "jobs p = (jobs (ts_pool s))(a \<mapsto> ?f w)"
      "same_flags (ts_pool s) p" using upd by blast
    then have "tp_thread_step t s (Process t (w_job (?f w)) (w_process w (w_data w))) (ts_move s t (Processed a) p)"
      using Busy b by (intro tp_thread_step.process) (simp_all add: routine_process_def)
    with p(3) show ?thesis using Busy b by (intro ex [of p]) auto
  next
    case (Processed b)
    then have b: "b = a" using t by simp
    obtain p where p: "routine_post (ts_pool s) a = Some p" "same_flags (ts_pool s) p"
      using upd unfolding routine_post_def by blast
    with tp_thread_step.post [OF _ p(1)] Processed b show ?thesis by (intro ex [of p]) auto
  next
    case (Posted b)
    then have b: "b = a" using t by simp
    have "\<exists>e. tp_thread_step t s e (ts_move s t (Called a) (ts_pool s))"
      using tp_thread_step.complete [OF _ w] tp_thread_step.no_complete [OF _ w] Posted b res by fastforce
    then show ?thesis using Posted b by (intro ex [of "ts_pool s"]) (simp_all add: same_flags_def)
  next
    case (Called b)
    then have b: "b = a" using t by simp
    obtain p where p: "ce_tp_worker_free (ts_pool s) a = Some p" "same_flags (ts_pool s) p"
      using ce_tp_worker_free_ok [OF inv w] by blast
    with tp_thread_step.free [OF _ p(1)] Called b show ?thesis by (intro ex [of p]) auto
  qed (use t in simp_all)
qed

lemma thread_progress:
  assumes ok: "tp_ok s ps es" and t: "ts_pc s t \<noteq> Exited"
  shows "\<exists>e s'. tp_thread_step t s e s'"
proof (cases "pc_worker (ts_pc s t)")
  case (Some a)
  from worker_progress [OF ok this] show ?thesis by blast
next
  case None
  have inv: "tq_inv (tp_queue (ts_pool s)) ps" and wf: "tp_wf (jobs (ts_pool s)) ps (ts_pc s)"
    using ok by (simp_all add: tp_ok_def)
  have locked: ?thesis if "ts_pc s t = Locking"
  proof (cases ps)
    case Nil
    with that routine_section_ok [OF inv] show ?thesis
      using tp_thread_step.section_exits tp_thread_step.section_waits
      by (cases "tp_abort (ts_pool s)") fastforce+
  next
    case (Cons a ps')
    obtain p where p: "routine_section (ts_pool s) = Some (p, Routine_takes a)" "jobs p = jobs (ts_pool s)"
      using routine_section_ok [OF inv] by (auto simp: Cons)
    moreover obtain w where "jobs (ts_pool s) a = Some w"
      using tq.allocated [OF inv, of a] by (auto simp: Cons)
    ultimately show ?thesis using tp_thread_step.section_takes [OF that p(1)] by fastforce
  qed
  from None t locked show ?thesis
    by (cases "ts_pc s t"; cases "tp_abort (ts_pool s)")
      (auto intro: tp_thread_step.leave tp_thread_step.lock tp_thread_step.spurious)
qed

text \<open>After \<open>abort\<close> every step of a thread brings it nearer to its end.\<close>

fun rank :: "tp_pc \<Rightarrow> nat" where
  "rank Exited = 0" | "rank Top = 1" | "rank (Called a) = 2" | "rank (Posted a) = 3"
| "rank (Processed a) = 4" | "rank (Busy a) = 5" | "rank (Taken a) = 6" | "rank Locking = 7" | "rank Waiting = 8"

lemma abort_rank:
  assumes "tp_thread_step t s e s'" "tp_ok s ps es" "tp_abort (ts_pool s)"
  shows "rank (ts_pc s' t) < rank (ts_pc s t) \<and> (\<forall>u. u \<noteq> t \<longrightarrow> ts_pc s' u = ts_pc s u)"
proof -
  have inv: "tq_inv (tp_queue (ts_pool s)) ps" and nw: "ts_pc s t \<noteq> Waiting"
    using assms(2,3) by (simp_all add: tp_ok_def)
  show ?thesis
    using assms(1,3) nw routine_section_ok [OF inv]
    by (cases rule: tp_thread_step.cases) (auto split: list.splits)
qed

text \<open>Steps of the pool's own threads only, as while \<open>ce_tp_destroy\<close> joins them.\<close>

inductive thread_run :: "int \<Rightarrow> ('d, 'r) tp_sys \<Rightarrow> ('d, 'r) tp_event list \<Rightarrow> ('d, 'r) tp_sys \<Rightarrow> bool"
  for n s0 where
  thread_nil: "thread_run n s0 [] s0"
| thread_step: "thread_run n s0 es s \<Longrightarrow> int t < n \<Longrightarrow> tp_thread_step t s e s' \<Longrightarrow> thread_run n s0 (es @ [e]) s'"

definition ranks :: "int \<Rightarrow> ('d, 'r) tp_sys \<Rightarrow> nat" where
  "ranks n s = (\<Sum>t \<in> {t. int t < n}. rank (ts_pc s t))"

lemma finite_threads: "finite {t. int t < n}"
  by (rule finite_subset [of _ "{..<nat n}"]) auto

lemma ranks_less:
  assumes "rank (ts_pc s' t) < rank (ts_pc s t)" "\<forall>u. u \<noteq> t \<longrightarrow> ts_pc s' u = ts_pc s u" "int t < n"
  shows "ranks n s' < ranks n s"
  unfolding ranks_def using assms by (intro sum_strict_mono_ex1 [OF finite_threads]) (auto simp: le_less)

lemma rank_bound: "rank c \<le> 8"
  by (cases c) simp_all

lemma ranks_bound: "ranks n s \<le> 8 * nat n"
proof -
  have eq: "{t. int t < n} = {..<nat n}" by auto
  have "ranks n s \<le> (\<Sum>t \<in> {t. int t < n}. 8)" unfolding ranks_def by (rule sum_mono) (rule rank_bound)
  then show ?thesis by (simp add: eq)
qed

lemma abort_stays: "tp_thread_step t s e s' \<Longrightarrow> tp_ok s ps es \<Longrightarrow> tp_abort (ts_pool s') = tp_abort (ts_pool s)"
proof -
  assume ok: "tp_ok s ps es"
  then have inv: "tq_inv (tp_queue (ts_pool s)) ps" by (simp add: tp_ok_def)
  have upd: "tp_abort p = tp_abort (ts_pool s)" if "update_worker (ts_pool s) a f = Some p" for a f p
    using that by (auto simp: update_worker_def)
  have free: "tp_abort p = tp_abort (ts_pool s)" if "ce_tp_worker_free (ts_pool s) a = Some p" for a p
    using that by (auto simp: ce_tp_worker_free_def)
  assume "tp_thread_step t s e s'"
  then show ?thesis
    using routine_section_ok [OF inv]
    by (cases rule: tp_thread_step.cases)
      (auto simp: same_flags_def routine_busy_def routine_process_def routine_post_def
        dest!: upd free split: list.splits)
qed

lemma thread_run_ok:
  "thread_run n s fs s' \<Longrightarrow> tp_ok s ps es \<Longrightarrow> tp_abort (ts_pool s) \<Longrightarrow>
     \<exists>ps'. tp_ok s' ps' (es @ fs) \<and> tp_abort (ts_pool s') \<and> length fs + ranks n s' \<le> ranks n s"
proof (induction rule: thread_run.induct)
  case (thread_step fs s1 t e s2)
  obtain ps1 where ps1: "tp_ok s1 ps1 (es @ fs)" "tp_abort (ts_pool s1)" "length fs + ranks n s1 \<le> ranks n s"
    using thread_step.IH [OF thread_step.prems] by blast
  have "ranks n s2 < ranks n s1"
    using abort_rank [OF thread_step.hyps(3) ps1(1,2)] ranks_less [OF _ _ thread_step.hyps(2)] by blast
  moreover obtain ps2 where "tp_ok s2 ps2 ((es @ fs) @ [e])"
    using tp_ok_thread [OF thread_step.hyps(3) ps1(1)] by blast
  ultimately show ?case
    using ps1 abort_stays [OF thread_step.hyps(3) ps1(1)] by (intro exI [of _ ps2]) simp
qed auto

text \<open>Threads the pool does not have stay at the start and hold no job.\<close>

lemma other_threads: "tp_thread_step t s e s' \<Longrightarrow> u \<noteq> t \<Longrightarrow> ts_pc s' u = ts_pc s u"
  by (cases rule: tp_thread_step.cases) auto

lemma tp_run_others:
  assumes "tp_run (tp_start n) es s" "\<not> int u < n"
  shows "ts_pc s u = Top"
  using assms(1)
proof (induction rule: tp_run.induct)
  case (run_thread es s t e s')
  then have "u \<noteq> t" using assms(2) tp_run_ok [OF run_thread.hyps(1)] by auto
  with run_thread show ?case by (simp add: other_threads)
next
  case (run_owner es s e s')
  then show ?case by (auto simp: broadcast_def elim!: tp_owner_step.cases)
qed (simp add: tp_start_def)

lemma thread_run_others:
  "thread_run n s fs s' \<Longrightarrow> \<not> int u < n \<Longrightarrow> ts_pc s' u = ts_pc s u"
proof (induction rule: thread_run.induct)
  case (thread_step fs s1 t e s2)
  then have "u \<noteq> t" by auto
  with thread_step show ?case by (simp add: other_threads)
qed simp

section \<open>Properties\<close>

text \<open>
  C9: \<open>ce_tp_create\<close> returns exactly for at most one thread. For two or more the loop waits, after the
  first \<open>pthread_create\<close>, until all the threads have counted themselves, which those not yet created
  never do: no interleaving reaches its end.
\<close>

theorem ce_tp_create_returns_iff:
  "(\<exists>s. (create_step n)\<^sup>*\<^sup>* create_start s \<and> create_returns n s) \<longleftrightarrow> n \<le> 1"
proof
  assume "\<exists>s. (create_step n)\<^sup>*\<^sup>* create_start s \<and> create_returns n s"
  then obtain s where s: "(create_step n)\<^sup>*\<^sup>* create_start s" "create_returns n s" by blast
  show "n \<le> 1"
  proof (rule ccontr)
    assume "\<not> n \<le> 1"
    then have "2 \<le> n" by simp
    moreover have "create_stuck create_start" by (simp add: create_stuck_def create_start_def)
    ultimately have "create_stuck s" using create_steps_stuck [OF s(1)] by blast
    with s(2) \<open>2 \<le> n\<close> show False by (auto simp: create_stuck_def create_returns_def)
  qed
next
  assume "n \<le> 1"
  then consider "n = 1" | "n \<le> 0" by linarith
  then show "\<exists>s. (create_step n)\<^sup>*\<^sup>* create_start s \<and> create_returns n s"
  proof cases
    case 2
    then have "create_returns n create_start" by (simp add: create_returns_def create_start_def)
    then show ?thesis by blast
  qed (use create_one in simp)
qed


text \<open>
  C31: once \<open>abort\<close> is set, \<open>ce_tp_destroy\<close> gets through its joins: no thread waits any more, the threads
  together take at most eight steps each, and when none has a step left all of them have ended. What is
  then still queued is freed by the last loop and nothing is left allocated.
\<close>

theorem ce_tp_destroy_terminates:
  assumes "tp_run (tp_start n) es s" "tp_abort (ts_pool s)" "thread_run n s fs s'"
  shows "length fs \<le> 8 * nat n \<and>
         ((\<forall>t e s2. int t < n \<longrightarrow> \<not> tp_thread_step t s' e s2) \<longrightarrow>
            (\<forall>t. int t < n \<longrightarrow> ts_pc s' t = Exited) \<and>
            (\<exists>q. drain (tp_queue (ts_pool s')) = Some q \<and> (\<forall>a. tq_body q a = None)))"
proof -
  obtain ps where ok: "tp_ok s ps es" using tp_run_ok [OF assms(1)] by blast
  obtain ps' where ok': "tp_ok s' ps' (es @ fs)" and len: "length fs + ranks n s' \<le> ranks n s"
    using thread_run_ok [OF assms(3) ok assms(2)] by blast
  have inv: "tq_inv (tp_queue (ts_pool s')) ps'" and wf: "tp_wf (jobs (ts_pool s')) ps' (ts_pc s')"
    using ok' by (simp_all add: tp_ok_def)
  have fin: "(\<forall>t. int t < n \<longrightarrow> ts_pc s' t = Exited) \<and>
      (\<exists>q. drain (tp_queue (ts_pool s')) = Some q \<and> (\<forall>a. tq_body q a = None))"
    if stuck: "\<forall>t e s2. int t < n \<longrightarrow> \<not> tp_thread_step t s' e s2"
  proof -
    have ex: "\<forall>t. int t < n \<longrightarrow> ts_pc s' t = Exited" using stuck thread_progress [OF ok'] by blast
    have "pc_worker (ts_pc s' t) = None" for t
      using ex thread_run_others [OF assms(3)] tp_run_others [OF assms(1)] by (cases "int t < n") simp_all
    then have "jobs (ts_pool s') a \<noteq> None \<longleftrightarrow> a \<in> set ps'" for a using wf by (simp add: tp_wf_def)
    with drain_ok [OF inv] ex show ?thesis by (metis option.exhaust)
  qed
  show ?thesis using len ranks_bound [of n s] fin by auto
qed


section \<open>A pool at work\<close>

text \<open>One thread and one job, as far as the phase before the job is freed.\<close>

lemma pool_registers:
  "\<exists>s. tp_run (tp_start 1) [Register (Suc, 3)] s \<and> ts_pc s = (\<lambda>_. Top) \<and> \<not> tp_abort (ts_pool s)"
proof -
  have "tq_inv (tp_queue ((tp_new 1)\<lparr>tp_routines := 1\<rparr>)) []" "jobs ((tp_new 1)\<lparr>tp_routines := 1\<rparr>) 5 = None"
    "\<not> tp_abort ((tp_new 1)\<lparr>tp_routines := 1\<rparr>)"
    by (simp_all add: tp_new_empty) (simp add: tp_new_def)
  from ce_tp_worker_register_ok [OF this, of Suc False 3] obtain p where
    p: "ce_tp_worker_register (Some ((tp_new 1)\<lparr>tp_routines := 1\<rparr>)) 5 (Some Suc) False 3 =
      Some (Some p, Broadcast, Some 5)" "same_flags ((tp_new 1)\<lparr>tp_routines := 1\<rparr>) p" by blast
  let ?s = "\<lparr>ts_pool = p, ts_pc = broadcast (\<lambda>_. Top)\<rparr>"
  have "tp_owner_step (tp_start 1) (Register (Suc, 3)) ?s"
    using tp_owner_step.register [of "tp_start 1" 5 Suc False 3 p] p(1) by (simp add: tp_start_def tp_new_empty)
  from tp_run.run_owner [OF tp_run.run_nil this] p(2) show ?thesis
    by (intro exI [of _ ?s]) (simp add: broadcast_def same_flags_def tp_new_def)
qed

lemma run_phase:
  fixes s :: "('d, 'r) tp_sys"
  assumes "tp_run (tp_start n) es s" "int t < n" "pc_worker (ts_pc s t) = Some a"
  shows "\<exists>es' (s' :: ('d, 'r) tp_sys). tp_run (tp_start n) es' s' \<and> ts_pc s' t = next_phase (ts_pc s t)"
proof -
  obtain ps where ok: "tp_ok s ps es" "tp_nthreads (ts_pool s) = n" using tp_run_ok [OF assms(1)] by blast
  obtain e s' where "tp_thread_step t s e s'" "ts_pc s' t = next_phase (ts_pc s t)"
    using worker_progress [OF ok(1) assms(3)] by blast
  with tp_run.run_thread [OF assms(1) _ this(1)] ok(2) assms(2) show ?thesis by auto
qed

lemma pool_takes: "\<exists>es (s :: (nat, nat) tp_sys) a. tp_run (tp_start 1) es s \<and> ts_pc s 0 = Taken a"
proof -
  obtain s where s: "tp_run (tp_start 1) [Register (Suc, 3)] s" "ts_pc s = (\<lambda>_. Top)" "\<not> tp_abort (ts_pool s)"
    using pool_registers by blast
  obtain ps where ok: "tp_ok s ps [Register (Suc, 3)]" "tp_nthreads (ts_pool s) = 1"
    using tp_run_ok [OF s(1)] by blast
  have "tp_thread_step 0 s Silent (ts_move s 0 Locking (ts_pool s))"
    using s(2,3) by (intro tp_thread_step.lock) simp_all
  from tp_run.run_thread [OF s(1) _ this] ok(2) have
    r: "tp_run (tp_start 1) [Register (Suc, 3), Silent] (ts_move s 0 Locking (ts_pool s))" by simp
  have inv: "tq_inv (tp_queue (ts_pool s)) ps" and "map (job_at (jobs (ts_pool s))) ps = [(Suc, 3)]"
    using ok(1) by (simp_all add: tp_ok_def tp_logs_def)
  then obtain a where ps: "ps = [a]" by auto
  obtain p where p: "routine_section (ts_pool s) = Some (p, Routine_takes a)" "jobs p = jobs (ts_pool s)"
    using routine_section_ok [OF inv] by (auto simp: ps)
  obtain w where w: "jobs p a = Some w" using tq.allocated [OF inv, of a] p(2) by (auto simp: ps)
  let ?s = "ts_move s 0 Locking (ts_pool s)"
  have "tp_thread_step 0 ?s (Take 0 (w_job w)) (ts_move ?s 0 (Taken a) p)"
    using p(1) w by (intro tp_thread_step.section_takes) simp_all
  from tp_run.run_thread [OF r _ this] ok(2) show ?thesis
    by (intro exI [of _ "[Register (Suc, 3), Silent] @ [Take 0 (w_job w)]"]
        exI [of _ "ts_move ?s 0 (Taken a) p"] exI [of _ a]) simp
qed

lemma pool_calls: "\<exists>es (s :: (nat, nat) tp_sys) a. tp_run (tp_start 1) es s \<and> ts_pc s 0 = Called a"
proof -
  obtain es1 and s1 :: "(nat, nat) tp_sys" and a where 1: "tp_run (tp_start 1) es1 s1" "ts_pc s1 0 = Taken a"
    using pool_takes by blast
  obtain es2 and s2 :: "(nat, nat) tp_sys" where 2: "tp_run (tp_start 1) es2 s2" "ts_pc s2 0 = Busy a"
    using run_phase [OF 1(1), of 0 a] 1(2) by auto
  obtain es3 and s3 :: "(nat, nat) tp_sys" where 3: "tp_run (tp_start 1) es3 s3" "ts_pc s3 0 = Processed a"
    using run_phase [OF 2(1), of 0 a] 2(2) by auto
  obtain es4 and s4 :: "(nat, nat) tp_sys" where 4: "tp_run (tp_start 1) es4 s4" "ts_pc s4 0 = Posted a"
    using run_phase [OF 3(1), of 0 a] 3(2) by auto
  show ?thesis using run_phase [OF 4(1), of 0 a] 4(2) by auto
qed



theorem ce_tp_destroy_terminates_witness:
  "\<exists>s :: (nat, nat) tp_sys. tp_abort (ts_pool s) \<and> length ([] :: (nat, nat) tp_event list) \<le> 8 * nat 1 \<and>
     ((\<forall>t e s2. int t < 1 \<longrightarrow> \<not> tp_thread_step t s e s2) \<longrightarrow>
        (\<forall>t. int t < 1 \<longrightarrow> ts_pc s t = Exited) \<and>
        (\<exists>q. drain (tp_queue (ts_pool s)) = Some q \<and> (\<forall>a. tq_body q a = None)))"
proof -
  obtain s where s: "tp_run (tp_start 1) [Register (Suc, 3)] s" "\<not> tp_abort (ts_pool s)"
    using pool_registers by blast
  let ?s = "\<lparr>ts_pool = (ts_pool s)\<lparr>tp_abort := True\<rparr>, ts_pc = broadcast (ts_pc s)\<rparr>"
  have "tp_owner_step s Abort ?s"
    using tp_owner_step.abort [of s tp_kill_immediate] s(2) by (simp add: destroy_may_abort_def destroy_abort_def)
  from tp_run.run_owner [OF s(1) this]
  have r: "tp_run (tp_start 1) ([Register (Suc, 3)] @ [Abort]) ?s" .
  have a: "tp_abort (ts_pool ?s)" by simp
  from ce_tp_destroy_terminates [OF r a thread_run.thread_nil] a show ?thesis by blast
qed

end
