(* ===== verification/Byte_Order.thy ===== *)
theory Byte_Order
  imports Prelude
begin

text \<open>
  The byte-swapping macros of \<^verbatim>\<open>util/htonll.h\<close> and the bytes of integers in memory. The property is that the macros
  turn the order of the bytes around, and that \<open>htonll\<close> therefore gives network order on either kind of host.
\<close>

unbundle bit_operations_syntax

section \<open>Integers in memory\<close>

text \<open>The bytes of an integer in memory, the low byte first, and the integer they stand for.\<close>

definition le_bytes :: "nat \<Rightarrow> int \<Rightarrow> u8 list" where
  "le_bytes n x = map (\<lambda>i. word_of_int (x div 256 ^ i)) [0..<n]"

fun le_value :: "u8 list \<Rightarrow> nat" where
  "le_value [] = 0"
| "le_value (b # bs) = unat b + 256 * le_value bs"

lemma length_le_bytes [simp]: "length (le_bytes n x) = n"
  by (simp add: le_bytes_def)

lemma le_bytes_Suc: "le_bytes (Suc n) x = word_of_int x # le_bytes n (x div 256)"
  by (simp add: le_bytes_def upt_conv_Cons map_Suc_upt [symmetric] zdiv_zmult2_eq comp_def del: upt_Suc map_Suc_upt)

lemma le_value_le_bytes: "le_value (le_bytes n (int x)) = x mod 256 ^ n"
proof (induction n arbitrary: x)
  case 0
  then show ?case by (simp add: le_bytes_def)
next
  case (Suc n)
  have "unat (word_of_nat x :: u8) = x mod 256"
    by (simp only: unsigned_of_nat take_bit_eq_mod) simp
  then have u: "unat (word_of_int (int x) :: u8) = x mod 256" by (simp only: of_int_of_nat_eq)
  have d: "int x div 256 = int (x div 256)" by (simp add: zdiv_int)
  show ?case
    by (simp only: le_bytes_Suc le_value.simps u d Suc mod_mult2_eq power_Suc)
qed

section \<open>The macros\<close>

definition bswap_16 :: "u16 \<Rightarrow> u16" where
  "bswap_16 x = push_bit 8 (x AND 0x00ff) OR drop_bit 8 (x AND 0xff00)"

definition bswap_32 :: "u32 \<Rightarrow> u32" where
  "bswap_32 x =
     push_bit 24 (x AND 0x000000ff) OR
     push_bit 8 (x AND 0x0000ff00) OR
     drop_bit 8 (x AND 0x00ff0000) OR
     drop_bit 24 (x AND 0xff000000)"

definition bswap_64 :: "u64 \<Rightarrow> u64" where
  "bswap_64 x =
     push_bit 56 (x AND 0x00000000000000ff) OR
     push_bit 40 (x AND 0x000000000000ff00) OR
     push_bit 24 (x AND 0x0000000000ff0000) OR
     push_bit 8 (x AND 0x00000000ff000000) OR
     drop_bit 8 (x AND 0x000000ff00000000) OR
     drop_bit 24 (x AND 0x0000ff0000000000) OR
     drop_bit 40 (x AND 0x00ff000000000000) OR
     drop_bit 56 (x AND 0xff00000000000000)"

datatype byte_order = Little_endian | Big_endian

definition htonll :: "byte_order \<Rightarrow> u64 \<Rightarrow> u64" where
  "htonll host x = (case host of Little_endian \<Rightarrow> bswap_64 x | Big_endian \<Rightarrow> x)"

definition ntohll :: "byte_order \<Rightarrow> u64 \<Rightarrow> u64" where
  "ntohll host x = (case host of Little_endian \<Rightarrow> bswap_64 x | Big_endian \<Rightarrow> x)"

section \<open>Bytes turned around\<close>

definition byte_of :: "'a::len word \<Rightarrow> nat \<Rightarrow> u8" where
  "byte_of x i = ucast (drop_bit (8 * i) x)"

definition word_bytes :: "'a::len word \<Rightarrow> u8 list" where
  "word_bytes x = map (byte_of x) [0..<LENGTH('a) div 8]"

lemma byte_of_int: "byte_of x i = word_of_int (uint x div 256 ^ i)"
proof -
  have "uint x div 256 ^ i = drop_bit (8 * i) (uint x)" by (simp add: drop_bit_eq_div power_mult)
  then show ?thesis by (intro bit_word_eqI) (simp add: byte_of_def bit_simps)
qed

lemma word_bytes_le: "word_bytes x = le_bytes (LENGTH('a) div 8) (uint x)" for x :: "'a::len word"
  by (simp add: word_bytes_def le_bytes_def byte_of_int)

lemma bit_lane:
  "bit (x AND push_bit k (mask 8)) n \<longleftrightarrow> k \<le> n \<and> n < k + 8 \<and> bit x n" for x :: "'a::len word"
  by (auto simp: bit_simps dest: bit_imp_le_length)

lemma lanes:
  "(0xff :: 'a::len word) = push_bit 0 (mask 8)" "(0xff00 :: 'a word) = push_bit 8 (mask 8)"
  "(0xff0000 :: 'a word) = push_bit 16 (mask 8)" "(0xff000000 :: 'a word) = push_bit 24 (mask 8)"
  "(0xff00000000 :: 'a word) = push_bit 32 (mask 8)" "(0xff0000000000 :: 'a word) = push_bit 40 (mask 8)"
  "(0xff000000000000 :: 'a word) = push_bit 48 (mask 8)" "(0xff00000000000000 :: 'a word) = push_bit 56 (mask 8)"
  by (simp_all add: mask_eq_exp_minus_1 push_bit_eq_mult)

lemma bytes_bswap_16: "i < 2 \<Longrightarrow> byte_of (bswap_16 x) i = byte_of x (1 - i)"
proof (rule bit_word_eqI)
  fix n assume "i < 2" "n < LENGTH(8)"
  then have "i \<in> {0, 1}" "n < 8" by auto
  then show "bit (byte_of (bswap_16 x) i) n = bit (byte_of x (1 - i)) n"
    unfolding bswap_16_def lanes byte_of_def
    by (elim insertE; simp only: bit_or_iff bit_push_bit_iff bit_drop_bit_eq bit_lane bit_ucast_iff comp_def; simp)
qed

lemma bytes_bswap_32: "i < 4 \<Longrightarrow> byte_of (bswap_32 x) i = byte_of x (3 - i)"
proof (rule bit_word_eqI)
  fix n assume "i < 4" "n < LENGTH(8)"
  then have "i \<in> {0, 1, 2, 3}" "n < 8" by auto
  then show "bit (byte_of (bswap_32 x) i) n = bit (byte_of x (3 - i)) n"
    unfolding bswap_32_def lanes byte_of_def
    by (elim insertE; simp only: bit_or_iff bit_push_bit_iff bit_drop_bit_eq bit_lane bit_ucast_iff comp_def; simp)
qed

lemma bytes_bswap_64: "i < 8 \<Longrightarrow> byte_of (bswap_64 x) i = byte_of x (7 - i)"
proof (rule bit_word_eqI)
  fix n assume "i < 8" "n < LENGTH(8)"
  then have "i \<in> {0, 1, 2, 3, 4, 5, 6, 7}" "n < 8" by auto
  then show "bit (byte_of (bswap_64 x) i) n = bit (byte_of x (7 - i)) n"
    unfolding bswap_64_def lanes byte_of_def
    by (elim insertE; simp only: bit_or_iff bit_push_bit_iff bit_drop_bit_eq bit_lane bit_ucast_iff comp_def; simp)
qed

text \<open>A word is its bytes.\<close>

lemma word_bytes_inject:
  fixes x y :: "'a::len word"
  assumes "8 dvd LENGTH('a)" "word_bytes x = word_bytes y"
  shows "x = y"
proof (rule bit_word_eqI)
  fix n assume n: "n < LENGTH('a)"
  then have "n div 8 < LENGTH('a) div 8" using assms(1) by (auto elim!: dvdE intro: less_mult_imp_div_less simp: mult.commute)
  with assms(2) have "byte_of x (n div 8) = byte_of y (n div 8)" by (simp add: word_bytes_def)
  then have "bit (byte_of x (n div 8)) (n mod 8) = bit (byte_of y (n div 8)) (n mod 8)" by simp
  then show "bit x n = bit y n" by (simp add: byte_of_def bit_simps)
qed

lemma rev_bytes: "(\<And>i. i < n \<Longrightarrow> f i = g (n - 1 - i)) \<Longrightarrow> map f [0..<n] = rev (map g [0..<n])"
  by (rule nth_equalityI) (simp_all add: rev_nth)

text \<open>
  Each of the three macros turns the bytes of its argument around, for every argument, and therefore undoes
  itself.
\<close>

lemma bswap_reverses:
  "word_bytes (bswap_16 a) = rev (word_bytes a) \<and> word_bytes (bswap_32 b) = rev (word_bytes b) \<and>
   word_bytes (bswap_64 c) = rev (word_bytes c) \<and>
   bswap_16 (bswap_16 a) = a \<and> bswap_32 (bswap_32 b) = b \<and> bswap_64 (bswap_64 c) = c"
proof -
  have r: "word_bytes (bswap_16 a) = rev (word_bytes a)" "word_bytes (bswap_32 b) = rev (word_bytes b)"
    "word_bytes (bswap_64 c) = rev (word_bytes c)" for a b c
    unfolding word_bytes_def by (auto intro!: rev_bytes simp: bytes_bswap_16 bytes_bswap_32 bytes_bswap_64 simp del: upt_rec_numeral)
  have "bswap_16 (bswap_16 a) = a" "bswap_32 (bswap_32 b) = b" "bswap_64 (bswap_64 c) = c"
    by (rule word_bytes_inject; simp add: r)+
  with r show ?thesis by simp
qed

text \<open>The bytes of a word in the memory of a host.\<close>

definition memory_bytes :: "byte_order \<Rightarrow> 'a::len word \<Rightarrow> u8 list" where
  "memory_bytes host x = (case host of Little_endian \<Rightarrow> word_bytes x | Big_endian \<Rightarrow> rev (word_bytes x))"

text \<open>
  \<open>htonll\<close> gives network order on a host of either kind: its result is stored with the most significant byte of the
  argument first. \<open>ntohll\<close> gives the argument back. The narrower macros turn the bytes around and undo themselves, too.
\<close>

lemma htonll_network_order:
  "memory_bytes host (htonll host x) = rev (word_bytes x) \<and> ntohll host (htonll host x) = x \<and>
   word_bytes (bswap_16 a) = rev (word_bytes a) \<and> bswap_16 (bswap_16 a) = a \<and>
   word_bytes (bswap_32 b) = rev (word_bytes b) \<and> bswap_32 (bswap_32 b) = b"
  using bswap_reverses [of a b x] by (cases host) (simp_all add: htonll_def ntohll_def memory_bytes_def)

end
