(* ===== verification/Ce_Shared.thy ===== *)
theory Ce_Shared
  imports Prelude
begin

text \<open>
  The configuration of \<^verbatim>\<open>cevent/ce_shared.h\<close>, and the check that \<open>ce_server_startup\<close> and \<open>ce_client_connect\<close> both make
  of it. A callback is the flag that it is not NULL: what it does is the program's own affair, and its calls are events.
\<close>

type_synonym packet_len_t = u16

datatype ce_exception = ce_packet_illegal | ce_packet_send_error

datatype ce_push_type = ce_push_fd | ce_push_except_fd

record ce_conf =
  on_accept :: bool
  on_received :: bool
  on_exception :: bool
  on_close :: bool
  per_max_packet_body_size :: packet_len_t
  per_cache_ringbuffer_size :: int
  conf_workers :: int
  conf_ip :: "u8 list"
  conf_port :: int
  conf_timeout :: int
  conf_keepalive :: int
  conf_heartbeat :: int

text \<open>The condition under which both refuse the configuration.\<close>

definition conf_refused :: "ce_conf \<Rightarrow> bool" where
  "conf_refused conf \<longleftrightarrow>
     \<not> on_accept conf \<or> \<not> on_received conf \<or> \<not> on_exception conf \<or> \<not> on_close conf \<or>
     per_cache_ringbuffer_size conf \<le> 0 \<or> int (unat (per_max_packet_body_size conf)) \<le> 0 \<or>
     int (unat (per_max_packet_body_size conf)) > per_cache_ringbuffer_size conf \<or>
     conf_workers conf < 1 \<or> conf_ip conf ! 0 = 0 \<or> conf_port conf \<le> 0 \<or> conf_timeout conf < 0 \<or>
     conf_keepalive conf < 0 \<or> conf_heartbeat conf < 1"

end
