(* ===== verification/Ce_Io.thy ===== *)
theory Ce_Io
  imports Ce_Shared Byte_Order Dict_Iterator Dict_Extra Ring_Buffer 
begin

text \<open>
  The packet layer of \<^verbatim>\<open>cevent/ce_io.c\<close> on top of the models of the dictionary and of the ring buffer. A \<open>ce_io_fd_t *\<close> is
  an address in \<open>io_heap\<close>; a job of the thread pool is what its processor is called with, and \<open>ce_tp_worker_register\<close>
  appends it. What a processor tells the program or the socket is an event. Calls are taken one after the other; the
  locks and the interleaving of the jobs are in Ce_Io_Threads.

  Two casts of the code read the wrong object: \<open>entry->key\<close>, the address of a variable that is gone, as the
  \<open>ce_io_fd_t\<close> that is the entry's value, and the address of eight bytes in a ring as the pointer they hold. The
  operations have an argument of type \<open>io_casts\<close>: \<open>As_written\<close> is the code, where these reads are undefined, \<open>As_meant\<close>
  reads the value and the stored pointer, so that the rest of each function can be studied. The key of the dictionary,
  the address of the argument \<open>fd\<close> taken as a C string, is modelled by the string it points to during the call; that the
  dictionary compares it later through the dangling pointer is left aside.
\<close>

section \<open>State\<close>

record ce_io_fd =
  io_fd_fd :: int
  enqueue_buffer :: ce_rb
  enqueue_cache_body_size :: packet_len_t
  push_buffer :: ce_rb

datatype io_job = Enqueue_job | Delete_job nat

record ce_io =
  io_conf :: ce_conf
  io_dict :: "(cstring, nat, unit) dict"
  io_stop :: bool
  enqueue_fd_event :: ce_rb
  push_fd_event :: ce_rb
  io_jobs :: "io_job list"
  io_heap :: "nat \<rightharpoonup> ce_io_fd"

datatype io_event = On_received int "u8 list" | On_exception int ce_exception | Sent int "u8 list"

datatype io_casts = As_written | As_meant

text \<open>The C string at \<open>&fd\<close>; \<open>None\<close> when no byte of \<open>fd\<close> is zero and \<open>strlen\<close> runs past it.\<close>

definition fd_key :: "int \<Rightarrow> cstring option" where
  "fd_key fd = c_string_at (le_bytes 4 fd)"

text \<open>The casts.\<close>

definition entry_io_fd :: "io_casts \<Rightarrow> ce_io \<Rightarrow> entry_loc \<Rightarrow> nat option" where
  "entry_io_fd casts io entry =
     (case casts of
        As_written \<Rightarrow> None
      | As_meant \<Rightarrow> do { e \<leftarrow> dict_entry_at (io_dict io) entry; de_val e })"

text \<open>The same for the entry an iterator is at, given by its key.\<close>

definition iter_io_fd :: "io_casts \<Rightarrow> ce_io \<Rightarrow> cstring \<Rightarrow> nat option" where
  "iter_io_fd casts io k =
     (case casts of As_written \<Rightarrow> None | As_meant \<Rightarrow> do { v \<leftarrow> dict_map (io_dict io) k; v })"

definition event_io_fd :: "io_casts \<Rightarrow> u8 list \<Rightarrow> nat option" where
  "event_io_fd casts slot = (case casts of As_written \<Rightarrow> None | As_meant \<Rightarrow> Some (le_value slot))"

text \<open>\<open>ce_rb_write\<close> of the first \<open>n\<close> bytes at a pointer.\<close>

definition io_write :: "ce_rb \<Rightarrow> u8 list \<Rightarrow> nat \<Rightarrow> (ce_rb \<times> nat) option" where
  "io_write rb data n = (if n \<le> length data then rb_put rb (take n data) else None)"

section \<open>Calls of the program\<close>

text \<open>\<open>None\<close> also where \<open>ce_tp_create\<close> does not return, for two threads and more (theory \<open>Thread_Pool\<close>).\<close>

definition ce_io_new :: "dict_statics \<Rightarrow> ce_conf \<Rightarrow> ce_io option" where
  "ce_io_new st conf =
     (if 1 < conf_workers conf then None
      else do {
        e \<leftarrow> ce_rb_new (per_cache_ringbuffer_size conf);
        p \<leftarrow> ce_rb_new (per_cache_ringbuffer_size conf);
        Some \<lparr>io_conf = conf, io_dict = dictCreate (dictTypeHeapStrings (dict_hash_function_seed st)) (),
              io_stop = False, enqueue_fd_event = e, push_fd_event = p, io_jobs = [], io_heap = Map.empty\<rparr>
      })"

definition ce_io_param :: "ce_io option \<Rightarrow> ce_conf option" where
  "ce_io_param io = map_option io_conf io"

text \<open>\<open>a\<close> is the address \<open>ce_malloc\<close> returns for the new \<open>ce_io_fd_t\<close>.\<close>

definition ce_io_add :: "dict_statics \<Rightarrow> nat \<Rightarrow> ce_io \<Rightarrow> int \<Rightarrow> (ce_io \<times> bool) option" where
  "ce_io_add st a io fd =
     (if io_stop io then Some (io, False)
      else do {
        key \<leftarrow> fd_key fd;
        (d1, entry) \<leftarrow> dictFind (io_dict io) key;
        if entry \<noteq> None then Some (io\<lparr>io_dict := d1\<rparr>, False)
        else do {
          e \<leftarrow> ce_rb_new (per_cache_ringbuffer_size (io_conf io));
          p \<leftarrow> ce_rb_new (per_cache_ringbuffer_size (io_conf io));
          (d2, rc) \<leftarrow> dictAdd (dict_can_resize st) d1 key a;
          Some (io\<lparr>io_dict := d2,
                   io_heap := (io_heap io)(a \<mapsto> \<lparr>io_fd_fd = fd, enqueue_buffer = e, enqueue_cache_body_size = 0,
                                             push_buffer = p\<rparr>)\<rparr>,
                rc = DICT_OK)
        }
      })"

definition ce_io_enqueue ::
  "io_casts \<Rightarrow> ce_io option \<Rightarrow> int \<Rightarrow> u8 list option \<Rightarrow> packet_len_t \<Rightarrow> (ce_io option \<times> bool) option" where
  "ce_io_enqueue casts p fd data len =
     (case (p, data) of
        (Some io, Some bytes) \<Rightarrow>
          if fd \<le> 0 \<or> len \<le> 0 then Some (p, False)
          else if io_stop io then Some (p, False)
          else do {
            key \<leftarrow> fd_key fd;
            (d1, entry) \<leftarrow> dictFind (io_dict io) key;
            let io1 = io\<lparr>io_dict := d1\<rparr>;
            (case entry of
               None \<Rightarrow> Some (Some io1, False)
             | Some loc \<Rightarrow> do {
                 a \<leftarrow> entry_io_fd casts io1 loc;
                 io_fd \<leftarrow> io_heap io1 a;
                 (e, write_size) \<leftarrow> io_write (enqueue_buffer io_fd) bytes (unat len);
                 let io2 = io1\<lparr>io_heap := (io_heap io1)(a \<mapsto> io_fd\<lparr>enqueue_buffer := e\<rparr>)\<rparr>;
                 if write_size \<noteq> unat len then Some (Some io2, False)
                 else do {
                   (ev, write_size) \<leftarrow> io_write (enqueue_fd_event io2) (le_bytes 8 (int a)) 8;
                   let io3 = io2\<lparr>enqueue_fd_event := ev\<rparr>;
                   if write_size \<noteq> 8 then Some (Some io3, False)
                   else Some (Some (io3\<lparr>io_jobs := io_jobs io3 @ [Enqueue_job]\<rparr>), True)
                 }
               })
          }
      | _ \<Rightarrow> Some (p, False))"

text \<open>\<open>ce_io_push\<close> writes to the buffer of received bytes and registers the processor of received bytes.\<close>

definition ce_io_push ::
  "io_casts \<Rightarrow> ce_io option \<Rightarrow> ce_push_type \<Rightarrow> int \<Rightarrow> u8 list option \<Rightarrow> packet_len_t \<Rightarrow> (ce_io option \<times> bool) option" where
  "ce_io_push casts p push_type fd data len =
     (case (p, data) of
        (Some io, Some bytes) \<Rightarrow>
          if fd \<le> 0 \<or> len \<le> 0 then Some (p, False)
          else if io_stop io then Some (p, False)
          else do {
            key \<leftarrow> fd_key fd;
            (d1, entry) \<leftarrow> dictFind (io_dict io) key;
            let io1 = io\<lparr>io_dict := d1\<rparr>;
            (case entry of
               None \<Rightarrow> Some (Some io1, False)
             | Some loc \<Rightarrow> do {
                 a \<leftarrow> entry_io_fd casts io1 loc;
                 io_fd \<leftarrow> io_heap io1 a;
                 (e, write_size) \<leftarrow> io_write (enqueue_buffer io_fd) (le_bytes 2 (int (unat len))) 2;
                 let io2 = io1\<lparr>io_heap := (io_heap io1)(a \<mapsto> io_fd\<lparr>enqueue_buffer := e\<rparr>)\<rparr>;
                 if write_size \<noteq> 2 then Some (Some io2, False)
                 else do {
                   (e2, write_size) \<leftarrow> io_write e bytes (unat len);
                   let io3 = io1\<lparr>io_heap := (io_heap io1)(a \<mapsto> io_fd\<lparr>enqueue_buffer := e2\<rparr>)\<rparr>;
                   if write_size \<noteq> unat len then Some (Some io3, False)
                   else Some (Some (io3\<lparr>io_jobs := io_jobs io3 @ [Enqueue_job]\<rparr>), True)
                 }
               })
          }
      | _ \<Rightarrow> Some (p, False))"

definition ce_io_del :: "io_casts \<Rightarrow> ce_io option \<Rightarrow> int \<Rightarrow> (ce_io option \<times> bool) option" where
  "ce_io_del casts p fd =
     (case p of
        None \<Rightarrow> Some (p, False)
      | Some io \<Rightarrow>
          if fd \<le> 0 then Some (p, False)
          else if io_stop io then Some (p, False)
          else do {
            key \<leftarrow> fd_key fd;
            (d1, entry) \<leftarrow> dictFind (io_dict io) key;
            let io1 = io\<lparr>io_dict := d1\<rparr>;
            (case entry of
               None \<Rightarrow> Some (Some io1, False)
             | Some loc \<Rightarrow> do {
                 a \<leftarrow> entry_io_fd casts io1 loc;
                 (d2, _, _) \<leftarrow> dictDelete d1 key;
                 Some (Some (io1\<lparr>io_dict := d2, io_jobs := io_jobs io1 @ [Delete_job a]\<rparr>), True)
               })
          })"

section \<open>Processors\<close>

text \<open>
  \<open>_ce_io_get\<close>, called by nobody, reads the slot into its own parameter \<open>one\<close>: the slot is consumed, and \<open>*one\<close> stays
  as it is. The arguments are a ring and whether \<open>one\<close> is not NULL.
\<close>

definition ce_io_get :: "ce_rb option \<Rightarrow> bool \<Rightarrow> (ce_rb option \<times> bool) option" where
  "ce_io_get p one =
     (case p of
        None \<Rightarrow> Some (p, False)
      | Some rb \<Rightarrow>
          if \<not> one then Some (p, False)
          else if can_read rb < 8 then Some (p, False)
          else do { (rb1, _) \<leftarrow> rb_get rb 8; Some (Some rb1, True) })"

text \<open>
  The loop over the received bytes of one connection. The flag says that it ends with an illegal packet, after
  which the caller deletes the connection.
\<close>

partial_function (option) packet_loop ::
  "packet_len_t \<Rightarrow> ce_io_fd \<Rightarrow> (ce_io_fd \<times> io_event list \<times> bool) option" where
  "packet_loop limit io_fd =
     (if can_read (enqueue_buffer io_fd) \<le> 2 then Some (io_fd, [], False)
      else do {
        (e1, head) \<leftarrow> rb_get (enqueue_buffer io_fd) 2;
        let len = (word_of_nat (le_value head) :: packet_len_t);
        let io_fd1 = io_fd\<lparr>enqueue_buffer := e1\<rparr>;
        if len = 0 then packet_loop limit io_fd1
        else if limit < len then Some (io_fd1, [On_exception (io_fd_fd io_fd) ce_packet_illegal], True)
        else if int (unat len) < can_read e1 then Some (io_fd1\<lparr>enqueue_cache_body_size := len\<rparr>, [], False)
        else do {
          (e2, body) \<leftarrow> rb_get e1 (unat len);
          (io_fd2, evs, illegal) \<leftarrow> packet_loop limit (io_fd\<lparr>enqueue_buffer := e2, enqueue_cache_body_size := 0\<rparr>);
          Some (io_fd2, On_received (io_fd_fd io_fd) body # evs, illegal)
        }
      })"

partial_function (option) enqueue_buffer_processor ::
  "io_casts \<Rightarrow> ce_io \<Rightarrow> (ce_io \<times> io_event list) option" where
  "enqueue_buffer_processor casts io =
     (if can_read (push_fd_event io) < 8 then Some (io, [])
      else do {
        (ev, slot) \<leftarrow> rb_get (push_fd_event io) 8;
        a \<leftarrow> event_io_fd casts slot;
        io_fd \<leftarrow> io_heap io a;
        (io_fd1, evs, illegal) \<leftarrow> packet_loop (per_max_packet_body_size (io_conf io)) io_fd;
        let io1 = io\<lparr>push_fd_event := ev, io_heap := (io_heap io)(a \<mapsto> io_fd1)\<rparr>;
        io2 \<leftarrow> (if illegal then do { (p, _) \<leftarrow> ce_io_del casts (Some io1) (io_fd_fd io_fd); p } else Some io1);
        (io3, evs') \<leftarrow> enqueue_buffer_processor casts io2;
        Some (io3, evs @ evs')
      })"

definition CE_SEND_PER_SIZE :: nat where
  "CE_SEND_PER_SIZE = 100 * 1024"

text \<open>
  The loop that sends; \<open>send\<close> is the socket's function, its result the number of bytes it took. The length is passed
  to it as a \<open>packet_len_t\<close>. The flag says that it ends with an error, after which the caller deletes the connection.
\<close>

partial_function (option) send_loop ::
  "(int \<Rightarrow> u8 list \<Rightarrow> int) \<Rightarrow> ce_io_fd \<Rightarrow> (ce_io_fd \<times> io_event list \<times> bool) option" where
  "send_loop send io_fd = do {
     (p1, data) \<leftarrow> rb_get (push_buffer io_fd) CE_SEND_PER_SIZE;
     if data = [] then Some (io_fd\<lparr>push_buffer := p1\<rparr>, [], False)
     else do {
       let given = take (unat (word_of_nat (length data) :: packet_len_t)) data;
       if send (io_fd_fd io_fd) given \<noteq> int (length data)
       then Some (io_fd\<lparr>push_buffer := p1\<rparr>,
                  [Sent (io_fd_fd io_fd) given, On_exception (io_fd_fd io_fd) ce_packet_send_error], True)
       else do {
         (io_fd2, evs, failed) \<leftarrow> send_loop send (io_fd\<lparr>push_buffer := p1\<rparr>);
         Some (io_fd2, Sent (io_fd_fd io_fd) given # evs, failed)
       }
     }
   }"

partial_function (option) push_buffer_processor ::
  "io_casts \<Rightarrow> (int \<Rightarrow> u8 list \<Rightarrow> int) \<Rightarrow> ce_io \<Rightarrow> (ce_io \<times> io_event list) option" where
  "push_buffer_processor casts send io =
     (if can_read (push_fd_event io) < 8 then Some (io, [])
      else do {
        (ev, slot) \<leftarrow> rb_get (push_fd_event io) 8;
        a \<leftarrow> event_io_fd casts slot;
        io_fd \<leftarrow> io_heap io a;
        (io_fd1, evs, failed) \<leftarrow> send_loop send io_fd;
        let io1 = io\<lparr>push_fd_event := ev, io_heap := (io_heap io)(a \<mapsto> io_fd1)\<rparr>;
        io2 \<leftarrow> (if failed then do { (p, _) \<leftarrow> ce_io_del casts (Some io1) (io_fd_fd io_fd); p } else Some io1);
        (io3, evs') \<leftarrow> push_buffer_processor casts send io2;
        Some (io3, evs @ evs')
      })"

text \<open>The object with its two rings is freed; \<open>None\<close> when it has been freed before.\<close>

definition delete_fd_processor :: "nat \<Rightarrow> ce_io \<Rightarrow> ce_io option" where
  "delete_fd_processor a io = do { _ \<leftarrow> io_heap io a; Some (io\<lparr>io_heap := (io_heap io)(a := None)\<rparr>) }"

text \<open>A thread of the pool takes the first job.\<close>

definition run_job :: "io_casts \<Rightarrow> ce_io \<Rightarrow> (ce_io \<times> io_event list) option" where
  "run_job casts io =
     (case io_jobs io of
        [] \<Rightarrow> Some (io, [])
      | Enqueue_job # jobs \<Rightarrow> enqueue_buffer_processor casts (io\<lparr>io_jobs := jobs\<rparr>)
      | Delete_job a # jobs \<Rightarrow> do { io1 \<leftarrow> delete_fd_processor a (io\<lparr>io_jobs := jobs\<rparr>); Some (io1, []) })"

section \<open>Destroying\<close>

text \<open>The loop over all connections, with \<open>stop\<close> set; the addresses of the tables play no part in a safe iterator.\<close>

partial_function (option) destory_loop ::
  "io_casts \<Rightarrow> ce_io \<Rightarrow> cstring dictIterator \<Rightarrow> (ce_io \<times> cstring dictIterator) option" where
  "destory_loop casts io it = do {
     (d1, it1, r) \<leftarrow> dictNext 0 0 (io_dict io) it;
     let io1 = io\<lparr>io_dict := d1\<rparr>;
     (case r of
        None \<Rightarrow> Some (io1, it1)
      | Some k \<Rightarrow> do {
          a \<leftarrow> iter_io_fd casts io1 k;
          io_fd \<leftarrow> io_heap io1 a;
          (p, _) \<leftarrow> ce_io_del casts (Some io1) (io_fd_fd io_fd);
          io2 \<leftarrow> p;
          destory_loop casts io2 it1
        })
   }"

text \<open>\<open>ce_tp_destroy\<close> with \<open>tp_kill_wait\<close> runs the jobs that are left.\<close>

partial_function (option) run_jobs :: "io_casts \<Rightarrow> ce_io \<Rightarrow> (ce_io \<times> io_event list) option" where
  "run_jobs casts io =
     (if io_jobs io = [] then Some (io, [])
      else do {
        (io1, evs) \<leftarrow> run_job casts io;
        (io2, evs') \<leftarrow> run_jobs casts io1;
        Some (io2, evs @ evs')
      })"

text \<open>The two rings and the \<open>ce_io_t\<close> are freed last; what is left of the heap is leaked.\<close>

definition ce_io_destory :: "io_casts \<Rightarrow> ce_io option \<Rightarrow> ((nat \<rightharpoonup> ce_io_fd) \<times> io_event list) option" where
  "ce_io_destory casts p =
     (case p of
        None \<Rightarrow> Some (Map.empty, [])
      | Some io \<Rightarrow> do {
          (io1, it) \<leftarrow> destory_loop casts (io\<lparr>io_stop := True\<rparr>) (dictGetSafeIterator 0);
          d \<leftarrow> dictReleaseIterator 0 0 (io_dict io1) it;
          (io2, evs) \<leftarrow> run_jobs casts (io1\<lparr>io_dict := d\<rparr>);
          Some (io_heap io2, evs)
        })"

section \<open>The loop over the received bytes\<close>

datatype packet_end = Drained | Incomplete packet_len_t | Illegal

text \<open>What the loop does, on the bytes in the buffer: the packets handed on, the bytes left, and why it ends.\<close>

fun parse_packets :: "packet_len_t \<Rightarrow> u8 list \<Rightarrow> u8 list list \<times> u8 list \<times> packet_end" where
  "parse_packets limit (b0 # b1 # rest) =
     (if rest = [] then ([], b0 # b1 # rest, Drained)
      else let len = word_of_nat (le_value [b0, b1]) in
           if len = 0 then parse_packets limit rest
           else if limit < len then ([], rest, Illegal)
           else if unat len < length rest then ([], rest, Incomplete len)
           else ([rest], [], Drained))"
| "parse_packets limit [b] = ([], [b], Drained)"
| "parse_packets limit [] = ([], [], Drained)"

lemma packet_loop_empty:
  assumes "rb_inv (enqueue_buffer f)" "length (rb_contents (enqueue_buffer f)) \<le> 2"
  shows "packet_loop limit f = Some (f, [], False)"
proof -
  have "can_read (enqueue_buffer f) \<le> 2" using length_rb_contents [OF assms(1)] assms(2) by linarith
  then show ?thesis by (subst packet_loop.simps) simp
qed

text \<open>One turn of the loop, when there is more than a length in the buffer.\<close>

lemma packet_loop_turn:
  assumes inv: "rb_inv (enqueue_buffer f)" and c: "rb_contents (enqueue_buffer f) = b0 # b1 # tail" "tail \<noteq> []"
    and len: "len = (word_of_nat (le_value [b0, b1]) :: packet_len_t)"
  obtains e1 e2 where "rb_inv e1" "rb_contents e1 = tail" "rb_inv e2" "rb_contents e2 = drop (unat len) tail"
    "packet_loop limit f =
      (if len = 0 then packet_loop limit (f\<lparr>enqueue_buffer := e1\<rparr>)
       else if limit < len then Some (f\<lparr>enqueue_buffer := e1\<rparr>, [On_exception (io_fd_fd f) ce_packet_illegal], True)
       else if unat len < length tail then Some (f\<lparr>enqueue_buffer := e1, enqueue_cache_body_size := len\<rparr>, [], False)
       else Some (f\<lparr>enqueue_buffer := e2, enqueue_cache_body_size := 0\<rparr>, [On_received (io_fd_fd f) tail], False))"
proof -
  obtain e1 where e1: "rb_get (enqueue_buffer f) 2 = Some (e1, [b0, b1])" "rb_inv e1" "rb_contents e1 = tail"
    using rb_get_law [OF inv, of 2] c by auto
  obtain e2 where e2: "rb_get e1 (unat len) = Some (e2, take (unat len) tail)" "rb_inv e2" "rb_contents e2 = drop (unat len) tail"
    using rb_get_law [OF e1(2), of "unat len"] e1(3) by auto
  have more: "\<not> can_read (enqueue_buffer f) \<le> 2"
    using length_rb_contents [OF inv] c by (cases tail) auto
  have cr1: "can_read e1 = int (length tail)" using length_rb_contents [OF e1(2)] e1(3) by simp
  note loop = packet_loop.simps [of limit f, simplified more e1(1) if_False Option.bind.bind_lunit prod.case Let_def len [symmetric]]
  have lt: "uint len < int (length tail) \<longleftrightarrow> unat len < length tail"
    using of_nat_less_iff [of "unat len" "length tail", where 'a = int] by simp
  have "packet_loop limit (f\<lparr>enqueue_buffer := e2, enqueue_cache_body_size := 0\<rparr>) =
      Some (f\<lparr>enqueue_buffer := e2, enqueue_cache_body_size := 0\<rparr>, [], False)" if "\<not> unat len < length tail"
    using e2(2,3) that by (intro packet_loop_empty) simp_all
  with e1 e2 show thesis
    using cr1 lt by (intro that [of e1 e2]) (simp_all add: loop)
qed

lemma packet_loop_parse:
  assumes "rb_inv (enqueue_buffer f)" "parse_packets limit (rb_contents (enqueue_buffer f)) = (ps, rest, e)"
  shows "\<exists>f'. packet_loop limit f = Some (f', map (On_received (io_fd_fd f)) ps @
        (if e = Illegal then [On_exception (io_fd_fd f) ce_packet_illegal] else []), e = Illegal) \<and>
      rb_inv (enqueue_buffer f') \<and> rb_contents (enqueue_buffer f') = rest \<and>
      io_fd_fd f' = io_fd_fd f \<and> push_buffer f' = push_buffer f"
  using assms
proof (induction limit "rb_contents (enqueue_buffer f)" arbitrary: f ps rest e rule: parse_packets.induct)
  case (1 limit b0 b1 tail)
  note c = 1(2) [symmetric]
  show ?case
  proof (cases "tail = []")
    case True
    with c have "packet_loop limit f = Some (f, [], False)" by (intro packet_loop_empty [OF 1(3)]) simp
    moreover have "(ps, rest, e) = ([], rb_contents (enqueue_buffer f), Drained)" using 1(4) c True by simp
    ultimately show ?thesis using 1(3) by simp
  next
    case False
    define len where "len = (word_of_nat (le_value [b0, b1]) :: packet_len_t)"
    obtain e1 e2 where t: "rb_inv e1" "rb_contents e1 = tail" "rb_inv e2" "rb_contents e2 = drop (unat len) tail"
      "packet_loop limit f =
        (if len = 0 then packet_loop limit (f\<lparr>enqueue_buffer := e1\<rparr>)
         else if limit < len then Some (f\<lparr>enqueue_buffer := e1\<rparr>, [On_exception (io_fd_fd f) ce_packet_illegal], True)
         else if unat len < length tail then Some (f\<lparr>enqueue_buffer := e1, enqueue_cache_body_size := len\<rparr>, [], False)
         else Some (f\<lparr>enqueue_buffer := e2, enqueue_cache_body_size := 0\<rparr>, [On_received (io_fd_fd f) tail], False))"
      using packet_loop_turn [OF 1(3) c False len_def] by blast
    have pc: "(if len = 0 then parse_packets limit tail else if limit < len then ([], tail, Illegal)
        else if unat len < length tail then ([], tail, Incomplete len) else ([tail], [], Drained)) = (ps, rest, e)"
      using 1(4) False unfolding c by (simp only: parse_packets.simps if_False Let_def len_def)
    show ?thesis
    proof (cases "len = 0")
      case True
      with pc t(2) have "parse_packets limit (rb_contents (enqueue_buffer (f\<lparr>enqueue_buffer := e1\<rparr>))) = (ps, rest, e)" by simp
      from 1(1) [OF False refl _ _ _ this] True t(1,2,5) show ?thesis by (auto simp: len_def)
    next
      case False
      with pc t show ?thesis by (auto split: if_splits)
    qed
  qed
next
  case (2 limit b)
  have "length (rb_contents (enqueue_buffer f)) \<le> 2" using arg_cong [OF 2(1), of length] by simp
  with 2(2) have "packet_loop limit f = Some (f, [], False)" by (rule packet_loop_empty)
  moreover have "(ps, rest, e) = ([], rb_contents (enqueue_buffer f), Drained)" using 2 by (simp flip: 2(1))
  ultimately show ?case using 2(2) by simp
next
  case (3 limit)
  have "length (rb_contents (enqueue_buffer f)) \<le> 2" using arg_cong [OF 3(1), of length] by simp
  with 3(2) have "packet_loop limit f = Some (f, [], False)" by (rule packet_loop_empty)
  moreover have "(ps, rest, e) = ([], rb_contents (enqueue_buffer f), Drained)" using 3 by (simp flip: 3(1))
  ultimately show ?case using 3(2) by simp
qed

section \<open>The loop that sends\<close>

text \<open>A socket that takes all it is given.\<close>

definition takes_all :: "(int \<Rightarrow> u8 list \<Rightarrow> int) \<Rightarrow> bool" where
  "takes_all send \<longleftrightarrow> (\<forall>fd data. send fd data = int (length data))"

lemma send_loop_empty:
  assumes "rb_inv (push_buffer f)" "rb_contents (push_buffer f) = []"
  shows "\<exists>f'. send_loop send f = Some (f', [], False) \<and> rb_contents (push_buffer f') = []"
  using rb_get_law [OF assms(1), of CE_SEND_PER_SIZE] assms(2) by (subst send_loop.simps) auto

lemma send_loop_all:
  assumes inv: "rb_inv (push_buffer f)" and c: "rb_contents (push_buffer f) = c" "c \<noteq> []" "length c < 2 ^ 16"
    and send: "takes_all send"
  shows "\<exists>f'. send_loop send f = Some (f', [Sent (io_fd_fd f) c], False) \<and> rb_contents (push_buffer f') = []"
proof -
  have n: "length c \<le> CE_SEND_PER_SIZE" using c(3) by (simp add: CE_SEND_PER_SIZE_def)
  obtain p1 where p1: "rb_get (push_buffer f) CE_SEND_PER_SIZE = Some (p1, c)" "rb_inv p1" "rb_contents p1 = []"
    using rb_get_law [OF inv, of CE_SEND_PER_SIZE] c n by auto
  have u: "unat (word_of_nat (length c) :: packet_len_t) = length c"
    using c(3) by (simp add: unsigned_of_nat take_bit_nat_eq_self)
  from send_loop_empty [of "f\<lparr>push_buffer := p1\<rparr>" send] p1(2,3) obtain f' where
    "send_loop send (f\<lparr>push_buffer := p1\<rparr>) = Some (f', [], False)" "rb_contents (push_buffer f') = []" by auto
  with p1(1) c(2) u send show ?thesis by (subst send_loop.simps) (simp add: takes_all_def)
qed

lemma send_loop_long:
  assumes inv: "rb_inv (push_buffer f)" and c: "rb_contents (push_buffer f) = c" "2 ^ 16 \<le> length c"
    and send: "takes_all send"
  shows "\<exists>f'. send_loop send f = Some (f', [Sent (io_fd_fd f) (take (min (length c) CE_SEND_PER_SIZE mod 2 ^ 16) c),
           On_exception (io_fd_fd f) ce_packet_send_error], True) \<and>
         rb_contents (push_buffer f') = drop CE_SEND_PER_SIZE c"
proof -
  obtain p1 where p1: "rb_get (push_buffer f) CE_SEND_PER_SIZE = Some (p1, take CE_SEND_PER_SIZE c)"
    "rb_contents p1 = drop CE_SEND_PER_SIZE c"
    using rb_get_law [OF inv, of CE_SEND_PER_SIZE] c by auto
  let ?n = "min (length c) CE_SEND_PER_SIZE"
  have n: "2 ^ 16 \<le> ?n" using c(2) by (simp add: CE_SEND_PER_SIZE_def)
  have lt: "?n mod 2 ^ 16 < 2 ^ 16" by simp
  have u: "unat (word_of_nat ?n :: packet_len_t) = ?n mod 2 ^ 16"
    by (simp only: unsigned_of_nat take_bit_eq_mod) simp
  have g: "take (?n mod 2 ^ 16) (take CE_SEND_PER_SIZE c) = take (?n mod 2 ^ 16) c"
  proof -
    have "?n mod 2 ^ 16 \<le> CE_SEND_PER_SIZE" by (rule order_trans [OF mod_less_eq_dividend]) simp
    then show ?thesis by (simp only: take_take min.absorb1)
  qed
  have "length (take (?n mod 2 ^ 16) c) \<noteq> ?n" using lt n by (simp only: length_take)
  then have "send (io_fd_fd f) (take (?n mod 2 ^ 16) c) \<noteq> int ?n" using send by (simp add: takes_all_def)
  moreover have "take CE_SEND_PER_SIZE c \<noteq> []" using c(2) by (auto simp: CE_SEND_PER_SIZE_def)
  moreover have "length (take CE_SEND_PER_SIZE c) = ?n" by simp
  ultimately have "send_loop send f = Some (f\<lparr>push_buffer := p1\<rparr>, [Sent (io_fd_fd f) (take (?n mod 2 ^ 16) c),
      On_exception (io_fd_fd f) ce_packet_send_error], True)"
    using p1(1) by (subst send_loop.simps) (simp only: u g Let_def Option.bind.bind_lunit prod.case if_False if_True simp_thms)
  with p1(2) show ?thesis by (intro exI [of _ "f\<lparr>push_buffer := p1\<rparr>"]) simp
qed

section \<open>Sequences of calls\<close>

datatype io_op =
    Io_add dict_statics nat int
  | Io_enqueue int "u8 list option" packet_len_t
  | Io_push ce_push_type int "u8 list option" packet_len_t
  | Io_del int
  | Io_job

fun io_step :: "io_casts \<Rightarrow> ce_io \<Rightarrow> io_op \<Rightarrow> (ce_io \<times> io_event list) option" where
  "io_step casts io (Io_add st a fd) = map_option (\<lambda>(io', _). (io', [])) (ce_io_add st a io fd)"
| "io_step casts io (Io_enqueue fd data len) = do { (p, _) \<leftarrow> ce_io_enqueue casts (Some io) fd data len; io' \<leftarrow> p; Some (io', []) }"
| "io_step casts io (Io_push ty fd data len) = do { (p, _) \<leftarrow> ce_io_push casts (Some io) ty fd data len; io' \<leftarrow> p; Some (io', []) }"
| "io_step casts io (Io_del fd) = do { (p, _) \<leftarrow> ce_io_del casts (Some io) fd; io' \<leftarrow> p; Some (io', []) }"
| "io_step casts io Io_job = run_job casts io"

fun io_run :: "io_casts \<Rightarrow> ce_io \<Rightarrow> io_op list \<Rightarrow> (ce_io \<times> io_event list) option" where
  "io_run casts io [] = Some (io, [])"
| "io_run casts io (op # ops) = do {
     (io1, evs) \<leftarrow> io_step casts io op;
     (io2, evs') \<leftarrow> io_run casts io1 ops;
     Some (io2, evs @ evs')
   }"

text \<open>No call writes to the ring the processors wait for.\<close>

lemma push_fd_event_calls:
  "ce_io_add st a io fd = Some (io', r) \<Longrightarrow> push_fd_event io' = push_fd_event io"
  "ce_io_enqueue casts (Some io) fd data len = Some (Some io', r) \<Longrightarrow> push_fd_event io' = push_fd_event io"
  "ce_io_push casts (Some io) ty fd data len = Some (Some io', r) \<Longrightarrow> push_fd_event io' = push_fd_event io"
  "ce_io_del casts (Some io) fd = Some (Some io', r) \<Longrightarrow> push_fd_event io' = push_fd_event io"
  by (auto simp: ce_io_add_def ce_io_enqueue_def ce_io_push_def ce_io_del_def Let_def split: if_splits option.splits)

lemma processors_wait:
  assumes "can_read (push_fd_event io) < 8"
  shows "enqueue_buffer_processor casts io = Some (io, [])" "push_buffer_processor casts send io = Some (io, [])"
  using assms by (simp_all add: enqueue_buffer_processor.simps push_buffer_processor.simps)

lemma run_job_quiet:
  assumes "can_read (push_fd_event io) < 8" "run_job casts io = Some (io', evs)"
  shows "evs = []" "push_fd_event io' = push_fd_event io"
  using assms by (auto simp: run_job_def processors_wait delete_fd_processor_def split: list.splits io_job.splits)

lemma io_step_quiet:
  assumes "can_read (push_fd_event io) < 8" "io_step casts io op = Some (io', evs)"
  shows "evs = []" "push_fd_event io' = push_fd_event io"
  using assms run_job_quiet [OF assms(1), of casts io' evs] push_fd_event_calls [where io = io and io' = io']
  by (cases op; auto)+

lemma io_run_quiet:
  "can_read (push_fd_event io) < 8 \<Longrightarrow> io_run casts io ops = Some (io', evs) \<Longrightarrow> evs = [] \<and> push_fd_event io' = push_fd_event io"
proof (induction ops arbitrary: io evs)
  case (Cons op ops)
  then obtain io1 evs1 evs2 where s: "io_step casts io op = Some (io1, evs1)" "io_run casts io1 ops = Some (io', evs2)" "evs = evs1 @ evs2"
    by auto
  note q = io_step_quiet [OF Cons.prems(1) s(1)]
  from Cons.IH [OF _ s(2)] q s(3) Cons.prems(1) show ?case by simp
qed simp

section \<open>Adding\<close>

definition io_ready :: "ce_io \<Rightarrow> bool" where
  "io_ready io \<longleftrightarrow> dict_wf (io_dict io) \<and> type_ok (io_dict io) \<and> dict_small (io_dict io) \<and>
     0 < per_cache_ringbuffer_size (io_conf io)"

lemma dictFind_found:
  assumes "dict_wf d" "type_ok d" "dict_map d k = Some (Some a)"
  shows "\<exists>d' loc e. dictFind d k = Some (d', Some loc) \<and> rehash_keeps d d' \<and> dict_entry_at d' loc = Some e \<and> de_val e = Some a"
  using dictFind_ok [OF assms(1,2), of k] assms(3) by (fastforce split: option.splits)

text \<open>A connection just added.\<close>

definition io_fresh :: "int \<Rightarrow> int \<Rightarrow> ce_io_fd \<Rightarrow> bool" where
  "io_fresh fd n f \<longleftrightarrow> io_fd_fd f = fd \<and> rb_inv (enqueue_buffer f) \<and> rb_contents (enqueue_buffer f) = [] \<and>
     rb_capacity (enqueue_buffer f) = n \<and> rb_inv (push_buffer f) \<and> rb_contents (push_buffer f) = [] \<and>
     rb_capacity (push_buffer f) = n"

text \<open>A descriptor is added exactly when no other with the same key string is there.\<close>

lemma ce_io_add_ok:
  assumes ready: "io_ready io" and go: "\<not> io_stop io" and key: "fd_key fd = Some key"
  shows "\<exists>io' f. ce_io_add st a io fd = Some (io', dict_map (io_dict io) key = None) \<and>
    dict_wf (io_dict io') \<and> type_ok (io_dict io') \<and> io_fresh fd (per_cache_ringbuffer_size (io_conf io)) f \<and>
    (if dict_map (io_dict io) key = None
     then io' = io\<lparr>io_dict := io_dict io', io_heap := (io_heap io)(a \<mapsto> f)\<rparr> \<and>
          dict_map (io_dict io') = (dict_map (io_dict io))(key \<mapsto> Some a)
     else io' = io\<lparr>io_dict := io_dict io'\<rparr> \<and> dict_map (io_dict io') = dict_map (io_dict io))"
proof -
  let ?n = "per_cache_ringbuffer_size (io_conf io)"
  have wf: "dict_wf (io_dict io)" and ok: "type_ok (io_dict io)" and small: "dict_small (io_dict io)" and sz: "0 < ?n"
    using ready by (simp_all add: io_ready_def)
  obtain d1 r where d1: "dictFind (io_dict io) key = Some (d1, r)" "rehash_keeps (io_dict io) d1"
    "r = None \<longleftrightarrow> dict_map (io_dict io) key = None"
    using dictFind_ok [OF wf ok, of key] by (force split: option.splits)
  note k = rehash_keepsD [OF d1(2) wf]
  have ok1: "type_ok d1" and small1: "dict_small d1"
    using same_frame_cong [OF k(2)] ok dict_small_rehash [OF d1(2) wf small] by simp_all
  obtain rb where rb: "ce_rb_new ?n = Some rb" "rb_inv rb" "rb_contents rb = []" "rb_capacity rb = ?n"
    using ce_rb_new_correct [of "nat ?n"] sz by auto
  define f where "f = \<lparr>io_fd_fd = fd, enqueue_buffer = rb, enqueue_cache_body_size = 0, push_buffer = rb\<rparr>"
  have f: "io_fresh fd ?n f" using rb by (simp add: io_fresh_def f_def)
  show ?thesis
  proof (cases "r = None")
    case False
    with d1 k ok1 go key have "ce_io_add st a io fd = Some (io\<lparr>io_dict := d1\<rparr>, dict_map (io_dict io) key = None)"
      by (auto simp: ce_io_add_def)
    with False d1(3) k ok1 f show ?thesis by (intro exI [of _ "io\<lparr>io_dict := d1\<rparr>"] exI [of _ f]) auto
  next
    case True
    obtain d2 where d2: "dictAdd (dict_can_resize st) d1 key a = Some (d2, DICT_OK)" "dict_wf d2" "same_frame d1 d2"
      "dict_map d2 = (dict_map d1)(key \<mapsto> Some a)"
      using dictAdd_ok [OF k(1) ok1 small1, of "dict_can_resize st" key a] True d1(3) k(3) by auto
    have "type_ok d2" using same_frame_cong [OF d2(3)] ok1 by simp
    moreover have "ce_io_add st a io fd =
        Some (io\<lparr>io_dict := d2, io_heap := (io_heap io)(a \<mapsto> f)\<rparr>, dict_map (io_dict io) key = None)"
      using True d1 d2(1) go key rb(1) by (auto simp: ce_io_add_def f_def)
    ultimately show ?thesis using True d1(3) k(3) d2 f
      by (intro exI [of _ "io\<lparr>io_dict := d2, io_heap := (io_heap io)(a \<mapsto> f)\<rparr>"] exI [of _ f]) simp
  qed
qed

section \<open>Room in a ring\<close>

definition free_space :: "ce_rb \<Rightarrow> nat" where
  "free_space rb = nat (rb_capacity rb) - length (rb_contents rb)"

lemma io_write_ok:
  assumes "rb_inv rb" "n \<le> length bytes"
  shows "\<exists>rb'. io_write rb bytes n = Some (rb', min n (free_space rb)) \<and> rb_inv rb' \<and>
    rb_contents rb' = rb_contents rb @ take (min n (free_space rb)) bytes \<and> free_space rb' = free_space rb - min n (free_space rb)"
proof -
  from rb_put_law [OF assms(1), of "take n bytes"] assms(2) obtain rb' where
    "io_write rb bytes n = Some (rb', min n (free_space rb))" "rb_inv rb'" "rb_capacity rb' = rb_capacity rb"
    "rb_contents rb' = rb_contents rb @ take (min n (free_space rb)) bytes"
    by (auto simp: io_write_def free_space_def min.absorb1 min.commute)
  with assms(2) show ?thesis by (auto simp: free_space_def)
qed

section \<open>A new packet layer\<close>

lemma io_types_ok: "type_ok (dictCreate (dictTypeHeapStrings seed :: (cstring, nat, unit) dictType) ())"
  by (simp add: type_ok_def dictCreate_def dictTypeHeapStrings_def dictCompareKeys_def dict_key_copy_def dict_val_copy_def
      dictStringCopyHTKeyCompare_def bytes_of_inject)

lemma ce_io_new_ready:
  assumes "ce_io_new st conf = Some io"
  shows "io_ready io" "\<not> io_stop io" "dict_map (io_dict io) = Map.empty" "io_jobs io = []" "io_conf io = conf"
    "rb_inv (enqueue_fd_event io)" "free_space (enqueue_fd_event io) = nat (per_cache_ringbuffer_size conf)"
    "rb_contents (push_fd_event io) = []" "can_read (push_fd_event io) = 0"
proof -
  obtain rb where rb: "ce_rb_new (per_cache_ringbuffer_size conf) = Some rb"
    using assms by (auto simp: ce_io_new_def split: if_splits)
  then have pos: "0 < per_cache_ringbuffer_size conf" by (auto simp: ce_rb_new_def split: if_splits)
  with rb have inv: "rb_inv rb" "rb_contents rb = []" "rb_capacity rb = per_cache_ringbuffer_size conf"
    using ce_rb_new_correct [of "nat (per_cache_ringbuffer_size conf)"] by auto
  have io: "io = \<lparr>io_conf = conf, io_dict = dictCreate (dictTypeHeapStrings (dict_hash_function_seed st)) (),
      io_stop = False, enqueue_fd_event = rb, push_fd_event = rb, io_jobs = [], io_heap = Map.empty\<rparr>"
    using assms rb by (auto simp: ce_io_new_def split: if_splits)
  have "dict_small (dictCreate (dictTypeHeapStrings seed :: (cstring, nat, unit) dictType) ())" for seed
    by (simp add: dict_small_def dict_sizes_le_def dictSize_def dictCreate_def)
  with pos show "io_ready io" by (simp add: io io_ready_def dictCreate_wf io_types_ok)
  show "\<not> io_stop io" "io_jobs io = []" "io_conf io = conf" by (simp_all add: io)
  show "dict_map (io_dict io) = Map.empty" by (simp add: io dictCreate_wf)
  show "rb_inv (enqueue_fd_event io)" "free_space (enqueue_fd_event io) = nat (per_cache_ringbuffer_size conf)"
    "rb_contents (push_fd_event io) = []"
    using inv by (simp_all add: io free_space_def)
  show "can_read (push_fd_event io) = 0" using length_rb_contents [OF inv(1)] inv(2) by (simp add: io)
qed

text \<open>Destroyed at once, it leaves nothing behind.\<close>

lemma ce_io_destory_new:
  assumes "ce_io_new st conf = Some io"
  shows "ce_io_destory casts (Some io) = Some (Map.empty, [])"
proof -
  have nxt: "\<exists>it. dictNext 0 0 (dictCreate ty ()) (dictGetSafeIterator 0) = Some ((dictCreate ty ())\<lparr>d_iterators := 1\<rparr>, it, None) \<and>
      it_safe it" for ty :: "(cstring, nat, unit) dictType"
    by (subst dictNext.simps) (simp add: dictGetSafeIterator_def dictGetIterator_def iter_open_def iter_bucket_def
        dictCreate_def dict_ht_def dictIsRehashing_def dictReset_def Let_def)
  obtain ty where d: "io_dict io = dictCreate ty ()" "io_jobs io = []" "io_heap io = Map.empty"
    using assms by (auto simp: ce_io_new_def split: if_splits Option.bind_splits)
  obtain it where it: "dictNext 0 0 (io_dict io) (dictGetSafeIterator 0) = Some ((io_dict io)\<lparr>d_iterators := 1\<rparr>, it, None)"
    "it_safe it"
    using nxt [of ty] d(1) by auto
  show ?thesis
    unfolding ce_io_destory_def
    by (subst destory_loop.simps) (simp add: it d(2,3) dictReleaseIterator_def run_jobs.simps)
qed

section \<open>Calls for a connection\<close>

text \<open>A connection that is in the dictionary, and its rings.\<close>

definition connected :: "ce_io \<Rightarrow> int \<Rightarrow> nat \<Rightarrow> ce_io_fd \<Rightarrow> bool" where
  "connected io fd a f \<longleftrightarrow> dict_wf (io_dict io) \<and> type_ok (io_dict io) \<and> \<not> io_stop io \<and> 0 < fd \<and>
     (case fd_key fd of None \<Rightarrow> False | Some key \<Rightarrow> dict_map (io_dict io) key = Some (Some a)) \<and>
     io_heap io a = Some f \<and> rb_inv (enqueue_buffer f) \<and> rb_inv (enqueue_fd_event io)"

text \<open>The entry of a connection is found; its ring, the event ring and the jobs may then be replaced.\<close>

lemma connected_findE:
  assumes con: "connected io fd a f"
  obtains key d1 loc e where "fd_key fd = Some key" "dictFind (io_dict io) key = Some (d1, Some loc)"
    "dict_entry_at d1 loc = Some e" "de_val e = Some a" "dict_map d1 = dict_map (io_dict io)"
    "\<forall>rb ev jobs. rb_inv rb \<longrightarrow> rb_inv ev \<longrightarrow>
       connected (io\<lparr>io_dict := d1, io_heap := (io_heap io)(a \<mapsto> f\<lparr>enqueue_buffer := rb\<rparr>), enqueue_fd_event := ev, io_jobs := jobs\<rparr>)
         fd a (f\<lparr>enqueue_buffer := rb\<rparr>)"
proof -
  obtain key where key: "fd_key fd = Some key" "dict_map (io_dict io) key = Some (Some a)"
    using con by (auto simp: connected_def split: option.splits)
  have wf: "dict_wf (io_dict io)" and ok: "type_ok (io_dict io)" using con by (simp_all add: connected_def)
  obtain d1 loc e where d1: "dictFind (io_dict io) key = Some (d1, Some loc)" "rehash_keeps (io_dict io) d1"
    "dict_entry_at d1 loc = Some e" "de_val e = Some a"
    using dictFind_found [OF wf ok key(2)] by auto
  note k = rehash_keepsD(1,3) [OF d1(2) wf]
  have "type_ok d1" using same_frame_cong [OF rehash_keepsD(2) [OF d1(2) wf]] ok by simp
  with con k key show thesis
    by (intro that [OF key(1) d1(1,3,4)]) (simp_all add: connected_def)
qed

text \<open>
  What \<open>ce_io_enqueue\<close> does once the entry's value is read for its key. The bytes go to the connection's ring as far as
  there is room, also when the call then fails.
\<close>

lemma ce_io_enqueue_ok:
  assumes con: "connected io fd a f" and len: "0 < len" "unat len \<le> length bytes"
  shows "\<exists>io' f' r. ce_io_enqueue As_meant (Some io) fd (Some bytes) len = Some (Some io', r) \<and>
    r = (unat len \<le> free_space (enqueue_buffer f) \<and> 8 \<le> free_space (enqueue_fd_event io)) \<and>
    connected io' fd a f' \<and> push_buffer f' = push_buffer f \<and> (\<forall>b. b \<noteq> a \<longrightarrow> io_heap io' b = io_heap io b) \<and>
    rb_contents (enqueue_buffer f') = rb_contents (enqueue_buffer f) @ take (min (unat len) (free_space (enqueue_buffer f))) bytes \<and>
    free_space (enqueue_buffer f') = free_space (enqueue_buffer f) - min (unat len) (free_space (enqueue_buffer f)) \<and>
    io_jobs io' = io_jobs io @ (if r then [Enqueue_job] else []) \<and>
    (r \<longrightarrow> rb_contents (enqueue_fd_event io') = rb_contents (enqueue_fd_event io) @ le_bytes 8 (int a) \<and>
         free_space (enqueue_fd_event io') = free_space (enqueue_fd_event io) - 8) \<and>
    dict_map (io_dict io') = dict_map (io_dict io)"
proof -
  obtain key d1 loc e where d1: "fd_key fd = Some key" "dictFind (io_dict io) key = Some (d1, Some loc)"
    "dict_entry_at d1 loc = Some e" "de_val e = Some a" "dict_map d1 = dict_map (io_dict io)"
    "\<forall>rb ev jobs. rb_inv rb \<longrightarrow> rb_inv ev \<longrightarrow>
       connected (io\<lparr>io_dict := d1, io_heap := (io_heap io)(a \<mapsto> f\<lparr>enqueue_buffer := rb\<rparr>), enqueue_fd_event := ev, io_jobs := jobs\<rparr>)
         fd a (f\<lparr>enqueue_buffer := rb\<rparr>)"
    using con by (rule connected_findE)
  note con' = d1(6) [rule_format]
  have go: "\<not> io_stop io" and fd: "0 < fd"
    and f: "io_heap io a = Some f" and inv: "rb_inv (enqueue_buffer f)" "rb_inv (enqueue_fd_event io)"
    using con by (simp_all add: connected_def)
  let ?n = "min (unat len) (free_space (enqueue_buffer f))"
  obtain rb where rb: "io_write (enqueue_buffer f) bytes (unat len) = Some (rb, ?n)" "rb_inv rb"
    "rb_contents rb = rb_contents (enqueue_buffer f) @ take ?n bytes" "free_space rb = free_space (enqueue_buffer f) - ?n"
    using io_write_ok [OF inv(1) len(2)] by auto
  let ?m = "min 8 (free_space (enqueue_fd_event io))"
  obtain ev where ev: "io_write (enqueue_fd_event io) (le_bytes 8 (int a)) 8 = Some (ev, ?m)" "rb_inv ev"
    "rb_contents ev = rb_contents (enqueue_fd_event io) @ take ?m (le_bytes 8 (int a))"
    "free_space ev = free_space (enqueue_fd_event io) - ?m"
    using io_write_ok [OF inv(2), of 8 "le_bytes 8 (int a)"] by auto
  let ?f = "f\<lparr>enqueue_buffer := rb\<rparr>"
  let ?io = "io\<lparr>io_dict := d1, io_heap := (io_heap io)(a \<mapsto> ?f)\<rparr>"
  have pos: "\<not> fd \<le> 0" "len \<noteq> 0" using fd len(1) by auto
  note run = ce_io_enqueue_def option.case prod.case pos go d1(1,2) Let_def entry_io_fd_def io_casts.case
  consider (full) "\<not> unat len \<le> free_space (enqueue_buffer f)"
    | (no_event) "unat len \<le> free_space (enqueue_buffer f)" "\<not> 8 \<le> free_space (enqueue_fd_event io)"
    | (ok) "unat len \<le> free_space (enqueue_buffer f)" "8 \<le> free_space (enqueue_fd_event io)"
    by blast
  then show ?thesis
  proof cases
    case full
    then have "ce_io_enqueue As_meant (Some io) fd (Some bytes) len = Some (Some ?io, False)"
      using f d1(3,4) rb(1) by (simp add: run)
    then show ?thesis
      using full con' [OF rb(2) inv(2), of "io_jobs io"] rb(3,4) d1(5) by (intro exI [of _ ?io] exI [of _ ?f] exI [of _ False]) simp
  next
    case no_event
    then have "ce_io_enqueue As_meant (Some io) fd (Some bytes) len = Some (Some (?io\<lparr>enqueue_fd_event := ev\<rparr>), False)"
      using f d1(3,4) rb(1) ev(1) by (simp add: run min_def)
    then show ?thesis
      using no_event con' [OF rb(2) ev(2), of "io_jobs io"] rb(3,4) d1(5)
      by (intro exI [of _ "?io\<lparr>enqueue_fd_event := ev\<rparr>"] exI [of _ ?f] exI [of _ False]) simp
  next
    case ok
    then have "ce_io_enqueue As_meant (Some io) fd (Some bytes) len =
        Some (Some (?io\<lparr>enqueue_fd_event := ev, io_jobs := io_jobs io @ [Enqueue_job]\<rparr>), True)"
      using f d1(3,4) rb(1) ev(1) by (simp add: run min_def)
    then show ?thesis
      using ok con' [OF rb(2) ev(2), of "io_jobs io @ [Enqueue_job]"] rb(3,4) ev(3,4) d1(5)
      by (intro exI [of _ "?io\<lparr>enqueue_fd_event := ev, io_jobs := io_jobs io @ [Enqueue_job]\<rparr>"] exI [of _ ?f] exI [of _ True])
        (simp add: min_def)
  qed
qed

text \<open>Pushing, when there is room: the length and the bytes are put behind what was received from the same connection.\<close>

lemma ce_io_push_ok:
  assumes con: "connected io fd a f" and len: "0 < len" "unat len \<le> length bytes"
    and room: "unat len + 2 \<le> free_space (enqueue_buffer f)"
  shows "\<exists>io' f'. ce_io_push As_meant (Some io) t fd (Some bytes) len = Some (Some io', True) \<and> connected io' fd a f' \<and>
    rb_contents (enqueue_buffer f') = rb_contents (enqueue_buffer f) @ le_bytes 2 (int (unat len)) @ take (unat len) bytes \<and>
    io_fd_fd f' = io_fd_fd f \<and> push_buffer f' = push_buffer f \<and> io_jobs io' = io_jobs io @ [Enqueue_job] \<and>
    push_fd_event io' = push_fd_event io \<and> enqueue_fd_event io' = enqueue_fd_event io"
proof -
  obtain key d1 loc e where d1: "fd_key fd = Some key" "dictFind (io_dict io) key = Some (d1, Some loc)"
    "dict_entry_at d1 loc = Some e" "de_val e = Some a" "dict_map d1 = dict_map (io_dict io)"
    "\<forall>rb ev jobs. rb_inv rb \<longrightarrow> rb_inv ev \<longrightarrow>
       connected (io\<lparr>io_dict := d1, io_heap := (io_heap io)(a \<mapsto> f\<lparr>enqueue_buffer := rb\<rparr>), enqueue_fd_event := ev, io_jobs := jobs\<rparr>)
         fd a (f\<lparr>enqueue_buffer := rb\<rparr>)"
    using con by (rule connected_findE)
  note con' = d1(6) [rule_format]
  have go: "\<not> io_stop io" and fd: "0 < fd"
    and f: "io_heap io a = Some f" and inv: "rb_inv (enqueue_buffer f)" "rb_inv (enqueue_fd_event io)"
    using con by (simp_all add: connected_def)
  obtain e1 where e1: "io_write (enqueue_buffer f) (le_bytes 2 (int (unat len))) 2 = Some (e1, 2)" "rb_inv e1"
    "rb_contents e1 = rb_contents (enqueue_buffer f) @ le_bytes 2 (int (unat len))"
    "free_space e1 = free_space (enqueue_buffer f) - 2"
    using io_write_ok [OF inv(1), of 2 "le_bytes 2 (int (unat len))"] room by auto
  obtain e2 where e2: "io_write e1 bytes (unat len) = Some (e2, unat len)" "rb_inv e2"
    "rb_contents e2 = rb_contents e1 @ take (unat len) bytes"
    using io_write_ok [OF e1(2) len(2)] e1(4) room by auto
  have pos: "\<not> fd \<le> 0" "len \<noteq> 0" using fd len(1) by auto
  let ?f = "f\<lparr>enqueue_buffer := e2\<rparr>"
  let ?io = "io\<lparr>io_dict := d1, io_heap := (io_heap io)(a \<mapsto> ?f), io_jobs := io_jobs io @ [Enqueue_job]\<rparr>"
  have "ce_io_push As_meant (Some io) t fd (Some bytes) len = Some (Some ?io, True)"
    using f d1(3,4) e1(1) e2(1)
    by (simp add: ce_io_push_def pos go d1(1,2) Let_def entry_io_fd_def)
  moreover have "connected ?io fd a ?f" using con' [OF e2(2) inv(2), of "io_jobs io @ [Enqueue_job]"] by simp
  ultimately show ?thesis
    using e1(3) e2(3) by (intro exI [of _ ?io] exI [of _ ?f]) simp
qed

text \<open>A connection just added to a packet layer in order.\<close>

lemma ce_io_add_connected:
  assumes "io_ready io" "\<not> io_stop io" "fd_key fd = Some key" "dict_map (io_dict io) key = None" "0 < fd"
    and "rb_inv (enqueue_fd_event io)"
  shows "\<exists>d' f. ce_io_add st a io fd = Some (io\<lparr>io_dict := d', io_heap := (io_heap io)(a \<mapsto> f)\<rparr>, True) \<and>
    connected (io\<lparr>io_dict := d', io_heap := (io_heap io)(a \<mapsto> f)\<rparr>) fd a f \<and>
    dict_map d' = (dict_map (io_dict io))(key \<mapsto> Some a) \<and> io_fresh fd (per_cache_ringbuffer_size (io_conf io)) f"
proof -
  obtain d' f where add: "ce_io_add st a io fd = Some (io\<lparr>io_dict := d', io_heap := (io_heap io)(a \<mapsto> f)\<rparr>, True)"
    "dict_wf d'" "type_ok d'" "io_fresh fd (per_cache_ringbuffer_size (io_conf io)) f"
    "dict_map d' = (dict_map (io_dict io))(key \<mapsto> Some a)"
    using ce_io_add_ok [OF assms(1-3), of st a] assms(4) by auto
  with assms(2,3,5,6) have "connected (io\<lparr>io_dict := d', io_heap := (io_heap io)(a \<mapsto> f)\<rparr>) fd a f"
    by (simp add: connected_def io_fresh_def)
  with add show ?thesis by blast
qed

text \<open>
  The loop of \<open>ce_io_destory\<close>, \<open>stop\<close> being set, changes nothing: each call of \<open>ce_io_del\<close> refuses.
\<close>

definition io_entries_ok :: "ce_io \<Rightarrow> bool" where
  "io_entries_ok io \<longleftrightarrow> (\<forall>k v. dict_map (io_dict io) k = Some v \<longrightarrow> v \<noteq> None \<and> io_heap io (the v) \<noteq> None)"

lemma destory_loop_meant:
  assumes "next_result 0 0 d0 it (io_dict io) it0 todo" "dict_wf (io_dict io)" "set todo \<subseteq> set (dict_entries (io_dict io))"
    "io_entries_ok io" "io_stop io" "io' = io\<lparr>io_dict := d0\<rparr>"
  shows "\<exists>it'. destory_loop As_meant io' it = Some (io, it') \<and> it_frame it0 it' \<and> 0 \<le> it_index it'"
  using assms
proof (induction todo arbitrary: d0 it it0 io')
  case Nil
  then obtain it' where "dictNext 0 0 d0 it = Some (io_dict io, it', None)" "it_frame it0 it'" "0 \<le> it_index it'"
    by (auto simp: next_result_def)
  with Nil.prems(6) show ?case by (subst destory_loop.simps) simp
next
  case (Cons e todo)
  obtain it1 where it1: "dictNext 0 0 d0 it = Some (io_dict io, it1, Some (de_key e))" "it_frame it0 it1"
    "iter_inv (io_dict io) it1 todo"
    using Cons.prems(1) by (auto simp: next_result_def)
  have "Entry (de_key e) (de_val e) \<in> set (dict_entries (io_dict io))" using Cons.prems(3) by simp
  then have "dict_map (io_dict io) (de_key e) = Some (de_val e)"
    using dict_map_Some_iff [of "io_dict io"] Cons.prems(2) by (auto simp: dict_wf_def)
  with Cons.prems(4) obtain a f where a: "dict_map (io_dict io) (de_key e) = Some (Some a)" "io_heap io a = Some f"
    by (force simp: io_entries_ok_def)
  have del: "ce_io_del As_meant (Some io) fd = Some (Some io, False)" for fd
    using Cons.prems(5) by (simp add: ce_io_del_def)
  have "set todo \<subseteq> set (dict_entries (io_dict io))" using Cons.prems(3) by simp
  from Cons.IH [OF next_from_entry [OF it1(3)] Cons.prems(2) this Cons.prems(4,5), of io] obtain it' where
    "destory_loop As_meant io it1 = Some (io, it')" "it_frame it1 it'" "0 \<le> it_index it'"
    by auto
  with it1(1,2) a del Cons.prems(6) show ?case
    by (subst destory_loop.simps) (auto simp: iter_io_fd_def intro: it_frame_trans)
qed

lemma destory_start:
  fixes d :: "(cstring, nat, unit) dict"
  assumes "dict_wf d"
  shows "next_result 0 0 d (dictGetSafeIterator g) (d\<lparr>d_iterators := d_iterators d + 1\<rparr>) (dictGetSafeIterator g) (dict_entries d)"
proof -
  let ?d = "d\<lparr>d_iterators := d_iterators d + 1\<rparr>" and ?it = "dictGetSafeIterator g :: cstring dictIterator"
  have "iter_open 0 0 d ?it = (?d, ?it)" "it_entry ?it = None" "dict_wf ?d" "it_ok ?d ?it" "opened ?d ?it = 0"
    using assms by (simp_all add: iter_open_def dictGetSafeIterator_def dictGetIterator_def it_ok_def opened_def)
  from next_from_bucket [OF this(1-4)] this(5) show ?thesis by (simp add: concat_chains)
qed

lemma ce_io_destory_meant:
  assumes "dict_wf (io_dict io)" "io_entries_ok io" "io_jobs io = []"
  shows "ce_io_destory As_meant (Some io) = Some (io_heap io, [])"
proof -
  let ?d = "(io_dict io)\<lparr>d_iterators := d_iterators (io_dict io) + 1\<rparr>"
  obtain it where it: "destory_loop As_meant (io\<lparr>io_stop := True\<rparr>) (dictGetSafeIterator 0) =
      Some (io\<lparr>io_stop := True, io_dict := ?d\<rparr>, it)" "it_frame (dictGetSafeIterator 0) it" "0 \<le> it_index it"
    using destory_loop_meant [of "io_dict io" "dictGetSafeIterator 0" "io\<lparr>io_stop := True, io_dict := ?d\<rparr>"
        "dictGetSafeIterator 0" "dict_entries (io_dict io)" "io\<lparr>io_stop := True\<rparr>"]
      destory_start [OF assms(1), of 0] assms(1,2)
    by (auto simp: io_entries_ok_def)
  have "it_safe it" using it(2) by (simp add: it_frame_def dictGetSafeIterator_def)
  with it assms(3) show ?thesis
    by (simp add: ce_io_destory_def dictReleaseIterator_def run_jobs.simps)
qed

lemma ce_io_destory_written:
  assumes "dict_wf (io_dict io)" "dict_map (io_dict io) \<noteq> Map.empty"
  shows "ce_io_destory As_written (Some io) = None"
proof -
  have "dict_entries (io_dict io) \<noteq> []" using assms(2) by (auto simp: dict_map_def)
  then obtain d' it' k where "dictNext 0 0 (io_dict io) (dictGetSafeIterator 0) = Some (d', it', Some k)"
    using destory_start [OF assms(1), of 0] by (cases "dict_entries (io_dict io)") (auto simp: next_result_def)
  then have "destory_loop As_written (io\<lparr>io_stop := True\<rparr>) (dictGetSafeIterator 0) = None"
    by (subst destory_loop.simps) (simp add: iter_io_fd_def)
  then show ?thesis by (simp add: ce_io_destory_def)
qed

lemma unat_length:
  "length bytes < 2 ^ 16 \<Longrightarrow> unat (word_of_nat (length bytes) :: packet_len_t) = length bytes"
  by (simp add: unsigned_of_nat take_bit_nat_eq_self)

lemma word_of_length_pos:
  assumes "bytes \<noteq> []" "length bytes < 2 ^ 16"
  shows "(0 :: packet_len_t) < word_of_nat (length bytes)"
  using unat_length [OF assms(2)] assms(1) by (simp add: word_less_nat_alt del: unat_of_nat)

text \<open>As the code is written, every call that finds its descriptor is undefined.\<close>

lemma calls_undefined:
  assumes "connected io fd a f"
  shows "0 < len \<Longrightarrow> ce_io_enqueue As_written (Some io) fd (Some bytes) len = None"
    "0 < len \<Longrightarrow> ce_io_push As_written (Some io) ty fd (Some bytes) len = None"
    "ce_io_del As_written (Some io) fd = None"
proof -
  obtain key where key: "fd_key fd = Some key" "dict_map (io_dict io) key = Some (Some a)"
    using assms by (auto simp: connected_def split: option.splits)
  have io: "dict_wf (io_dict io)" "type_ok (io_dict io)" "\<not> io_stop io" "0 < fd"
    using assms by (simp_all add: connected_def)
  obtain d1 loc where d1: "dictFind (io_dict io) key = Some (d1, Some loc)"
    using dictFind_found [OF io(1,2) key(2)] by auto
  with key(1) io(3,4) show "0 < len \<Longrightarrow> ce_io_enqueue As_written (Some io) fd (Some bytes) len = None"
    "0 < len \<Longrightarrow> ce_io_push As_written (Some io) ty fd (Some bytes) len = None"
    "ce_io_del As_written (Some io) fd = None"
    by (auto simp: ce_io_enqueue_def ce_io_push_def ce_io_del_def Let_def entry_io_fd_def)
qed

section \<open>A sample\<close>

definition sample_conf :: ce_conf where
  "sample_conf = \<lparr>on_accept = True, on_received = True, on_exception = True, on_close = True,
     per_max_packet_body_size = 64, per_cache_ringbuffer_size = 256, conf_workers = 1, conf_ip = [49, 0], conf_port = 80,
     conf_timeout = 0, conf_keepalive = 0, conf_heartbeat = 1\<rparr>"

lemma sample_io_new:
  "\<exists>io. ce_io_new dict_statics_start sample_conf = Some io \<and> io_ready io \<and> \<not> io_stop io \<and>
     dict_map (io_dict io) = Map.empty \<and> rb_inv (enqueue_fd_event io) \<and> free_space (enqueue_fd_event io) = 256"
proof -
  obtain rb where "ce_rb_new 256 = Some rb" using ce_rb_new_correct [of 256] by auto
  then obtain io where io: "ce_io_new dict_statics_start sample_conf = Some io"
    by (simp add: ce_io_new_def sample_conf_def)
  from io ce_io_new_ready [OF io] show ?thesis by (simp add: sample_conf_def)
qed

lemma fd_key_5: "fd_key 5 = Some (cstring_of [5])"
  by (simp add: fd_key_def le_bytes_def c_string_at_def upt_rec)

text \<open>Descriptors that differ by a multiple of 256 have one key, the empty string, if they are multiples of 256.\<close>

lemma fd_key_collision: "fd_key 256 = Some (cstring_of [])" "fd_key 512 = Some (cstring_of [])"
  by (simp_all add: fd_key_def le_bytes_def c_string_at_def upt_rec)

lemma sample_io_added:
  "\<exists>io io' f. ce_io_new dict_statics_start sample_conf = Some io \<and> ce_io_add dict_statics_start 7 io 5 = Some (io', True) \<and>
     connected io' 5 7 f \<and> rb_contents (enqueue_buffer f) = [] \<and> free_space (enqueue_buffer f) = 256 \<and>
     free_space (enqueue_fd_event io') = 256 \<and> io_jobs io' = [] \<and> io_entries_ok io'"
proof -
  obtain io where io: "ce_io_new dict_statics_start sample_conf = Some io" "free_space (enqueue_fd_event io) = 256"
    using sample_io_new by blast
  note new = ce_io_new_ready [OF io(1)]
  have "0 < (5 :: int)" by simp
  from ce_io_add_connected [OF new(1,2) fd_key_5 _ this new(6), of dict_statics_start 7] new(3,4,5) io
  show ?thesis by (fastforce simp: io_fresh_def free_space_def sample_conf_def io_entries_ok_def)
qed

end
