(* ===== verification/Ce_Io_Properties.thy ===== *)
theory Ce_Io_Properties
  imports Ce_Io "HOL-Library.Sublist"
begin

text \<open>
  What holds of the packet layer: the loops over the received and the outgoing bytes, what happens to a connection's
  bytes, and that the processors never run on anything.
\<close>

section \<open>What the program can rely on\<close>

lemma parse_packets_bounds:
  "parse_packets limit bs = (ps, rest, e) \<Longrightarrow>
     suffix rest bs \<and> length ps \<le> 1 \<and> (ps \<noteq> [] \<longrightarrow> e = Drained) \<and>
     (\<forall>p\<in>set ps. p \<noteq> [] \<and> length p \<le> unat limit \<and> suffix p bs)"
proof (induction limit bs rule: parse_packets.induct)
  case (1 limit b0 b1 tail)
  define len where "len = (word_of_nat (le_value [b0, b1]) :: packet_len_t)"
  have s: "suffix tail (b0 # b1 # tail)" by (simp add: suffix_Cons)
  consider "tail = []" | "tail \<noteq> []" "len = 0" | "tail \<noteq> []" "len \<noteq> 0" "limit < len"
    | "tail \<noteq> []" "len \<noteq> 0" "\<not> limit < len" "unat len < length tail"
    | "tail \<noteq> []" "len \<noteq> 0" "\<not> limit < len" "\<not> unat len < length tail" by blast
  then show ?case
  proof cases
    case a: 2
    then have "parse_packets limit tail = (ps, rest, e)"
      using 1(2) by (simp add: len_def Let_def del: le_value.simps)
    from 1(1) [OF a(1) refl _ this] a(2) have
      "suffix rest tail \<and> length ps \<le> 1 \<and> (ps \<noteq> [] \<longrightarrow> e = Drained) \<and>
       (\<forall>p\<in>set ps. p \<noteq> [] \<and> length p \<le> unat limit \<and> suffix p tail)"
      by (simp add: len_def)
    with s show ?thesis by (blast intro: suffix_order.trans)
  next
    case b: 5
    then have "length tail \<le> unat limit" by (simp add: word_less_nat_alt)
    moreover have "(ps, rest, e) = ([tail], [], Drained)" using 1(2) b by (simp add: len_def Let_def del: le_value.simps)
    ultimately show ?thesis using b(1) s by simp
  qed (use 1(2) s in \<open>auto simp: len_def Let_def simp del: le_value.simps\<close>)
qed auto

text \<open>
  C22: The loop over the received bytes returns, hands on at most one packet, which is not empty, no longer than the
  limit and made of the last bytes received, and reports an illegal packet exactly when it then deletes the
  connection; what stays in the buffer is the end of what was there.
\<close>

theorem packet_loop_bounds:
  assumes "rb_inv (enqueue_buffer f)"
  shows "\<exists>f' evs illegal. packet_loop limit f = Some (f', evs, illegal) \<and> rb_inv (enqueue_buffer f') \<and>
    push_buffer f' = push_buffer f \<and> length evs \<le> 1 \<and>
    suffix (rb_contents (enqueue_buffer f')) (rb_contents (enqueue_buffer f)) \<and>
    (\<forall>ev\<in>set evs. case ev of
        On_received fd data \<Rightarrow> \<not> illegal \<and> fd = io_fd_fd f \<and> data \<noteq> [] \<and> length data \<le> unat limit \<and>
          suffix data (rb_contents (enqueue_buffer f))
      | On_exception fd x \<Rightarrow> illegal \<and> fd = io_fd_fd f \<and> x = ce_packet_illegal
      | Sent fd data \<Rightarrow> False) \<and>
    (illegal \<longrightarrow> evs \<noteq> [])"
proof -
  obtain ps rest e where p: "parse_packets limit (rb_contents (enqueue_buffer f)) = (ps, rest, e)"
    by (cases "parse_packets limit (rb_contents (enqueue_buffer f))") auto
  note b = parse_packets_bounds [OF p]
  from packet_loop_parse [OF assms p] b show ?thesis
    by (cases "e = Illegal"; cases ps) (auto split: if_splits)
qed

definition sample_rb :: "u8 list \<Rightarrow> ce_rb" where
  "sample_rb bytes = (case ce_rb_new 16 of Some rb \<Rightarrow> (case rb_put rb bytes of Some (rb', _) \<Rightarrow> rb'))"

lemma sample_rb_ok:
  assumes "length bytes \<le> 16"
  shows "rb_inv (sample_rb bytes)" "rb_contents (sample_rb bytes) = bytes"
proof -
  obtain rb where rb: "ce_rb_new 16 = Some rb" "rb_inv rb" "rb_contents rb = []" "rb_capacity rb = 16"
    using ce_rb_new_correct [of 16] by auto
  with rb_put_law [OF rb(2), of bytes] assms show "rb_inv (sample_rb bytes)" "rb_contents (sample_rb bytes) = bytes"
    by (auto simp: sample_rb_def)
qed

definition sample_fd :: "u8 list \<Rightarrow> u8 list \<Rightarrow> ce_io_fd" where
  "sample_fd received pushed =
     \<lparr>io_fd_fd = 5, enqueue_buffer = sample_rb received, enqueue_cache_body_size = 0, push_buffer = sample_rb pushed\<rparr>"

lemma sample_fd_ok:
  "length received \<le> 16 \<Longrightarrow> rb_inv (enqueue_buffer (sample_fd received pushed))"
  "length received \<le> 16 \<Longrightarrow> rb_contents (enqueue_buffer (sample_fd received pushed)) = received"
  "length pushed \<le> 16 \<Longrightarrow> rb_inv (push_buffer (sample_fd received pushed))"
  "length pushed \<le> 16 \<Longrightarrow> rb_contents (push_buffer (sample_fd received pushed)) = pushed"
  by (simp_all add: sample_fd_def sample_rb_ok)

theorem packet_loop_bounds_witness:
  "\<exists>f' evs illegal. packet_loop 4 (sample_fd [3, 0, 7, 8] []) = Some (f', evs, illegal) \<and> length evs \<le> 1"
  using packet_loop_bounds [of "sample_fd [3, 0, 7, 8] []" 4] sample_fd_ok(1) [of "[3, 0, 7, 8]" "[]"] by auto

lemma parse_one_packet:
  assumes "0 < n" "n \<le> unat limit" "received \<noteq> []"
  shows "parse_packets limit (le_bytes 2 (int n) @ received) =
    (if length received \<le> n then ([received], [], Drained) else ([], received, Incomplete (word_of_nat n)))"
proof -
  have "unat limit < 2 ^ 16" by (rule order.strict_trans2 [OF unsigned_less]) simp
  with assms(2) have n: "n < 2 ^ 16" by linarith
  obtain b0 b1 where b: "le_bytes 2 (int n) = [b0, b1]" by (simp add: le_bytes_def upt_rec numeral_2_eq_2)
  have v: "le_value [b0, b1] = n" using le_value_le_bytes [of 2 n] n by (simp add: b del: le_value.simps)
  have u: "unat (word_of_nat n :: packet_len_t) = n" using n by (simp add: unsigned_of_nat take_bit_nat_eq_self)
  have "(word_of_nat n :: packet_len_t) \<noteq> 0" using u assms(1) by auto
  moreover have "\<not> limit < word_of_nat n" using u assms(2) by (simp add: word_less_nat_alt)
  ultimately show ?thesis using assms(3) by (simp add: b v u Let_def not_le del: le_value.simps)
qed

text \<open>
  C21: What the loop does with a length prefix and some of the bytes that follow it: a packet of which the end is still
  missing is handed on as if it were complete, and when more bytes are there than the packet has, nothing is
  handed on and the prefix is gone, so that the packet's first two bytes are read as a length next time. Only a buffer
  that ends with the packet is treated as the framing demands.
\<close>

theorem packet_delivery:
  assumes "rb_inv (enqueue_buffer f)" "rb_contents (enqueue_buffer f) = le_bytes 2 (int n) @ received"
    and "0 < n" "n \<le> unat limit" "received \<noteq> []"
  shows "\<exists>f'. packet_loop limit f =
      Some (f', if length received \<le> n then [On_received (io_fd_fd f) received] else [], False) \<and>
    rb_contents (enqueue_buffer f') = (if length received \<le> n then [] else received)"
  using packet_loop_parse [OF assms(1), of limit, unfolded assms(2) parse_one_packet [OF assms(3-5)]]
  by (auto split: if_splits)

theorem packet_delivery_witness:
  "(\<exists>f'. packet_loop 9 (sample_fd [4, 0, 1, 2] []) = Some (f', [On_received 5 [1, 2]], False)) \<and>
   (\<exists>f'. packet_loop 9 (sample_fd [2, 0, 1, 2, 3] []) = Some (f', [], False) \<and>
      rb_contents (enqueue_buffer f') = [1, 2, 3])"
proof -
  have le: "le_bytes 2 (int 4) = [4, 0]" "le_bytes 2 (int 2) = [2, 0]" by (simp_all add: le_bytes_def upt_rec)
  have fd: "io_fd_fd (sample_fd r p) = 5" for r p by (simp add: sample_fd_def)
  show ?thesis
    using packet_delivery [of "sample_fd [4, 0, 1, 2] []" 4 "[1, 2]" 9] packet_delivery [of "sample_fd [2, 0, 1, 2, 3] []" 2 "[1, 2, 3]" 9]
      sample_fd_ok(1,2) [of "[4, 0, 1, 2]" "[]"] sample_fd_ok(1,2) [of "[2, 0, 1, 2, 3]" "[]"] le
    by (auto simp: fd)
qed

text \<open>
  C23: Sending, to a socket that takes all it is given. Fewer than \<open>2 ^ 16\<close> bytes are sent whole. From there on the length
  of a piece does not fit the 16 bits it is passed in: the piece is cut off, and what was sent counts as an error, after
  which the connection is deleted.
\<close>

theorem send_pieces:
  assumes "rb_inv (push_buffer f)" "rb_contents (push_buffer f) = c" "c \<noteq> []" "takes_all send"
  shows "\<exists>f'. send_loop send f =
      Some (f', if length c < 2 ^ 16 then [Sent (io_fd_fd f) c]
                else [Sent (io_fd_fd f) (take (min (length c) CE_SEND_PER_SIZE mod 2 ^ 16) c),
                      On_exception (io_fd_fd f) ce_packet_send_error],
            2 ^ 16 \<le> length c) \<and>
    rb_contents (push_buffer f') = (if length c < 2 ^ 16 then [] else drop CE_SEND_PER_SIZE c)"
proof (cases "length c < 2 ^ 16")
  case True
  with send_loop_all [OF assms(1-3) True assms(4)] show ?thesis by (simp only: if_True not_le [symmetric] if_False simp_thms)
next
  case False
  then have "2 ^ 16 \<le> length c" by linarith
  from send_loop_long [OF assms(1,2) this assms(4)] False this show ?thesis by (simp only: if_False simp_thms)
qed

theorem send_pieces_witness:
  "\<exists>f'. send_loop (\<lambda>fd data. int (length data)) (sample_fd [] [1, 2, 3]) = Some (f', [Sent 5 [1, 2, 3]], False) \<and>
    rb_contents (push_buffer f') = []"
  using send_pieces [of "sample_fd [] [1, 2, 3]" "[1, 2, 3]" "\<lambda>fd data. int (length data)"]
    sample_fd_ok(3,4) [of "[1, 2, 3]" "[]"]
  by (simp add: takes_all_def sample_fd_def)

text \<open>
  Whatever the program does after \<open>ce_io_new\<close>, under either reading of the casts, no packet is ever handed on, nothing
  is sent and no error is reported: the processors wait for \<open>push_fd_event\<close>, which stays empty because
  the calls write to \<open>enqueue_fd_event\<close> instead.
\<close>

lemma ce_io_inert:
  assumes "ce_io_new st conf = Some io" "io_run casts io ops = Some (io', evs)"
  shows "evs = [] \<and> rb_contents (push_fd_event io') = []"
  using io_run_quiet [OF _ assms(2)] ce_io_new_ready(8,9) [OF assms(1)] by simp

text \<open>
  After a successful \<open>ce_io_add\<close> every call that finds the new descriptor is undefined behaviour as the code is
  written: \<open>ce_io_enqueue\<close>, \<open>ce_io_push\<close> and \<open>ce_io_del\<close> all use the entry's key as the address of its value.
\<close>

lemma ce_io_undefined_after_add:
  assumes "io_ready io" "\<not> io_stop io" "fd_key fd = Some key" "dict_map (io_dict io) key = None" "0 < fd" "0 < len"
    and "rb_inv (enqueue_fd_event io)"
  shows "\<exists>io'. ce_io_add st a io fd = Some (io', True) \<and> dict_map (io_dict io') key = Some (Some a) \<and>
    ce_io_enqueue As_written (Some io') fd (Some bytes) len = None \<and>
    ce_io_push As_written (Some io') ty fd (Some bytes) len = None \<and>
    ce_io_del As_written (Some io') fd = None"
proof -
  obtain d' f where add: "ce_io_add st a io fd = Some (io\<lparr>io_dict := d', io_heap := (io_heap io)(a \<mapsto> f)\<rparr>, True)"
    "connected (io\<lparr>io_dict := d', io_heap := (io_heap io)(a \<mapsto> f)\<rparr>) fd a f" "dict_map d' key = Some (Some a)"
    using ce_io_add_connected [OF assms(1-5,7), of st a] by auto
  with calls_undefined [OF add(2)] assms(6) show ?thesis by simp
qed


section \<open>Witnesses for connections\<close>


lemma ce_io_undefined_after_add_witness:
  "\<exists>io io'. ce_io_new dict_statics_start sample_conf = Some io \<and> ce_io_add dict_statics_start 7 io 5 = Some (io', True) \<and>
     ce_io_enqueue As_written (Some io') 5 (Some [1, 2]) 2 = None \<and> ce_io_del As_written (Some io') 5 = None"
proof -
  obtain io where io: "ce_io_new dict_statics_start sample_conf = Some io" "io_ready io" "\<not> io_stop io"
    "dict_map (io_dict io) = Map.empty" "rb_inv (enqueue_fd_event io)"
    using sample_io_new by blast
  with ce_io_undefined_after_add [OF io(2,3) fd_key_5, of 2 dict_statics_start 7 "[1, 2]" ce_push_fd] show ?thesis by auto
qed

lemma ce_io_inert_witness:
  "\<exists>io io' io''. ce_io_new dict_statics_start sample_conf = Some io \<and>
     io_run As_meant io [Io_add dict_statics_start 7 5, Io_job] = Some (io', []) \<and>
     ce_io_add dict_statics_start 7 io 5 = Some (io'', True)"
proof -
  obtain io where io: "ce_io_new dict_statics_start sample_conf = Some io" "io_ready io" "\<not> io_stop io"
    "dict_map (io_dict io) = Map.empty"
    using sample_io_new by blast
  obtain io'' where add: "ce_io_add dict_statics_start 7 io 5 = Some (io'', True)"
    using ce_io_add_ok [OF io(2,3) fd_key_5, of dict_statics_start 7] io(4) by auto
  moreover have "io_jobs io'' = []"
    using add io(1) by (auto simp: ce_io_add_def ce_io_new_def split: if_splits option.splits Option.bind_splits)
  ultimately have "\<exists>evs io'. io_run As_meant io [Io_add dict_statics_start 7 5, Io_job] = Some (io', evs)"
    by (simp add: run_job_def)
  with ce_io_inert [OF io(1), of As_meant "[Io_add dict_statics_start 7 5, Io_job]"] io(1) add show ?thesis by fastforce
qed

end
