(* ===== verification/Ce_Io_Threads.thy ===== *)
theory Ce_Io_Threads
  imports Ce_Io
begin

text \<open>
  The threads and locks of \<^verbatim>\<open>cevent/ce_io.c\<close>. Here the jobs of the pool run at the same time as each other and as
  the calls of the program: each processor is a program counter and a function that does its next step, and the system takes
  a step of any thread or a call of the program (\<open>io_reach\<close>). Steps of their own are every lock, unlock and destroy, the
  reading of an event, the reading of a length, the test of it with the reading and handing on of a packet, the reading and
  sending of a piece, and every release. A call of the program takes no lock in the code; it is one step here, so that what
  two accesses to the same ring do to each other half way is left out. The data are the state of Ce_Io.

  The end of the theory shows that a processor run alone does what the function of Ce_Io does; Ce_Io_Locks has what holds
  of all interleavings.
\<close>

section \<open>State\<close>

text \<open>A mutex: \<open>Locked t\<close> is held by the thread \<open>t\<close>. A lock of one that is held blocks.\<close>

datatype io_mutex = Unlocked | Locked nat | Destroyed

text \<open>The locks of a \<open>ce_io_fd_t\<close>, and which of its two rings was freed and set to NULL.\<close>

record io_sync =
  enqueue_lock :: io_mutex
  enqueue_null :: bool
  push_lock :: io_mutex
  push_null :: bool

definition new_sync :: io_sync where
  "new_sync = \<lparr>enqueue_lock = Unlocked, enqueue_null = False, push_lock = Unlocked, push_null = False\<rparr>"

text \<open>Where a thread is in a processor; the number is the address in its variable \<open>io_fd\<close>.\<close>

datatype enqueue_pc =
    Enq_test | Enq_lock nat | Enq_loop nat | Enq_head nat packet_len_t | Enq_illegal nat | Enq_unlock nat

datatype push_pc = Push_test | Push_lock nat | Push_loop nat | Push_failed nat | Push_unlock nat

datatype delete_pc =
    Del_lock_enqueue | Del_free_enqueue | Del_unlock_enqueue | Del_destroy_enqueue
  | Del_lock_push | Del_free_push | Del_unlock_push | Del_destroy_push | Del_free

datatype io_pc = Io_idle | In_enqueue enqueue_pc | In_push push_pc | In_delete nat delete_pc

record io_sys =
  sys_io :: ce_io
  sys_sync :: "nat \<Rightarrow> io_sync"
  sys_pc :: "nat \<Rightarrow> io_pc"

definition sys_start :: "ce_io \<Rightarrow> io_sys" where
  "sys_start io = \<lparr>sys_io = io, sys_sync = (\<lambda>_. new_sync), sys_pc = (\<lambda>_. Io_idle)\<rparr>"

section \<open>Steps\<close>

text \<open>A step goes on to a new state and tells events, blocks on a lock, or is undefined.\<close>

datatype io_out = Blocks | Fault | Goes io_sys "io_event list"

definition attempt :: "'a option \<Rightarrow> ('a \<Rightarrow> io_out) \<Rightarrow> io_out" where
  "attempt x k = (case x of None \<Rightarrow> Fault | Some y \<Rightarrow> k y)"

fun mutex_lock :: "nat \<Rightarrow> io_mutex \<Rightarrow> (io_mutex \<Rightarrow> io_out) \<Rightarrow> io_out" where
  "mutex_lock t Unlocked k = k (Locked t)"
| "mutex_lock t (Locked u) k = Blocks"
| "mutex_lock t Destroyed k = Fault"

definition mutex_unlock :: "nat \<Rightarrow> io_mutex \<Rightarrow> (io_mutex \<Rightarrow> io_out) \<Rightarrow> io_out" where
  "mutex_unlock t m k = (if m = Locked t then k Unlocked else Fault)"

definition mutex_destroy :: "io_mutex \<Rightarrow> (io_mutex \<Rightarrow> io_out) \<Rightarrow> io_out" where
  "mutex_destroy m k = (if m = Unlocked then k Destroyed else Fault)"

definition at_pc :: "nat \<Rightarrow> io_pc \<Rightarrow> io_sys \<Rightarrow> io_sys" where
  "at_pc t c s = s\<lparr>sys_pc := (sys_pc s)(t := c)\<rparr>"

definition go :: "nat \<Rightarrow> io_pc \<Rightarrow> io_sys \<Rightarrow> io_out" where
  "go t c s = Goes (at_pc t c s) []"

definition tell :: "io_event \<Rightarrow> io_out \<Rightarrow> io_out" where
  "tell ev out = (case out of Goes s evs \<Rightarrow> Goes s (ev # evs) | _ \<Rightarrow> out)"

text \<open>The object a thread follows its pointer to, and storing back its fields.\<close>

definition with_fd :: "io_sys \<Rightarrow> nat \<Rightarrow> (ce_io_fd \<Rightarrow> io_out) \<Rightarrow> io_out" where
  "with_fd s a = attempt (io_heap (sys_io s) a)"

definition set_fd :: "io_sys \<Rightarrow> nat \<Rightarrow> ce_io_fd \<Rightarrow> io_sys" where
  "set_fd s a f = s\<lparr>sys_io := (sys_io s)\<lparr>io_heap := (io_heap (sys_io s))(a \<mapsto> f)\<rparr>\<rparr>"

definition set_sync :: "io_sys \<Rightarrow> nat \<Rightarrow> io_sync \<Rightarrow> io_sys" where
  "set_sync s a y = s\<lparr>sys_sync := (sys_sync s)(a := y)\<rparr>"

definition enqueue_ring :: "io_sys \<Rightarrow> nat \<Rightarrow> ce_io_fd \<Rightarrow> ce_rb option" where
  "enqueue_ring s a f = (if enqueue_null (sys_sync s a) then None else Some (enqueue_buffer f))"

definition push_ring :: "io_sys \<Rightarrow> nat \<Rightarrow> ce_io_fd \<Rightarrow> ce_rb option" where
  "push_ring s a f = (if push_null (sys_sync s a) then None else Some (push_buffer f))"

text \<open>The test of the outer loop of both processors with the read of the next event.\<close>

definition next_event :: "io_casts \<Rightarrow> nat \<Rightarrow> io_sys \<Rightarrow> (nat \<Rightarrow> io_pc) \<Rightarrow> io_out" where
  "next_event casts t s c =
     (let io = sys_io s in
      if can_read (push_fd_event io) < 8 then go t Io_idle s
      else attempt (rb_get (push_fd_event io) 8) (\<lambda>(ev, slot).
        attempt (event_io_fd casts slot) (\<lambda>a. go t (c a) (s\<lparr>sys_io := io\<lparr>push_fd_event := ev\<rparr>\<rparr>))))"

definition delete_own :: "io_casts \<Rightarrow> nat \<Rightarrow> io_sys \<Rightarrow> int \<Rightarrow> io_pc \<Rightarrow> io_out" where
  "delete_own casts t s fd c =
     attempt (do { (p, _) \<leftarrow> ce_io_del casts (Some (sys_io s)) fd; p }) (\<lambda>io. go t c (s\<lparr>sys_io := io\<rparr>))"

fun enqueue_step :: "io_casts \<Rightarrow> nat \<Rightarrow> io_sys \<Rightarrow> enqueue_pc \<Rightarrow> io_out" where
  "enqueue_step casts t s Enq_test = next_event casts t s (\<lambda>a. In_enqueue (Enq_lock a))"
| "enqueue_step casts t s (Enq_lock a) = with_fd s a (\<lambda>_.
     mutex_lock t (enqueue_lock (sys_sync s a)) (\<lambda>m.
       go t (In_enqueue (Enq_loop a)) (set_sync s a ((sys_sync s a)\<lparr>enqueue_lock := m\<rparr>))))"
| "enqueue_step casts t s (Enq_loop a) = with_fd s a (\<lambda>f.
     if ce_rb_can_read (enqueue_ring s a f) \<le> 2 then go t (In_enqueue (Enq_unlock a)) s
     else attempt (do { rb \<leftarrow> enqueue_ring s a f; rb_get rb 2 }) (\<lambda>(e1, head).
       let len = word_of_nat (le_value head); s1 = set_fd s a (f\<lparr>enqueue_buffer := e1\<rparr>) in
       go t (In_enqueue (if len = 0 then Enq_loop a else Enq_head a len)) s1))"
| "enqueue_step casts t s (Enq_head a len) = with_fd s a (\<lambda>f.
     if per_max_packet_body_size (io_conf (sys_io s)) < len then
       tell (On_exception (io_fd_fd f) ce_packet_illegal) (go t (In_enqueue (Enq_illegal a)) s)
     else if int (unat len) < ce_rb_can_read (enqueue_ring s a f) then
       go t (In_enqueue (Enq_unlock a)) (set_fd s a (f\<lparr>enqueue_cache_body_size := len\<rparr>))
     else attempt (do { rb \<leftarrow> enqueue_ring s a f; rb_get rb (unat len) }) (\<lambda>(e2, body).
       tell (On_received (io_fd_fd f) body)
         (go t (In_enqueue (Enq_loop a)) (set_fd s a (f\<lparr>enqueue_buffer := e2, enqueue_cache_body_size := 0\<rparr>)))))"
| "enqueue_step casts t s (Enq_illegal a) = with_fd s a (\<lambda>f.
     delete_own casts t s (io_fd_fd f) (In_enqueue (Enq_unlock a)))"
| "enqueue_step casts t s (Enq_unlock a) = with_fd s a (\<lambda>_.
     mutex_unlock t (enqueue_lock (sys_sync s a)) (\<lambda>m.
       go t (In_enqueue Enq_test) (set_sync s a ((sys_sync s a)\<lparr>enqueue_lock := m\<rparr>))))"

fun push_step :: "io_casts \<Rightarrow> (int \<Rightarrow> u8 list \<Rightarrow> int) \<Rightarrow> nat \<Rightarrow> io_sys \<Rightarrow> push_pc \<Rightarrow> io_out" where
  "push_step casts send t s Push_test = next_event casts t s (\<lambda>a. In_push (Push_lock a))"
| "push_step casts send t s (Push_lock a) = with_fd s a (\<lambda>_.
     mutex_lock t (push_lock (sys_sync s a)) (\<lambda>m.
       go t (In_push (Push_loop a)) (set_sync s a ((sys_sync s a)\<lparr>push_lock := m\<rparr>))))"
| "push_step casts send t s (Push_loop a) = with_fd s a (\<lambda>f.
     case push_ring s a f of
       None \<Rightarrow> go t (In_push (Push_unlock a)) s
     | Some rb \<Rightarrow> attempt (rb_get rb CE_SEND_PER_SIZE) (\<lambda>(p1, data).
         let s1 = set_fd s a (f\<lparr>push_buffer := p1\<rparr>) in
         if data = [] then go t (In_push (Push_unlock a)) s1
         else
           let given = take (unat (word_of_nat (length data) :: packet_len_t)) data in
           tell (Sent (io_fd_fd f) given)
             (if send (io_fd_fd f) given \<noteq> int (length data)
              then tell (On_exception (io_fd_fd f) ce_packet_send_error) (go t (In_push (Push_failed a)) s1)
              else go t (In_push (Push_loop a)) s1)))"
| "push_step casts send t s (Push_failed a) = with_fd s a (\<lambda>f.
     delete_own casts t s (io_fd_fd f) (In_push (Push_unlock a)))"
| "push_step casts send t s (Push_unlock a) = with_fd s a (\<lambda>_.
     mutex_unlock t (push_lock (sys_sync s a)) (\<lambda>m.
       go t (In_push Push_test) (set_sync s a ((sys_sync s a)\<lparr>push_lock := m\<rparr>))))"

text \<open>\<open>ce_rb_free\<close> of a ring that is NULL does nothing.\<close>

fun delete_step :: "nat \<Rightarrow> io_sys \<Rightarrow> nat \<Rightarrow> delete_pc \<Rightarrow> io_out" where
  "delete_step t s a Del_lock_enqueue = with_fd s a (\<lambda>_.
     mutex_lock t (enqueue_lock (sys_sync s a)) (\<lambda>m.
       go t (In_delete a Del_free_enqueue) (set_sync s a ((sys_sync s a)\<lparr>enqueue_lock := m\<rparr>))))"
| "delete_step t s a Del_free_enqueue = with_fd s a (\<lambda>_.
     go t (In_delete a Del_unlock_enqueue) (set_sync s a ((sys_sync s a)\<lparr>enqueue_null := True\<rparr>)))"
| "delete_step t s a Del_unlock_enqueue = with_fd s a (\<lambda>_.
     mutex_unlock t (enqueue_lock (sys_sync s a)) (\<lambda>m.
       go t (In_delete a Del_destroy_enqueue) (set_sync s a ((sys_sync s a)\<lparr>enqueue_lock := m\<rparr>))))"
| "delete_step t s a Del_destroy_enqueue = with_fd s a (\<lambda>_.
     mutex_destroy (enqueue_lock (sys_sync s a)) (\<lambda>m.
       go t (In_delete a Del_lock_push) (set_sync s a ((sys_sync s a)\<lparr>enqueue_lock := m\<rparr>))))"
| "delete_step t s a Del_lock_push = with_fd s a (\<lambda>_.
     mutex_lock t (push_lock (sys_sync s a)) (\<lambda>m.
       go t (In_delete a Del_free_push) (set_sync s a ((sys_sync s a)\<lparr>push_lock := m\<rparr>))))"
| "delete_step t s a Del_free_push = with_fd s a (\<lambda>_.
     go t (In_delete a Del_unlock_push) (set_sync s a ((sys_sync s a)\<lparr>push_null := True\<rparr>)))"
| "delete_step t s a Del_unlock_push = with_fd s a (\<lambda>_.
     mutex_unlock t (push_lock (sys_sync s a)) (\<lambda>m.
       go t (In_delete a Del_destroy_push) (set_sync s a ((sys_sync s a)\<lparr>push_lock := m\<rparr>))))"
| "delete_step t s a Del_destroy_push = with_fd s a (\<lambda>_.
     mutex_destroy (push_lock (sys_sync s a)) (\<lambda>m.
       go t (In_delete a Del_free) (set_sync s a ((sys_sync s a)\<lparr>push_lock := m\<rparr>))))"
| "delete_step t s a Del_free = with_fd s a (\<lambda>_.
     go t Io_idle (s\<lparr>sys_io := (sys_io s)\<lparr>io_heap := (io_heap (sys_io s))(a := None)\<rparr>\<rparr>))"

text \<open>An idle thread of the pool takes the first job, or waits for one.\<close>

fun job_pc :: "io_job \<Rightarrow> io_pc" where
  "job_pc Enqueue_job = In_enqueue Enq_test"
| "job_pc (Delete_job a) = In_delete a Del_lock_enqueue"

definition take_job :: "nat \<Rightarrow> io_sys \<Rightarrow> io_out" where
  "take_job t s =
     (case io_jobs (sys_io s) of
        [] \<Rightarrow> Blocks
      | j # jobs \<Rightarrow> go t (job_pc j) (s\<lparr>sys_io := (sys_io s)\<lparr>io_jobs := jobs\<rparr>\<rparr>))"

definition worker_step :: "io_casts \<Rightarrow> (int \<Rightarrow> u8 list \<Rightarrow> int) \<Rightarrow> nat \<Rightarrow> io_sys \<Rightarrow> io_out" where
  "worker_step casts send t s =
     (case sys_pc s t of
        Io_idle \<Rightarrow> take_job t s
      | In_enqueue c \<Rightarrow> enqueue_step casts t s c
      | In_push c \<Rightarrow> push_step casts send t s c
      | In_delete a c \<Rightarrow> delete_step t s a c)"

section \<open>Runs\<close>

text \<open>A thread running alone.\<close>

inductive worker_run ::
  "io_casts \<Rightarrow> (int \<Rightarrow> u8 list \<Rightarrow> int) \<Rightarrow> nat \<Rightarrow> io_sys \<Rightarrow> io_event list \<Rightarrow> io_sys \<Rightarrow> bool" for casts send t where
  worker_stays: "worker_run casts send t s [] s"
| worker_goes: "worker_step casts send t s = Goes s1 evs \<Longrightarrow> worker_run casts send t s1 evs' s2 \<Longrightarrow>
     worker_run casts send t s (evs @ evs') s2"

text \<open>
  Calls of the program. \<open>ce_malloc\<close> returns an address not in use, where the locks are then initialised; the dictionary
  stays within the sizes its \<open>int\<close> indices allow.
\<close>

inductive program_step :: "io_casts \<Rightarrow> io_sys \<Rightarrow> io_sys \<Rightarrow> bool" for casts where
  call_add: "ce_io_add st a (sys_io s) fd = Some (io, r) \<Longrightarrow> io_heap (sys_io s) a = None \<Longrightarrow> dict_small (io_dict (sys_io s)) \<Longrightarrow>
     program_step casts s ((set_sync s a new_sync)\<lparr>sys_io := io\<rparr>)"
| call_enqueue: "ce_io_enqueue casts (Some (sys_io s)) fd data len = Some (Some io, r) \<Longrightarrow>
     program_step casts s (s\<lparr>sys_io := io\<rparr>)"
| call_push: "ce_io_push casts (Some (sys_io s)) ty fd data len = Some (Some io, r) \<Longrightarrow>
     program_step casts s (s\<lparr>sys_io := io\<rparr>)"
| call_del: "ce_io_del casts (Some (sys_io s)) fd = Some (Some io, r) \<Longrightarrow>
     program_step casts s (s\<lparr>sys_io := io\<rparr>)"

inductive io_reach :: "io_casts \<Rightarrow> (int \<Rightarrow> u8 list \<Rightarrow> int) \<Rightarrow> io_sys \<Rightarrow> io_sys \<Rightarrow> bool" for casts send s0 where
  reach_start: "io_reach casts send s0 s0"
| reach_worker: "io_reach casts send s0 s \<Longrightarrow> worker_step casts send t s = Goes s' evs \<Longrightarrow> io_reach casts send s0 s'"
| reach_program: "io_reach casts send s0 s \<Longrightarrow> program_step casts s s' \<Longrightarrow> io_reach casts send s0 s'"

lemmas step_defs = attempt_def mutex_unlock_def mutex_destroy_def go_def tell_def with_fd_def
  next_event_def delete_own_def take_job_def Let_def

lemma at_pc_simps [simp]:
  "sys_io (at_pc t c s) = sys_io s" "sys_sync (at_pc t c s) = sys_sync s" "sys_pc (at_pc t c s) = (sys_pc s)(t := c)"
  "at_pc t c (at_pc t d s) = at_pc t c s" "sys_pc s t = c \<Longrightarrow> at_pc t c s = s"
  by (simp_all add: at_pc_def fun_upd_idem)

lemma set_fd_simps [simp]:
  "io_heap (sys_io (set_fd s a f)) = (io_heap (sys_io s))(a \<mapsto> f)" "io_conf (sys_io (set_fd s a f)) = io_conf (sys_io s)"
  "sys_sync (set_fd s a f) = sys_sync s" "sys_pc (set_fd s a f) = sys_pc s"
  "set_fd (at_pc t c s) a f = at_pc t c (set_fd s a f)" "set_fd (set_fd s a f) a g = set_fd s a g"
  "io_heap (sys_io s) a = Some f \<Longrightarrow> set_fd s a f = s"
  by (simp_all add: set_fd_def at_pc_def fun_upd_idem)

lemma set_sync_simps [simp]:
  "sys_io (set_sync s a y) = sys_io s" "sys_sync (set_sync s a y) = (sys_sync s)(a := y)" "sys_pc (set_sync s a y) = sys_pc s"
  "set_sync (set_sync s a y) a z = set_sync s a z" "set_sync (at_pc t c s) a y = at_pc t c (set_sync s a y)"
  by (simp_all add: set_sync_def at_pc_def)

section \<open>A processor that runs alone\<close>

lemma worker_run_trans:
  "worker_run casts send t s evs s1 \<Longrightarrow> worker_run casts send t s1 evs' s2 \<Longrightarrow> worker_run casts send t s (evs @ evs') s2"
  by (induction rule: worker_run.induct) (auto intro: worker_goes)

lemma worker_run_first:
  "worker_step casts send t s = Goes s1 [] \<Longrightarrow> worker_run casts send t s1 evs s2 \<Longrightarrow> worker_run casts send t s evs s2"
  using worker_goes [of casts send t s s1 "[]"] by simp

lemma worker_run_last:
  "worker_step casts send t s = Goes s1 evs \<Longrightarrow> worker_run casts send t s evs s1"
  using worker_goes [OF _ worker_stays] by fastforce

lemma packet_loop_run:
  assumes "packet_loop limit f = Some (f', evs, illegal)"
    and "sys_pc s t = In_enqueue (Enq_loop a)" "io_heap (sys_io s) a = Some f" "\<not> enqueue_null (sys_sync s a)"
    and "limit = per_max_packet_body_size (io_conf (sys_io s))"
  shows "worker_run casts send t s evs
    (at_pc t (In_enqueue (if illegal then Enq_illegal a else Enq_unlock a)) (set_fd s a f'))"
proof -
  let ?P = "\<lambda>limit f (f', evs, illegal). \<forall>s. sys_pc s t = In_enqueue (Enq_loop a) \<longrightarrow> io_heap (sys_io s) a = Some f \<longrightarrow>
      \<not> enqueue_null (sys_sync s a) \<longrightarrow> limit = per_max_packet_body_size (io_conf (sys_io s)) \<longrightarrow>
      worker_run casts send t s evs (at_pc t (In_enqueue (if illegal then Enq_illegal a else Enq_unlock a)) (set_fd s a f'))"
  have "?P limit f (f', evs, illegal)"
  proof (rule packet_loop.raw_induct [OF _ assms(1), of ?P], goal_cases)
    case (1 rec limit f out)
    note IH = 1(1) and body = 1(2)
    obtain f1 evs illegal where out: "out = (f1, evs, illegal)" by (cases out)
    have "worker_run casts send t s evs
        (at_pc t (In_enqueue (if illegal then Enq_illegal a else Enq_unlock a)) (set_fd s a f1))"
      if s: "sys_pc s t = In_enqueue (Enq_loop a)" "io_heap (sys_io s) a = Some f" "\<not> enqueue_null (sys_sync s a)"
        "limit = per_max_packet_body_size (io_conf (sys_io s))" for s
    proof (cases "can_read (enqueue_buffer f) \<le> 2")
      case True
      then have "f1 = f" "evs = []" "\<not> illegal" using body out by simp_all
      with True s show ?thesis
        by (intro worker_run_last) (simp add: worker_step_def step_defs enqueue_ring_def ce_rb_can_read_def)
    next
      case False
      obtain e1 head where e1: "rb_get (enqueue_buffer f) 2 = Some (e1, head)"
        using body False by (auto split: Option.bind_splits)
      define len where "len = (word_of_nat (le_value head) :: packet_len_t)"
      define s1 where "s1 = at_pc t (In_enqueue (if len = 0 then Enq_loop a else Enq_head a len)) (set_fd s a (f\<lparr>enqueue_buffer := e1\<rparr>))"
      have "worker_step casts send t s = Goes s1 []"
        using s False e1 by (simp add: worker_step_def step_defs enqueue_ring_def ce_rb_can_read_def s1_def len_def)
      note first = worker_run_first [OF this]
      note body' = body [simplified False e1 if_False Option.bind.bind_lunit prod.case Let_def len_def [symmetric]]
      consider "len = 0" | "len \<noteq> 0" "limit < len" | "len \<noteq> 0" "\<not> limit < len" "int (unat len) < can_read e1"
        | "len \<noteq> 0" "\<not> limit < len" "\<not> int (unat len) < can_read e1" by blast
      then show ?thesis
      proof cases
        case a: 1
        with body' out have "rec limit (f\<lparr>enqueue_buffer := e1\<rparr>) = Some (f1, evs, illegal)" by simp
        from IH [OF this, unfolded prod.case, rule_format, of s1] s a show ?thesis by (intro first) (simp add: s1_def)
      next
        case a: 2
        with body' out s show ?thesis
          by (intro first worker_run_last) (auto simp add: worker_step_def step_defs s1_def)
      next
        case a: 3
        with body' out s show ?thesis
          by (intro first worker_run_last)
            (auto simp add: worker_step_def step_defs s1_def enqueue_ring_def ce_rb_can_read_def)
      next
        case a: 4
        then obtain e2 data f2 evs2 illegal2 where e2: "rb_get e1 (unat len) = Some (e2, data)"
          "rec limit (f\<lparr>enqueue_buffer := e2, enqueue_cache_body_size := 0\<rparr>) = Some (f2, evs2, illegal2)"
          "out = (f2, On_received (io_fd_fd f) data # evs2, illegal2)"
          using body' by (auto split: Option.bind_splits)
        let ?s2 = "at_pc t (In_enqueue (Enq_loop a)) (set_fd s a (f\<lparr>enqueue_buffer := e2, enqueue_cache_body_size := 0\<rparr>))"
        have "worker_step casts send t s1 = Goes ?s2 [On_received (io_fd_fd f) data]"
          using s a e2(1) by (simp add: worker_step_def step_defs s1_def enqueue_ring_def ce_rb_can_read_def)
        from worker_goes [OF this IH [OF e2(2), unfolded prod.case, rule_format, of ?s2]] s e2(3) out show ?thesis
          by (intro first) simp
      qed
    qed
    with out show ?case by simp
  qed
  with assms(2-5) show ?thesis by simp
qed

lemma send_loop_run:
  assumes "send_loop send f = Some (f', evs, failed)"
    and "sys_pc s t = In_push (Push_loop a)" "io_heap (sys_io s) a = Some f" "\<not> push_null (sys_sync s a)"
  shows "worker_run casts send t s evs
    (at_pc t (In_push (if failed then Push_failed a else Push_unlock a)) (set_fd s a f'))"
proof -
  let ?P = "\<lambda>send f (f', evs, failed). \<forall>s. sys_pc s t = In_push (Push_loop a) \<longrightarrow> io_heap (sys_io s) a = Some f \<longrightarrow>
      \<not> push_null (sys_sync s a) \<longrightarrow>
      worker_run casts send t s evs (at_pc t (In_push (if failed then Push_failed a else Push_unlock a)) (set_fd s a f'))"
  have "?P send f (f', evs, failed)"
  proof (rule send_loop.raw_induct [OF _ assms(1), of ?P], goal_cases)
    case (1 rec send f out)
    note IH = 1(1) and body = 1(2)
    obtain f1 evs failed where out: "out = (f1, evs, failed)" by (cases out)
    have "worker_run casts send t s evs (at_pc t (In_push (if failed then Push_failed a else Push_unlock a)) (set_fd s a f1))"
      if s: "sys_pc s t = In_push (Push_loop a)" "io_heap (sys_io s) a = Some f" "\<not> push_null (sys_sync s a)" for s
    proof -
      obtain p1 data where p1: "rb_get (push_buffer f) CE_SEND_PER_SIZE = Some (p1, data)"
        using body by (auto split: Option.bind_splits)
      define given where "given = take (unat (word_of_nat (length data) :: packet_len_t)) data"
      define s1 where "s1 = set_fd s a (f\<lparr>push_buffer := p1\<rparr>)"
      note body' = body [simplified p1 Option.bind.bind_lunit prod.case Let_def given_def [symmetric]]
      have s1: "sys_pc s1 t = In_push (Push_loop a)" "io_heap (sys_io s1) a = Some (f\<lparr>push_buffer := p1\<rparr>)"
        "\<not> push_null (sys_sync s1 a)"
        using s by (simp_all add: s1_def)
      have step: "worker_step casts send t s =
          (if data = [] then Goes (at_pc t (In_push (Push_unlock a)) s1) []
           else if send (io_fd_fd f) given \<noteq> int (length data)
           then Goes (at_pc t (In_push (Push_failed a)) s1)
             [Sent (io_fd_fd f) given, On_exception (io_fd_fd f) ce_packet_send_error]
           else Goes s1 [Sent (io_fd_fd f) given])"
        using s p1 s1(1) by (simp add: worker_step_def step_defs push_ring_def given_def s1_def)
      show ?thesis
      proof (cases "data = [] \<or> send (io_fd_fd f) given \<noteq> int (length data)")
        case True
        with body' out step show ?thesis by (intro worker_run_last) (auto simp add: s1_def split: if_splits)
      next
        case False
        then obtain f2 evs2 failed2 where r: "rec send (f\<lparr>push_buffer := p1\<rparr>) = Some (f2, evs2, failed2)"
          "out = (f2, Sent (io_fd_fd f) given # evs2, failed2)"
          using body' by (auto split: Option.bind_splits)
        from False step have "worker_step casts send t s = Goes s1 [Sent (io_fd_fd f) given]" by simp
        from worker_goes [OF this IH [OF r(1), unfolded prod.case, rule_format, OF s1]] out r(2) show ?thesis
          by (simp add: s1_def)
      qed
    qed
    with out show ?case by simp
  qed
  with assms(2-4) show ?thesis by simp
qed

lemma ce_io_del_frame:
  assumes "ce_io_del casts (Some io) fd = Some (Some io', r)"
  shows "io_heap io' = io_heap io" "io_conf io' = io_conf io" "push_fd_event io' = push_fd_event io"
  using assms by (auto simp: ce_io_del_def Let_def split: if_splits option.splits Option.bind_splits)

lemma packet_loop_fd:
  assumes "packet_loop limit f = Some (f', evs, illegal)"
  shows "io_fd_fd f' = io_fd_fd f"
proof -
  have "(\<lambda>limit f (f', evs, illegal). io_fd_fd f' = io_fd_fd f) limit f (f', evs, illegal)"
    by (rule packet_loop.raw_induct [OF _ assms])
      (force simp: Let_def split: if_splits Option.bind_splits)
  then show ?thesis by simp
qed

lemma send_loop_fd:
  assumes "send_loop send f = Some (f', evs, failed)"
  shows "io_fd_fd f' = io_fd_fd f"
proof -
  have "(\<lambda>send f (f', evs, failed). io_fd_fd f' = io_fd_fd f) send f (f', evs, failed)"
    by (rule send_loop.raw_induct [OF _ assms])
      (force simp: Let_def split: if_splits Option.bind_splits)
  then show ?thesis by simp
qed

lemma delete_own_goes:
  "do { (p, _) \<leftarrow> ce_io_del casts (Some (sys_io s)) fd; p } = Some io \<Longrightarrow>
     delete_own casts t s fd c = Goes (at_pc t c (s\<lparr>sys_io := io\<rparr>)) []"
  by (auto simp: delete_own_def attempt_def go_def)

text \<open>
  From the lock to the unlock. With its locks free, the state is the data, the locks \<open>Y\<close> and the other threads \<open>pcs\<close>.
\<close>

lemma enqueue_section_run:
  assumes "io_heap io a = Some f" "Y a = new_sync"
    and "packet_loop (per_max_packet_body_size (io_conf io)) f = Some (f1, evs, illegal)"
    and "(if illegal then do { (p, _) \<leftarrow> ce_io_del casts (Some (io\<lparr>io_heap := (io_heap io)(a \<mapsto> f1)\<rparr>)) (io_fd_fd f); p }
          else Some (io\<lparr>io_heap := (io_heap io)(a \<mapsto> f1)\<rparr>)) = Some io2"
  shows "worker_run casts send t \<lparr>sys_io = io, sys_sync = Y, sys_pc = pcs(t := In_enqueue (Enq_lock a))\<rparr> evs
    \<lparr>sys_io = io2, sys_sync = Y, sys_pc = pcs(t := In_enqueue Enq_test)\<rparr>"
proof -
  let ?L = "Y(a := new_sync\<lparr>enqueue_lock := Locked t\<rparr>)" and ?io1 = "io\<lparr>io_heap := (io_heap io)(a \<mapsto> f1)\<rparr>"
  let ?at = "\<lambda>io Y c. \<lparr>sys_io = io, sys_sync = Y, sys_pc = pcs(t := In_enqueue c)\<rparr>"
  have lock: "worker_step casts send t (?at io Y (Enq_lock a)) = Goes (?at io ?L (Enq_loop a)) []"
    using assms(1,2) by (simp add: worker_step_def step_defs at_pc_def set_sync_def new_sync_def)
  have loop: "worker_run casts send t (?at io ?L (Enq_loop a)) evs (?at ?io1 ?L (if illegal then Enq_illegal a else Enq_unlock a))"
    using packet_loop_run [OF assms(3), of "?at io ?L (Enq_loop a)" t a casts send] assms(1)
    by (simp add: new_sync_def at_pc_def set_fd_def)
  have del: "worker_run casts send t (?at ?io1 ?L (if illegal then Enq_illegal a else Enq_unlock a)) [] (?at io2 ?L (Enq_unlock a))"
  proof (cases illegal)
    case True
    with assms(4) packet_loop_fd [OF assms(3)] show ?thesis
      by (intro worker_run_last) (simp add: worker_step_def with_fd_def attempt_def delete_own_goes at_pc_def)
  next
    case False
    with assms(4) show ?thesis by (simp add: worker_stays)
  qed
  have heap: "io_heap io2 a = Some f1"
    using assms(4) by (auto split: if_splits Option.bind_splits dest: ce_io_del_frame(1))
  have "Y = ?L(a := new_sync)" using assms(2) by (simp add: fun_upd_idem)
  then have unlock: "worker_step casts send t (?at io2 ?L (Enq_unlock a)) = Goes (?at io2 Y Enq_test) []"
    using heap by (simp add: worker_step_def step_defs at_pc_def set_sync_def new_sync_def)
  from worker_run_trans [OF worker_run_trans [OF loop del] worker_run_last [OF unlock]] show ?thesis
    by (intro worker_run_first [OF lock]) simp
qed

lemma push_section_run:
  assumes "io_heap io a = Some f" "Y a = new_sync" "send_loop send f = Some (f1, evs, failed)"
    and "(if failed then do { (p, _) \<leftarrow> ce_io_del casts (Some (io\<lparr>io_heap := (io_heap io)(a \<mapsto> f1)\<rparr>)) (io_fd_fd f); p }
          else Some (io\<lparr>io_heap := (io_heap io)(a \<mapsto> f1)\<rparr>)) = Some io2"
  shows "worker_run casts send t \<lparr>sys_io = io, sys_sync = Y, sys_pc = pcs(t := In_push (Push_lock a))\<rparr> evs
    \<lparr>sys_io = io2, sys_sync = Y, sys_pc = pcs(t := In_push Push_test)\<rparr>"
proof -
  let ?L = "Y(a := new_sync\<lparr>push_lock := Locked t\<rparr>)" and ?io1 = "io\<lparr>io_heap := (io_heap io)(a \<mapsto> f1)\<rparr>"
  let ?at = "\<lambda>io Y c. \<lparr>sys_io = io, sys_sync = Y, sys_pc = pcs(t := In_push c)\<rparr>"
  have lock: "worker_step casts send t (?at io Y (Push_lock a)) = Goes (?at io ?L (Push_loop a)) []"
    using assms(1,2) by (simp add: worker_step_def step_defs at_pc_def set_sync_def new_sync_def)
  have loop: "worker_run casts send t (?at io ?L (Push_loop a)) evs (?at ?io1 ?L (if failed then Push_failed a else Push_unlock a))"
    using send_loop_run [OF assms(3), of "?at io ?L (Push_loop a)" t a casts] assms(1)
    by (simp add: new_sync_def at_pc_def set_fd_def)
  have del: "worker_run casts send t (?at ?io1 ?L (if failed then Push_failed a else Push_unlock a)) [] (?at io2 ?L (Push_unlock a))"
  proof (cases failed)
    case True
    with assms(4) send_loop_fd [OF assms(3)] show ?thesis
      by (intro worker_run_last) (simp add: worker_step_def with_fd_def attempt_def delete_own_goes at_pc_def)
  next
    case False
    with assms(4) show ?thesis by (simp add: worker_stays)
  qed
  have heap: "io_heap io2 a = Some f1"
    using assms(4) by (auto split: if_splits Option.bind_splits dest: ce_io_del_frame(1))
  have "Y = ?L(a := new_sync)" using assms(2) by (simp add: fun_upd_idem)
  then have unlock: "worker_step casts send t (?at io2 ?L (Push_unlock a)) = Goes (?at io2 Y Push_test) []"
    using heap by (simp add: worker_step_def step_defs at_pc_def set_sync_def new_sync_def)
  from worker_run_trans [OF worker_run_trans [OF loop del] worker_run_last [OF unlock]] show ?thesis
    by (intro worker_run_first [OF lock]) simp
qed

definition sync_free :: "ce_io \<Rightarrow> (nat \<Rightarrow> io_sync) \<Rightarrow> bool" where
  "sync_free io Y \<longleftrightarrow> (\<forall>a. io_heap io a \<noteq> None \<longrightarrow> Y a = new_sync)"

lemma enqueue_processor_run:
  assumes "enqueue_buffer_processor casts io = Some (io', evs)" "sync_free io Y"
  shows "worker_run casts send t \<lparr>sys_io = io, sys_sync = Y, sys_pc = pcs(t := In_enqueue Enq_test)\<rparr> evs
    \<lparr>sys_io = io', sys_sync = Y, sys_pc = pcs(t := Io_idle)\<rparr> \<and> sync_free io' Y"
proof -
  let ?s = "\<lambda>io c. \<lparr>sys_io = io, sys_sync = Y, sys_pc = pcs(t := c)\<rparr>"
  let ?P = "\<lambda>casts io (io', evs). sync_free io Y \<longrightarrow>
    worker_run casts send t (?s io (In_enqueue Enq_test)) evs (?s io' Io_idle) \<and> sync_free io' Y"
  have "?P casts io (io', evs)"
  proof (rule enqueue_buffer_processor.raw_induct [OF _ assms(1), of ?P], goal_cases)
    case (1 rec casts io out)
    note IH = 1(1) and body = 1(2)
    show ?case
    proof (cases "can_read (push_fd_event io) < 8")
      case True
      then have "worker_step casts send t (?s io (In_enqueue Enq_test)) = Goes (?s io Io_idle) []"
        by (simp add: worker_step_def step_defs at_pc_def)
      with True body show ?thesis by (auto intro: worker_run_last)
    next
      case False
      then obtain ev slot a f f1 evs1 illegal io2 io3 evs3 where r: "rb_get (push_fd_event io) 8 = Some (ev, slot)"
        "event_io_fd casts slot = Some a" "io_heap io a = Some f"
        "packet_loop (per_max_packet_body_size (io_conf io)) f = Some (f1, evs1, illegal)"
        "(if illegal then do { (p, _) \<leftarrow> ce_io_del casts (Some (io\<lparr>push_fd_event := ev, io_heap := (io_heap io)(a \<mapsto> f1)\<rparr>)) (io_fd_fd f); p }
          else Some (io\<lparr>push_fd_event := ev, io_heap := (io_heap io)(a \<mapsto> f1)\<rparr>)) = Some io2"
        "rec casts io2 = Some (io3, evs3)" "out = (io3, evs1 @ evs3)"
        using body by (simp add: Let_def) blast
      let ?io1 = "io\<lparr>push_fd_event := ev\<rparr>"
      have step: "worker_step casts send t (?s io (In_enqueue Enq_test)) = Goes (?s ?io1 (In_enqueue (Enq_lock a))) []"
        using False r(1,2) by (simp add: worker_step_def step_defs at_pc_def)
      have "io_heap io2 = (io_heap io)(a \<mapsto> f1)"
        using r(5) by (auto split: if_splits Option.bind_splits dest: ce_io_del_frame(1))
      then have free: "sync_free io Y \<Longrightarrow> sync_free io2 Y" "sync_free io Y \<Longrightarrow> Y a = new_sync"
        using r(3) by (auto simp: sync_free_def)
      from enqueue_section_run [of ?io1 a f Y f1 evs1 illegal casts io2] r(3-5) have
        "Y a = new_sync \<Longrightarrow> worker_run casts send t (?s ?io1 (In_enqueue (Enq_lock a))) evs1 (?s io2 (In_enqueue Enq_test))"
        by (simp cong: if_cong)
      from worker_run_trans [OF worker_run_first [OF step this [OF free(2)]]] IH [OF r(6)] r(7) free(1) show ?thesis by simp
    qed
  qed
  with assms(2) show ?thesis by simp
qed

lemma push_processor_run:
  assumes "push_buffer_processor casts send io = Some (io', evs)" "sync_free io Y"
  shows "worker_run casts send t \<lparr>sys_io = io, sys_sync = Y, sys_pc = pcs(t := In_push Push_test)\<rparr> evs
    \<lparr>sys_io = io', sys_sync = Y, sys_pc = pcs(t := Io_idle)\<rparr> \<and> sync_free io' Y"
proof -
  let ?s = "\<lambda>io c. \<lparr>sys_io = io, sys_sync = Y, sys_pc = pcs(t := c)\<rparr>"
  let ?P = "\<lambda>casts send io (io', evs). sync_free io Y \<longrightarrow>
    worker_run casts send t (?s io (In_push Push_test)) evs (?s io' Io_idle) \<and> sync_free io' Y"
  have "?P casts send io (io', evs)"
  proof (rule push_buffer_processor.raw_induct [OF _ assms(1), of ?P], goal_cases)
    case (1 rec casts send io out)
    note IH = 1(1) and body = 1(2)
    show ?case
    proof (cases "can_read (push_fd_event io) < 8")
      case True
      then have "worker_step casts send t (?s io (In_push Push_test)) = Goes (?s io Io_idle) []"
        by (simp add: worker_step_def step_defs at_pc_def)
      with True body show ?thesis by (auto intro: worker_run_last)
    next
      case False
      then obtain ev slot a f f1 evs1 failed io2 io3 evs3 where r: "rb_get (push_fd_event io) 8 = Some (ev, slot)"
        "event_io_fd casts slot = Some a" "io_heap io a = Some f" "send_loop send f = Some (f1, evs1, failed)"
        "(if failed then do { (p, _) \<leftarrow> ce_io_del casts (Some (io\<lparr>push_fd_event := ev, io_heap := (io_heap io)(a \<mapsto> f1)\<rparr>)) (io_fd_fd f); p }
          else Some (io\<lparr>push_fd_event := ev, io_heap := (io_heap io)(a \<mapsto> f1)\<rparr>)) = Some io2"
        "rec casts send io2 = Some (io3, evs3)" "out = (io3, evs1 @ evs3)"
        using body by (simp add: Let_def) blast
      let ?io1 = "io\<lparr>push_fd_event := ev\<rparr>"
      have step: "worker_step casts send t (?s io (In_push Push_test)) = Goes (?s ?io1 (In_push (Push_lock a))) []"
        using False r(1,2) by (simp add: worker_step_def step_defs at_pc_def)
      have "io_heap io2 = (io_heap io)(a \<mapsto> f1)"
        using r(5) by (auto split: if_splits Option.bind_splits dest: ce_io_del_frame(1))
      then have free: "sync_free io Y \<Longrightarrow> sync_free io2 Y" "sync_free io Y \<Longrightarrow> Y a = new_sync"
        using r(3) by (auto simp: sync_free_def)
      from push_section_run [of ?io1 a f Y send f1 evs1 failed casts io2] r(3-5) have
        "Y a = new_sync \<Longrightarrow> worker_run casts send t (?s ?io1 (In_push (Push_lock a))) evs1 (?s io2 (In_push Push_test))"
        by (simp cong: if_cong)
      from worker_run_trans [OF worker_run_first [OF step this [OF free(2)]]] IH [OF r(6)] r(7) free(1) show ?thesis by simp
    qed
  qed
  with assms(2) show ?thesis by simp
qed

lemma delete_processor_run:
  assumes "io_heap io a = Some f" "Y a = new_sync"
  shows "\<exists>y. worker_run casts send t \<lparr>sys_io = io, sys_sync = Y, sys_pc = pcs(t := In_delete a Del_lock_enqueue)\<rparr> []
    \<lparr>sys_io = io\<lparr>io_heap := (io_heap io)(a := None)\<rparr>, sys_sync = Y(a := y), sys_pc = pcs(t := Io_idle)\<rparr>"
proof -
  let ?at = "\<lambda>y c. \<lparr>sys_io = io, sys_sync = Y(a := y), sys_pc = pcs(t := In_delete a c)\<rparr>"
  let ?final = "\<lambda>y. \<lparr>sys_io = io\<lparr>io_heap := (io_heap io)(a := None)\<rparr>, sys_sync = Y(a := y), sys_pc = pcs(t := Io_idle)\<rparr>"
  let ?y = "\<lparr>enqueue_lock = Destroyed, enqueue_null = True, push_lock = Destroyed, push_null = True\<rparr>"
  have "worker_run casts send t (?at new_sync Del_lock_enqueue) [] (?final ?y)"
    by (rule worker_run_first, (simp add: worker_step_def step_defs at_pc_def set_sync_def new_sync_def assms(1); fail))+
      (rule worker_stays)
  moreover have "Y(a := new_sync) = Y" using assms(2) by (simp add: fun_upd_idem)
  ultimately show ?thesis by auto
qed

end
