(* ===== verification/Ce_Io_Locks.thy ===== *)
theory Ce_Io_Locks
  imports Ce_Io_Threads Ce_Io_Properties
begin

text \<open>
  What holds in all runs of the threads of Ce_Io_Threads: who may touch a connection and its locks (\<open>sys_inv\<close>, kept by every
  step), that the processors exclude each other, that in the code as it stands no thread of the pool is ever stuck, and that
  a job run alone does what it does in Ce_Io.
\<close>

section \<open>The calls on the dictionary and the jobs\<close>

text \<open>The connections the dictionary knows, and those the jobs are to delete.\<close>

definition io_connected :: "ce_io \<Rightarrow> nat set" where
  "io_connected io = {a. \<exists>k. dict_map (io_dict io) k = Some (Some a)}"

fun doomed :: "io_job list \<Rightarrow> nat list" where
  "doomed [] = []"
| "doomed (Enqueue_job # jobs) = doomed jobs"
| "doomed (Delete_job a # jobs) = a # doomed jobs"

lemma doomed_append [simp]: "doomed (js @ ks) = doomed js @ doomed ks"
  by (induction js rule: doomed.induct) simp_all

definition data_inv :: "ce_io \<Rightarrow> bool" where
  "data_inv io \<longleftrightarrow> dict_wf (io_dict io) \<and> type_ok (io_dict io) \<and> 0 < per_cache_ringbuffer_size (io_conf io) \<and>
     (\<forall>k k' a. dict_map (io_dict io) k = Some (Some a) \<longrightarrow> dict_map (io_dict io) k' = Some (Some a) \<longrightarrow> k = k')"

lemma data_inv_cong:
  assumes "data_inv io" "dict_wf (io_dict io')" "type_ok (io_dict io')" "io_conf io' = io_conf io"
    and "dict_map (io_dict io') = dict_map (io_dict io)"
  shows "data_inv io'" "io_connected io' = io_connected io"
  using assms by (simp_all add: data_inv_def io_connected_def)

lemma ce_io_add_effect:
  assumes "ce_io_add st a io fd = Some (io', r)" "data_inv io" "dict_small (io_dict io)" "a \<notin> io_connected io"
  shows "data_inv io' \<and> io_jobs io' = io_jobs io \<and>
    (if r then io_connected io' = insert a (io_connected io) \<and> dom (io_heap io') = insert a (dom (io_heap io))
     else io_connected io' = io_connected io \<and> io_heap io' = io_heap io)"
proof (cases "io_stop io")
  case True
  with assms show ?thesis by (simp add: ce_io_add_def)
next
  case False
  have ready: "io_ready io" using assms(2,3) by (simp add: data_inv_def io_ready_def)
  obtain key where key: "fd_key fd = Some key" using assms(1) False by (auto simp: ce_io_add_def split: Option.bind_splits)
  obtain f where ok: "r \<longleftrightarrow> dict_map (io_dict io) key = None" "dict_wf (io_dict io')" "type_ok (io_dict io')"
    "if r then io' = io\<lparr>io_dict := io_dict io', io_heap := (io_heap io)(a \<mapsto> f)\<rparr> \<and>
          dict_map (io_dict io') = (dict_map (io_dict io))(key \<mapsto> Some a)
     else io' = io\<lparr>io_dict := io_dict io'\<rparr> \<and> dict_map (io_dict io') = dict_map (io_dict io)"
    using ce_io_add_ok [OF ready False key, of st a] assms(1) by auto
  show ?thesis
  proof (cases r)
    case True
    then have eq: "io' = io\<lparr>io_dict := io_dict io', io_heap := (io_heap io)(a \<mapsto> f)\<rparr>"
      and dm: "dict_map (io_dict io') = (dict_map (io_dict io))(key \<mapsto> Some a)" using ok(4) by simp_all
    have frame: "io_conf io' = io_conf io" "io_jobs io' = io_jobs io" "dom (io_heap io') = insert a (dom (io_heap io))"
      by (subst eq; simp)+
    have "io_connected io' = insert a (io_connected io)"
      using True ok(1) by (force simp: io_connected_def dm)
    moreover have "data_inv io'"
      using assms(2,4) ok(2,3) frame(1) True ok(1) unfolding data_inv_def dm io_connected_def by auto
    ultimately show ?thesis using True frame by simp
  next
    case False
    then have eq: "io' = io\<lparr>io_dict := io_dict io'\<rparr>" and dm: "dict_map (io_dict io') = dict_map (io_dict io)"
      using ok(4) by simp_all
    have frame: "io_conf io' = io_conf io" "io_jobs io' = io_jobs io" "io_heap io' = io_heap io"
      by (subst eq; simp)+
    with data_inv_cong [OF assms(2) ok(2,3) _ dm] False show ?thesis by simp
  qed
qed

lemma dictFind_effect:
  assumes "data_inv io" "dictFind (io_dict io) key = Some (d1, entry)"
  shows "dict_wf d1" "type_ok d1" "dict_map d1 = dict_map (io_dict io)"
    "entry = Some loc \<Longrightarrow> \<exists>v. dict_map (io_dict io) key = Some v \<and> dict_entry_at d1 loc = Some (Entry key v)"
proof -
  have wf: "dict_wf (io_dict io)" "type_ok (io_dict io)" using assms(1) by (simp_all add: data_inv_def)
  from dictFind_ok [OF wf, of key] assms(2) have k: "rehash_keeps (io_dict io) d1"
    "entry = Some loc \<Longrightarrow> \<exists>v. dict_map (io_dict io) key = Some v \<and> dict_entry_at d1 loc = Some (Entry key v)"
    by auto
  note rehash_keepsD [OF k(1) wf(1)]
  with k(2) wf(2) show "dict_wf d1" "type_ok d1" "dict_map d1 = dict_map (io_dict io)"
    "entry = Some loc \<Longrightarrow> \<exists>v. dict_map (io_dict io) key = Some v \<and> dict_entry_at d1 loc = Some (Entry key v)"
    using same_frame_cong [of "io_dict io" d1] by simp_all
qed

lemma jobs_only_enqueue:
  assumes "ce_io_enqueue casts (Some io) fd data len = Some (Some io', r) \<or> ce_io_push casts (Some io) ty fd data len = Some (Some io', r)"
    and "data_inv io"
  shows "data_inv io' \<and> io_connected io' = io_connected io \<and> dom (io_heap io') = dom (io_heap io) \<and>
    doomed (io_jobs io') = doomed (io_jobs io)"
proof (cases "io' = io")
  case True
  with assms(2) show ?thesis by simp
next
  case False
  obtain key d1 entry where "fd_key fd = Some key" and d1: "dictFind (io_dict io) key = Some (d1, entry)"
    and io': "io_dict io' = d1" "io_conf io' = io_conf io" "dom (io_heap io') = dom (io_heap io)"
      "doomed (io_jobs io') = doomed (io_jobs io)"
    using assms(1) False
    by (auto simp: ce_io_enqueue_def ce_io_push_def Let_def insert_absorb domI
        split: if_splits option.splits Option.bind_splits)
  note e = dictFind_effect(1-3) [OF assms(2) d1]
  from data_inv_cong [OF assms(2), of io'] e io' show ?thesis by simp
qed

lemma ce_io_del_effect:
  assumes "ce_io_del casts (Some io) fd = Some (Some io', r)" "data_inv io"
  shows "data_inv io' \<and> io_heap io' = io_heap io \<and>
    (io_connected io' = io_connected io \<and> io_jobs io' = io_jobs io \<or>
     (\<exists>a\<in>io_connected io. io_connected io' = io_connected io - {a} \<and> io_jobs io' = io_jobs io @ [Delete_job a]))"
proof (cases "io_stop io \<or> fd \<le> 0")
  case True
  with assms(1) have "io' = io" by (auto simp: ce_io_del_def split: if_splits)
  with assms(2) show ?thesis by simp
next
  case False
  then obtain key d1 entry where d1: "dictFind (io_dict io) key = Some (d1, entry)" "fd_key fd = Some key"
    using assms(1) by (auto simp: ce_io_del_def split: Option.bind_splits)
  note e = dictFind_effect [OF assms(2) d1(1)]
  show ?thesis
  proof (cases entry)
    case None
    with assms(1) d1 False have io': "io' = io\<lparr>io_dict := d1\<rparr>" by (auto simp: ce_io_del_def)
    from data_inv_cong [OF assms(2), of io'] e(1-3) show ?thesis by (simp add: io')
  next
    case (Some loc)
    then obtain v where v: "dict_map (io_dict io) key = Some v" "dict_entry_at d1 loc = Some (Entry key v)" using e(4) by blast
    obtain d2 evs where d2: "dictDelete d1 key = Some (d2, evs)" "dict_wf d2" "same_frame d1 d2"
      "dict_map d2 = (dict_map d1)(key := None)"
      using dictGenericDelete_ok [OF e(1,2), of key False] unfolding dictDelete_def by blast
    obtain a where a: "v = Some a" "io' = io\<lparr>io_dict := d2, io_jobs := io_jobs io @ [Delete_job a]\<rparr>"
      using assms(1) d1 d2(1) Some False v(2)
      by (cases casts) (auto simp: ce_io_del_def Let_def entry_io_fd_def split: Option.bind_splits)
    have inv: "dict_map (io_dict io) k = Some (Some b) \<Longrightarrow> dict_map (io_dict io) k' = Some (Some b) \<Longrightarrow> k = k'" for k k' b
      using assms(2) unfolding data_inv_def by blast
    have dm: "dict_map (io_dict io') = (dict_map (io_dict io))(key := None)" using d2(4) e(3) a(2) by simp
    have "type_ok d2" using same_frame_cong [OF d2(3)] e(2) by simp
    with assms(2) d2(2) a(2) have "data_inv io'" unfolding data_inv_def dm using inv by simp
    moreover have "a \<in> io_connected io" using v(1) a(1) by (auto simp: io_connected_def)
    moreover have "io_connected io' = io_connected io - {a}"
    proof (intro set_eqI iffI)
      fix b assume "b \<in> io_connected io'"
      then obtain k where "k \<noteq> key" "dict_map (io_dict io) k = Some (Some b)"
        by (auto simp: io_connected_def dm split: if_splits)
      with inv [of k b key] v(1) a(1) show "b \<in> io_connected io - {a}" by (auto simp: io_connected_def)
    next
      fix b assume "b \<in> io_connected io - {a}"
      then obtain k where "dict_map (io_dict io) k = Some (Some b)" "b \<noteq> a" by (auto simp: io_connected_def)
      moreover from this have "k \<noteq> key" using v(1) a(1) by auto
      ultimately show "b \<in> io_connected io'" by (auto simp: io_connected_def dm)
    qed
    ultimately show ?thesis using a(2) by auto
  qed
qed

section \<open>Who has a connection\<close>

text \<open>
  Every object in the heap is known to the dictionary (\<open>C\<close>), or to be deleted by exactly one job in the queue (\<open>js\<close>) or one
  thread.
\<close>

fun pc_deletes :: "io_pc \<Rightarrow> nat option" where
  "pc_deletes (In_delete a c) = Some a"
| "pc_deletes _ = None"

definition owned :: "nat set \<Rightarrow> nat list \<Rightarrow> nat set \<Rightarrow> (nat \<rightharpoonup> nat) \<Rightarrow> bool" where
  "owned C js H D \<longleftrightarrow> H = C \<union> set js \<union> ran D \<and> C \<inter> set js = {} \<and> (C \<union> set js) \<inter> ran D = {} \<and>
     distinct js \<and> inj_on D (dom D)"

lemma owned_start: "owned {} [] {} (\<lambda>_. None)"
  by (simp add: owned_def ran_def inj_on_def)

lemma owned_add: "owned C js H D \<Longrightarrow> a \<notin> H \<Longrightarrow> owned (insert a C) js (insert a H) D"
  unfolding owned_def by auto

lemma owned_del: "owned C js H D \<Longrightarrow> a \<in> C \<Longrightarrow> owned (C - {a}) (js @ [a]) H D"
  unfolding owned_def by auto

lemma owned_take: "owned C (a # js) H D \<Longrightarrow> D t = None \<Longrightarrow> owned C js H (D(t \<mapsto> a))"
  unfolding owned_def by (simp add: ran_map_upd) (auto simp: inj_on_def ran_def)

lemma ran_remove: "inj_on D (dom D) \<Longrightarrow> D t = Some a \<Longrightarrow> ran (D(t := None)) = ran D - {a}"
  by (auto simp: ran_def inj_on_def dom_def) (metis option.inject)

lemma owned_free:
  assumes "owned C js H D" "D t = Some a"
  shows "owned C js (H - {a}) (D(t := None))"
proof -
  have "a \<in> ran D" using assms(2) by (rule ranI)
  with assms ran_remove [of D t a] show ?thesis unfolding owned_def by (auto simp: inj_on_def)
qed

section \<open>Who holds a lock\<close>

text \<open>Whose lock a thread has, and whose lock it has destroyed.\<close>

fun holds_enqueue :: "io_pc \<Rightarrow> nat option" where
  "holds_enqueue (In_enqueue (Enq_loop a)) = Some a"
| "holds_enqueue (In_enqueue (Enq_head a len)) = Some a"
| "holds_enqueue (In_enqueue (Enq_illegal a)) = Some a"
| "holds_enqueue (In_enqueue (Enq_unlock a)) = Some a"
| "holds_enqueue (In_delete a Del_free_enqueue) = Some a"
| "holds_enqueue (In_delete a Del_unlock_enqueue) = Some a"
| "holds_enqueue _ = None"

fun holds_push :: "io_pc \<Rightarrow> nat option" where
  "holds_push (In_push (Push_loop a)) = Some a"
| "holds_push (In_push (Push_failed a)) = Some a"
| "holds_push (In_push (Push_unlock a)) = Some a"
| "holds_push (In_delete a Del_free_push) = Some a"
| "holds_push (In_delete a Del_unlock_push) = Some a"
| "holds_push _ = None"

fun gone_enqueue :: "io_pc \<Rightarrow> nat option" where
  "gone_enqueue (In_delete a c) = (if c \<in> {Del_lock_push, Del_free_push, Del_unlock_push, Del_destroy_push, Del_free} then Some a else None)"
| "gone_enqueue _ = None"

fun gone_push :: "io_pc \<Rightarrow> nat option" where
  "gone_push (In_delete a c) = (if c = Del_free then Some a else None)"
| "gone_push _ = None"

text \<open>One kind of lock (\<open>L\<close>), with the objects in the heap (\<open>H\<close>), the holders (\<open>P\<close>) and the destroyers (\<open>G\<close>).\<close>

definition lock_ok :: "nat set \<Rightarrow> (nat \<Rightarrow> io_mutex) \<Rightarrow> (nat \<rightharpoonup> nat) \<Rightarrow> (nat \<rightharpoonup> nat) \<Rightarrow> bool" where
  "lock_ok H L P G \<longleftrightarrow> (\<forall>a t. L a = Locked t \<longleftrightarrow> P t = Some a) \<and> (\<forall>a\<in>H. L a = Destroyed \<longleftrightarrow> a \<in> ran G) \<and>
     ran P \<subseteq> H"

lemma lock_ok_start: "lock_ok {} (\<lambda>_. Unlocked) (\<lambda>_. None) (\<lambda>_. None)"
  by (simp add: lock_ok_def ran_def)

lemma lock_ok_lock:
  "lock_ok H L P G \<Longrightarrow> a \<in> H \<Longrightarrow> L a = Unlocked \<Longrightarrow> P t = None \<Longrightarrow> lock_ok H (L(a := Locked t)) (P(t \<mapsto> a)) G"
  unfolding lock_ok_def by (simp add: ran_map_upd) (metis io_mutex.distinct(1,3) option.inject)

lemma lock_ok_unlock:
  assumes "lock_ok H L P G" "L a = Locked t"
  shows "lock_ok H (L(a := Unlocked)) (P(t := None)) G"
proof -
  have h: "P u = Some b \<longleftrightarrow> L b = Locked u" for u b using assms(1) by (simp add: lock_ok_def)
  then have a: "P u = Some a \<longleftrightarrow> u = t" for u using assms(2) by auto
  then have "a \<in> H" using assms(1) ranI [of P t a] by (auto simp: lock_ok_def)
  moreover have "L a \<noteq> Destroyed" using assms(2) by simp
  ultimately have "a \<notin> ran G" using assms(1) by (simp add: lock_ok_def)
  then have "\<forall>b\<in>H. (L(a := Unlocked)) b = Destroyed \<longleftrightarrow> b \<in> ran G" using assms(1) by (simp add: lock_ok_def)
  moreover have "(L(a := Unlocked)) b = Locked u \<longleftrightarrow> (P(t := None)) u = Some b" for b u
    using a [of u] h [of u b] h [of t b] h [of t a] assms(2) by (cases "u = t"; cases "b = a") auto
  moreover have "ran (P(t := None)) \<subseteq> H" using assms(1) by (auto simp: lock_ok_def ran_def split: if_splits)
  ultimately show ?thesis by (simp add: lock_ok_def)
qed

lemma lock_ok_destroy:
  "lock_ok H L P G \<Longrightarrow> L a = Unlocked \<Longrightarrow> G t = None \<Longrightarrow> lock_ok H (L(a := Destroyed)) P (G(t \<mapsto> a))"
  unfolding lock_ok_def by (simp add: ran_map_upd) (metis io_mutex.distinct(1))

lemma lock_ok_new:
  "lock_ok H L P G \<Longrightarrow> a \<notin> H \<Longrightarrow> a \<notin> ran G \<Longrightarrow> lock_ok (insert a H) (L(a := Unlocked)) P G"
  unfolding lock_ok_def by (auto simp: ran_def)

lemma lock_ok_outside:
  "lock_ok H L P G \<Longrightarrow> a \<notin> H \<Longrightarrow> lock_ok H (L(a := Unlocked)) P G"
  unfolding lock_ok_def by (auto simp: ran_def)

lemma lock_ok_free:
  assumes "lock_ok H L P G" "G t = Some a" "a \<in> H"
  shows "lock_ok (H - {a}) L P (G(t := None))"
proof -
  have "a \<in> ran G" using assms(2) by (rule ranI)
  then have "L a = Destroyed" using assms(1,3) by (simp add: lock_ok_def)
  then have "P u \<noteq> Some a" for u using assms(1) by (metis io_mutex.distinct(5) lock_ok_def)
  moreover have "b \<in> ran (G(t := None)) \<longleftrightarrow> b \<in> ran G" if "b \<noteq> a" for b
  proof
    assume "b \<in> ran G"
    then obtain u where "G u = Some b" by (auto simp: ran_def)
    with assms(2) that have "(G(t := None)) u = Some b" by auto
    then show "b \<in> ran (G(t := None))" by (rule ranI)
  qed (auto simp: ran_def split: if_splits)
  ultimately show ?thesis using assms(1) unfolding lock_ok_def by (auto simp: ran_def [of P])
qed

definition sys_inv :: "io_sys \<Rightarrow> bool" where
  "sys_inv s \<longleftrightarrow> data_inv (sys_io s) \<and>
     owned (io_connected (sys_io s)) (doomed (io_jobs (sys_io s))) (dom (io_heap (sys_io s))) (pc_deletes \<circ> sys_pc s) \<and>
     lock_ok (dom (io_heap (sys_io s))) (enqueue_lock \<circ> sys_sync s) (holds_enqueue \<circ> sys_pc s) (gone_enqueue \<circ> sys_pc s) \<and>
     lock_ok (dom (io_heap (sys_io s))) (push_lock \<circ> sys_sync s) (holds_push \<circ> sys_pc s) (gone_push \<circ> sys_pc s)"

lemma sys_inv_pc:
  assumes "sys_inv s" "pc_deletes c = pc_deletes (sys_pc s t)" "holds_enqueue c = holds_enqueue (sys_pc s t)"
    "gone_enqueue c = gone_enqueue (sys_pc s t)" "holds_push c = holds_push (sys_pc s t)" "gone_push c = gone_push (sys_pc s t)"
  shows "sys_inv (at_pc t c s)"
  using assms by (simp add: sys_inv_def fun_upd_comp fun_upd_idem)

lemma sys_inv_io:
  assumes "sys_inv s" "data_inv io" "io_connected io = io_connected (sys_io s)" "doomed (io_jobs io) = doomed (io_jobs (sys_io s))"
    "dom (io_heap io) = dom (io_heap (sys_io s))"
  shows "sys_inv (s\<lparr>sys_io := io\<rparr>)"
  using assms by (simp add: sys_inv_def)

lemma sys_inv_del:
  assumes "sys_inv s" "ce_io_del casts (Some (sys_io s)) fd = Some (Some io, r)"
  shows "sys_inv (s\<lparr>sys_io := io\<rparr>)"
proof -
  from ce_io_del_effect [OF assms(2)] assms(1) have inv: "data_inv io" "io_heap io = io_heap (sys_io s)" and
    c: "io_connected io = io_connected (sys_io s) \<and> io_jobs io = io_jobs (sys_io s) \<or>
      (\<exists>a\<in>io_connected (sys_io s). io_connected io = io_connected (sys_io s) - {a} \<and> io_jobs io = io_jobs (sys_io s) @ [Delete_job a])"
    by (auto simp: sys_inv_def)
  from c show ?thesis
  proof
    assume "io_connected io = io_connected (sys_io s) \<and> io_jobs io = io_jobs (sys_io s)"
    with assms(1) inv show ?thesis by (intro sys_inv_io) simp_all
  next
    assume "\<exists>a\<in>io_connected (sys_io s). io_connected io = io_connected (sys_io s) - {a} \<and> io_jobs io = io_jobs (sys_io s) @ [Delete_job a]"
    then obtain a where "a \<in> io_connected (sys_io s)" "io_connected io = io_connected (sys_io s) - {a}"
      "io_jobs io = io_jobs (sys_io s) @ [Delete_job a]" by blast
    with assms(1) inv owned_del [of "io_connected (sys_io s)"] show ?thesis by (simp add: sys_inv_def)
  qed
qed

lemma sys_inv_set_fd:
  assumes "sys_inv s" "io_heap (sys_io s) a = Some f"
  shows "sys_inv (set_fd s a g)"
proof -
  have "data_inv ((sys_io s)\<lparr>io_heap := (io_heap (sys_io s))(a \<mapsto> g)\<rparr>)"
    using assms(1) by (simp add: sys_inv_def data_inv_def)
  with assms show ?thesis unfolding set_fd_def
    by (intro sys_inv_io) (auto simp: io_connected_def)
qed

lemma sys_inv_push_fd_event: "sys_inv s \<Longrightarrow> sys_inv (s\<lparr>sys_io := (sys_io s)\<lparr>push_fd_event := ev\<rparr>\<rparr>)"
  by (rule sys_inv_io) (simp_all add: sys_inv_def data_inv_def io_connected_def)

text \<open>What a step changes beyond the data; \<open>c\<close> is the new program counter.\<close>

definition keeps_enqueue :: "io_pc \<Rightarrow> io_pc \<Rightarrow> bool" where
  "keeps_enqueue c d \<longleftrightarrow> holds_enqueue c = holds_enqueue d \<and> gone_enqueue c = gone_enqueue d"

definition keeps_push :: "io_pc \<Rightarrow> io_pc \<Rightarrow> bool" where
  "keeps_push c d \<longleftrightarrow> holds_push c = holds_push d \<and> gone_push c = gone_push d"

lemma sys_inv_enqueue_lock:
  assumes "sys_inv s" "io_heap (sys_io s) a = Some f" "pc_deletes c = pc_deletes (sys_pc s t)" "keeps_push c (sys_pc s t)"
  shows "enqueue_lock (sys_sync s a) = Unlocked \<Longrightarrow> holds_enqueue (sys_pc s t) = None \<Longrightarrow> holds_enqueue c = Some a \<Longrightarrow>
      gone_enqueue c = gone_enqueue (sys_pc s t) \<Longrightarrow>
      sys_inv (at_pc t c (set_sync s a ((sys_sync s a)\<lparr>enqueue_lock := Locked t\<rparr>)))"
    and "enqueue_lock (sys_sync s a) = Locked t \<Longrightarrow> holds_enqueue c = None \<Longrightarrow> gone_enqueue c = gone_enqueue (sys_pc s t) \<Longrightarrow>
      sys_inv (at_pc t c (set_sync s a ((sys_sync s a)\<lparr>enqueue_lock := Unlocked\<rparr>)))"
    and "enqueue_lock (sys_sync s a) = Unlocked \<Longrightarrow> gone_enqueue (sys_pc s t) = None \<Longrightarrow> gone_enqueue c = Some a \<Longrightarrow>
      holds_enqueue c = holds_enqueue (sys_pc s t) \<Longrightarrow>
      sys_inv (at_pc t c (set_sync s a ((sys_sync s a)\<lparr>enqueue_lock := Destroyed\<rparr>)))"
  using assms
  by (auto simp: sys_inv_def keeps_push_def fun_upd_comp fun_upd_idem intro!: lock_ok_lock lock_ok_unlock lock_ok_destroy)

lemma sys_inv_push_lock:
  assumes "sys_inv s" "io_heap (sys_io s) a = Some f" "pc_deletes c = pc_deletes (sys_pc s t)" "keeps_enqueue c (sys_pc s t)"
  shows "push_lock (sys_sync s a) = Unlocked \<Longrightarrow> holds_push (sys_pc s t) = None \<Longrightarrow> holds_push c = Some a \<Longrightarrow>
      gone_push c = gone_push (sys_pc s t) \<Longrightarrow>
      sys_inv (at_pc t c (set_sync s a ((sys_sync s a)\<lparr>push_lock := Locked t\<rparr>)))"
    and "push_lock (sys_sync s a) = Locked t \<Longrightarrow> holds_push c = None \<Longrightarrow> gone_push c = gone_push (sys_pc s t) \<Longrightarrow>
      sys_inv (at_pc t c (set_sync s a ((sys_sync s a)\<lparr>push_lock := Unlocked\<rparr>)))"
    and "push_lock (sys_sync s a) = Unlocked \<Longrightarrow> gone_push (sys_pc s t) = None \<Longrightarrow> gone_push c = Some a \<Longrightarrow>
      holds_push c = holds_push (sys_pc s t) \<Longrightarrow>
      sys_inv (at_pc t c (set_sync s a ((sys_sync s a)\<lparr>push_lock := Destroyed\<rparr>)))"
  using assms
  by (auto simp: sys_inv_def keeps_enqueue_def fun_upd_comp fun_upd_idem intro!: lock_ok_lock lock_ok_unlock lock_ok_destroy)

lemma out_goes_iff [simp]:
  "attempt x k = Goes s' evs \<longleftrightarrow> (\<exists>y. x = Some y \<and> k y = Goes s' evs)"
  "mutex_lock t m l = Goes s' evs \<longleftrightarrow> m = Unlocked \<and> l (Locked t) = Goes s' evs"
  "mutex_unlock t m l = Goes s' evs \<longleftrightarrow> m = Locked t \<and> l Unlocked = Goes s' evs"
  "mutex_destroy m l = Goes s' evs \<longleftrightarrow> m = Unlocked \<and> l Destroyed = Goes s' evs"
  "tell ev out = Goes s' evs \<longleftrightarrow> (\<exists>evs'. out = Goes s' evs' \<and> evs = ev # evs')"
  "go t c s = Goes s' evs \<longleftrightarrow> s' = at_pc t c s \<and> evs = []"
  by (auto simp: attempt_def mutex_unlock_def mutex_destroy_def tell_def go_def split: option.splits io_out.splits)
    (cases m; simp)+

lemma next_event_inv:
  assumes "sys_inv s" "next_event casts t s c = Goes s' evs" "sys_pc s t \<in> {In_enqueue Enq_test, In_push Push_test}"
    and "c \<in> {\<lambda>a. In_enqueue (Enq_lock a), \<lambda>a. In_push (Push_lock a)}"
  shows "sys_inv s'"
  using assms by (auto simp: next_event_def Let_def split: if_splits intro!: sys_inv_pc sys_inv_push_fd_event)

lemma delete_own_inv:
  assumes "sys_inv s" "delete_own casts t s fd c = Goes s' evs" "pc_deletes c = pc_deletes (sys_pc s t)"
    "keeps_enqueue c (sys_pc s t)" "keeps_push c (sys_pc s t)"
  shows "sys_inv s'"
proof -
  obtain io r where "ce_io_del casts (Some (sys_io s)) fd = Some (Some io, r)" "s' = at_pc t c (s\<lparr>sys_io := io\<rparr>)"
    using assms(2) by (auto simp: delete_own_def)
  with assms(1,3-5) show ?thesis
    by (auto simp: keeps_enqueue_def keeps_push_def intro!: sys_inv_pc sys_inv_del)
qed

lemma enqueue_step_inv:
  assumes "sys_inv s" "enqueue_step casts t s c = Goes s' evs" "sys_pc s t = In_enqueue c"
  shows "sys_inv s'"
  using assms
proof (cases c)
  case Enq_test
  with assms show ?thesis by (auto intro: next_event_inv)
next
  case (Enq_lock a)
  with assms show ?thesis
    by (auto simp: with_fd_def keeps_push_def intro!: sys_inv_enqueue_lock(1))
next
  case (Enq_loop a)
  with assms show ?thesis
    by (auto simp: with_fd_def Let_def split: if_splits intro!: sys_inv_pc sys_inv_set_fd)
next
  case (Enq_head a len)
  with assms show ?thesis
    by (auto simp: with_fd_def split: if_splits intro!: sys_inv_pc sys_inv_set_fd)
next
  case (Enq_illegal a)
  with assms show ?thesis
    by (auto simp: with_fd_def keeps_enqueue_def keeps_push_def intro: delete_own_inv)
next
  case (Enq_unlock a)
  with assms show ?thesis
    by (auto simp: with_fd_def keeps_push_def intro!: sys_inv_enqueue_lock(2))
qed

lemma push_step_inv:
  assumes "sys_inv s" "push_step casts send t s c = Goes s' evs" "sys_pc s t = In_push c"
  shows "sys_inv s'"
  using assms
proof (cases c)
  case Push_test
  with assms show ?thesis by (auto intro: next_event_inv)
next
  case (Push_lock a)
  with assms show ?thesis
    by (auto simp: with_fd_def keeps_enqueue_def intro!: sys_inv_push_lock(1))
next
  case (Push_loop a)
  with assms show ?thesis
    by (auto simp: with_fd_def Let_def split: if_splits option.splits intro!: sys_inv_pc sys_inv_set_fd)
next
  case (Push_failed a)
  with assms show ?thesis
    by (auto simp: with_fd_def keeps_enqueue_def keeps_push_def intro: delete_own_inv)
next
  case (Push_unlock a)
  with assms show ?thesis
    by (auto simp: with_fd_def keeps_enqueue_def intro!: sys_inv_push_lock(2))
qed

lemma delete_free_inv:
  assumes "sys_inv s" "sys_pc s t = In_delete a Del_free"
  shows "sys_inv (at_pc t Io_idle (s\<lparr>sys_io := (sys_io s)\<lparr>io_heap := (io_heap (sys_io s))(a := None)\<rparr>\<rparr>))"
proof -
  let ?H = "dom (io_heap (sys_io s))"
  have d: "(pc_deletes \<circ> sys_pc s) t = Some a" "(gone_enqueue \<circ> sys_pc s) t = Some a" "(gone_push \<circ> sys_pc s) t = Some a"
    "(holds_enqueue \<circ> sys_pc s) t = None" "(holds_push \<circ> sys_pc s) t = None"
    using assms(2) by simp_all
  have "a \<in> ran (pc_deletes \<circ> sys_pc s)" using d(1) by (rule ranI)
  then have a: "a \<in> ?H" using assms(1) by (auto simp: sys_inv_def owned_def)
  note inv = assms(1) [unfolded sys_inv_def]
  from inv have o: "owned (io_connected (sys_io s)) (doomed (io_jobs (sys_io s))) ?H (pc_deletes \<circ> sys_pc s)" by simp
  have "data_inv ((sys_io s)\<lparr>io_heap := (io_heap (sys_io s))(a := None)\<rparr>)" using inv by (simp add: data_inv_def)
  with inv owned_free [where D = "pc_deletes \<circ> sys_pc s", OF o d(1)] lock_ok_free [where G = "gone_enqueue \<circ> sys_pc s", OF _ d(2) a]
    lock_ok_free [where G = "gone_push \<circ> sys_pc s", OF _ d(3) a] d(4,5) show ?thesis
    by (simp add: sys_inv_def io_connected_def fun_upd_comp fun_upd_idem dom_fun_upd)
qed

lemma sys_inv_set_null:
  "sys_inv s \<Longrightarrow> sys_inv (set_sync s a ((sys_sync s a)\<lparr>enqueue_null := x\<rparr>))"
  "sys_inv s \<Longrightarrow> sys_inv (set_sync s a ((sys_sync s a)\<lparr>push_null := x\<rparr>))"
  by (simp_all add: sys_inv_def fun_upd_comp fun_upd_idem)

lemma delete_step_inv:
  assumes "sys_inv s" "delete_step t s a c = Goes s' evs" "sys_pc s t = In_delete a c"
  shows "sys_inv s'"
  using assms
proof (cases c)
  case Del_free
  with assms show ?thesis by (auto simp: with_fd_def intro!: delete_free_inv)
next
  case Del_free_enqueue
  with assms show ?thesis by (auto simp: with_fd_def intro!: sys_inv_pc sys_inv_set_null)
next
  case Del_free_push
  with assms show ?thesis by (auto simp: with_fd_def intro!: sys_inv_pc sys_inv_set_null)
qed (use assms in \<open>auto simp: with_fd_def keeps_enqueue_def keeps_push_def intro!: sys_inv_enqueue_lock sys_inv_push_lock\<close>)

lemma take_job_inv:
  assumes "sys_inv s" "take_job t s = Goes s' evs" "sys_pc s t = Io_idle"
  shows "sys_inv s'"
proof -
  obtain j jobs where j: "io_jobs (sys_io s) = j # jobs" "s' = at_pc t (job_pc j) (s\<lparr>sys_io := (sys_io s)\<lparr>io_jobs := jobs\<rparr>\<rparr>)"
    using assms(2) by (auto simp: take_job_def split: list.splits)
  have "data_inv ((sys_io s)\<lparr>io_jobs := jobs\<rparr>)" using assms(1) by (simp add: sys_inv_def data_inv_def)
  moreover have "io_connected ((sys_io s)\<lparr>io_jobs := jobs\<rparr>) = io_connected (sys_io s)" by (simp add: io_connected_def)
  ultimately show ?thesis using assms(1,3) j owned_take [of _ _ _ _ "pc_deletes \<circ> sys_pc s" t]
    by (cases j) (simp_all add: sys_inv_def fun_upd_comp fun_upd_idem)
qed

lemma worker_step_inv:
  assumes "sys_inv s" "worker_step casts send t s = Goes s' evs"
  shows "sys_inv s'"
proof (cases "sys_pc s t")
  case Io_idle
  with assms(2) show ?thesis by (intro take_job_inv [OF assms(1)]) (simp_all add: worker_step_def)
next
  case (In_enqueue c)
  with assms(2) show ?thesis by (intro enqueue_step_inv [OF assms(1)]) (simp_all add: worker_step_def)
next
  case (In_push c)
  with assms(2) show ?thesis by (intro push_step_inv [OF assms(1)]) (simp_all add: worker_step_def)
next
  case (In_delete a c)
  with assms(2) show ?thesis by (intro delete_step_inv [OF assms(1)]) (simp_all add: worker_step_def)
qed

lemma gone_deletes: "gone_enqueue c = Some a \<or> gone_push c = Some a \<Longrightarrow> pc_deletes c = Some a"
  by (cases c) (auto split: if_splits)

lemma sys_inv_add:
  assumes "sys_inv s" "ce_io_add st a (sys_io s) fd = Some (io, r)" "io_heap (sys_io s) a = None" "dict_small (io_dict (sys_io s))"
  shows "sys_inv ((set_sync s a new_sync)\<lparr>sys_io := io\<rparr>)"
proof -
  let ?H = "dom (io_heap (sys_io s))"
  note inv = assms(1) [unfolded sys_inv_def]
  have a: "a \<notin> ?H" using assms(3) by (simp add: domIff)
  with inv have "a \<notin> io_connected (sys_io s)" "a \<notin> ran (pc_deletes \<circ> sys_pc s)" by (auto simp: owned_def)
  note eff = ce_io_add_effect [OF assms(2) _ assms(4) this(1)]
  have "a \<notin> ran (gone_enqueue \<circ> sys_pc s)" "a \<notin> ran (gone_push \<circ> sys_pc s)"
    using \<open>a \<notin> ran (pc_deletes \<circ> sys_pc s)\<close> gone_deletes by (fastforce simp: ran_def)+
  with inv a have "lock_ok (insert a ?H) ((enqueue_lock \<circ> sys_sync s)(a := Unlocked)) (holds_enqueue \<circ> sys_pc s) (gone_enqueue \<circ> sys_pc s)"
    "lock_ok (insert a ?H) ((push_lock \<circ> sys_sync s)(a := Unlocked)) (holds_push \<circ> sys_pc s) (gone_push \<circ> sys_pc s)"
    "lock_ok ?H ((enqueue_lock \<circ> sys_sync s)(a := Unlocked)) (holds_enqueue \<circ> sys_pc s) (gone_enqueue \<circ> sys_pc s)"
    "lock_ok ?H ((push_lock \<circ> sys_sync s)(a := Unlocked)) (holds_push \<circ> sys_pc s) (gone_push \<circ> sys_pc s)"
    by (simp_all add: lock_ok_new lock_ok_outside)
  with inv eff a owned_add [of _ _ ?H "pc_deletes \<circ> sys_pc s" a] show ?thesis
    by (cases r) (simp_all add: sys_inv_def fun_upd_comp new_sync_def)
qed

lemma program_step_inv:
  assumes "program_step casts s s'" "sys_inv s"
  shows "sys_inv s'"
  using assms
proof cases
  case (call_add st a fd io r)
  with assms(2) show ?thesis by (simp add: sys_inv_add)
next
  case (call_del fd io r)
  with assms(2) show ?thesis by (simp add: sys_inv_del)
next
  case (call_enqueue fd data len io r)
  with assms(2) jobs_only_enqueue [of casts "sys_io s" fd data len io r] show ?thesis
    by (auto simp: sys_inv_def)
next
  case (call_push ty fd data len io r)
  with assms(2) jobs_only_enqueue [of casts "sys_io s" fd data len io r ty] show ?thesis
    by (auto simp: sys_inv_def)
qed

lemma sys_start_inv:
  assumes "ce_io_new st conf = Some io" "io' = io \<or> io' = io\<lparr>push_fd_event := ev\<rparr>"
  shows "sys_inv (sys_start io')"
proof -
  note new = ce_io_new_ready [OF assms(1)]
  have "io_heap io = Map.empty" using assms(1) by (auto simp: ce_io_new_def split: if_splits Option.bind_splits)
  with assms(2) have io': "io_heap io' = Map.empty" "io_dict io' = io_dict io" "io_jobs io' = []" "io_conf io' = io_conf io"
    using new(4) by auto
  have "data_inv io'" using new(1,3) io' by (simp add: data_inv_def io_ready_def)
  moreover have "io_connected io' = {}" using new(3) io' by (simp add: io_connected_def)
  ultimately show ?thesis using owned_start lock_ok_start io'
    by (simp add: sys_inv_def sys_start_def comp_def new_sync_def)
qed

lemma io_reach_inv: "io_reach casts send s0 s \<Longrightarrow> sys_inv s0 \<Longrightarrow> sys_inv s"
  by (induction rule: io_reach.induct) (auto intro: worker_step_inv program_step_inv)

section \<open>Exclusion\<close>

lemma lock_okD:
  assumes "lock_ok H (lk \<circ> Y) (P \<circ> pcs) G"
  shows "lk (Y a) = Locked t \<longleftrightarrow> P (pcs t) = Some a" "P (pcs t) = Some a \<Longrightarrow> a \<in> H"
    "P (pcs t) = Some a \<Longrightarrow> P (pcs u) = Some a \<Longrightarrow> t = u"
proof -
  show h: "lk (Y a) = Locked t \<longleftrightarrow> P (pcs t) = Some a" for t using assms by (simp add: lock_ok_def)
  show "P (pcs t) = Some a \<Longrightarrow> a \<in> H" using assms ranI [of "P \<circ> pcs" t a] by (auto simp: lock_ok_def)
  show "P (pcs t) = Some a \<Longrightarrow> P (pcs u) = Some a \<Longrightarrow> t = u" using h [of t] h [of u] by simp
qed

lemma sys_inv_deletes:
  assumes "sys_inv s" "pc_deletes (sys_pc s t) = Some a"
  shows "io_heap (sys_io s) a \<noteq> None" "a \<notin> io_connected (sys_io s)" "Delete_job a \<notin> set (io_jobs (sys_io s))"
    "pc_deletes (sys_pc s u) = Some a \<Longrightarrow> u = t"
proof -
  have o: "owned (io_connected (sys_io s)) (doomed (io_jobs (sys_io s))) (dom (io_heap (sys_io s))) (pc_deletes \<circ> sys_pc s)"
    using assms(1) by (simp add: sys_inv_def)
  have a: "a \<in> ran (pc_deletes \<circ> sys_pc s)" using assms(2) ranI [of "pc_deletes \<circ> sys_pc s" t a] by simp
  then have "a \<in> dom (io_heap (sys_io s))" using o by (simp add: owned_def)
  then show "io_heap (sys_io s) a \<noteq> None" by (simp add: domIff)
  show "a \<notin> io_connected (sys_io s)" using a o by (auto simp: owned_def)
  have "a \<notin> set (doomed (io_jobs (sys_io s)))" using a o by (auto simp: owned_def)
  moreover have "Delete_job a \<in> set js \<Longrightarrow> a \<in> set (doomed js)" for js by (induction js rule: doomed.induct) auto
  ultimately show "Delete_job a \<notin> set (io_jobs (sys_io s))" by blast
  assume "pc_deletes (sys_pc s u) = Some a"
  with assms(2) o show "u = t" by (auto simp: owned_def inj_on_def dom_def)
qed


section \<open>The code as it stands\<close>

text \<open>Since nobody writes to the ring of events, the processor of received bytes ends at once, and only deleting takes locks.\<close>

definition calm :: "io_sys \<Rightarrow> bool" where
  "calm s \<longleftrightarrow> can_read (push_fd_event (sys_io s)) < 8 \<and>
     (\<forall>t. sys_pc s t \<in> {Io_idle, In_enqueue Enq_test} \<or> (\<exists>a c. sys_pc s t = In_delete a c))"

fun del_next :: "nat \<Rightarrow> delete_pc \<Rightarrow> io_pc" where
  "del_next a Del_lock_enqueue = In_delete a Del_free_enqueue"
| "del_next a Del_free_enqueue = In_delete a Del_unlock_enqueue"
| "del_next a Del_unlock_enqueue = In_delete a Del_destroy_enqueue"
| "del_next a Del_destroy_enqueue = In_delete a Del_lock_push"
| "del_next a Del_lock_push = In_delete a Del_free_push"
| "del_next a Del_free_push = In_delete a Del_unlock_push"
| "del_next a Del_unlock_push = In_delete a Del_destroy_push"
| "del_next a Del_destroy_push = In_delete a Del_free"
| "del_next a Del_free = Io_idle"

lemma calm_lock:
  assumes "sys_inv s" "calm s" "sys_pc s t = In_delete a c"
  shows "enqueue_lock (sys_sync s a) =
      (if gone_enqueue (In_delete a c) \<noteq> None then Destroyed else if holds_enqueue (In_delete a c) \<noteq> None then Locked t else Unlocked)"
    "push_lock (sys_sync s a) =
      (if gone_push (In_delete a c) \<noteq> None then Destroyed else if holds_push (In_delete a c) \<noteq> None then Locked t else Unlocked)"
proof -
  have H: "a \<in> dom (io_heap (sys_io s))" using sys_inv_deletes(1) [OF assms(1), of t a] assms(3) by (simp add: domIff)
  have only: "u = t" if "pc_deletes (sys_pc s u) = Some a" for u
    using sys_inv_deletes(4) [OF assms(1), of t a u] assms(3) that by simp
  have holder: "u = t" if "holds_enqueue (sys_pc s u) = Some a \<or> holds_push (sys_pc s u) = Some a" for u
  proof -
    have "sys_pc s u \<in> {Io_idle, In_enqueue Enq_test} \<or> (\<exists>b d. sys_pc s u = In_delete b d)"
      using assms(2) by (simp add: calm_def)
    with that obtain b d where "sys_pc s u = In_delete b d" by auto
    moreover from this that have "b = a" by (cases d) auto
    ultimately show ?thesis by (intro only) simp
  qed
  have state: "lk (sys_sync s a) = (if G (In_delete a c) \<noteq> None then Destroyed else if P (In_delete a c) \<noteq> None then Locked t else Unlocked)"
    if ok: "lock_ok (dom (io_heap (sys_io s))) (lk \<circ> sys_sync s) (P \<circ> sys_pc s) (G \<circ> sys_pc s)"
      and P: "\<And>u. P (sys_pc s u) = Some a \<Longrightarrow> u = t" and G: "\<And>u. G (sys_pc s u) = Some a \<Longrightarrow> u = t"
      and Pa: "P (In_delete a c) \<in> {None, Some a}" and Ga: "G (In_delete a c) \<in> {None, Some a}" for lk P G
  proof -
    have "lk (sys_sync s a) = Destroyed \<longleftrightarrow> (\<exists>u. G (sys_pc s u) = Some a)"
      using ok H by (simp add: lock_ok_def ran_def)
    also have "\<dots> \<longleftrightarrow> G (In_delete a c) \<noteq> None" using G Ga assms(3) by (metis insertE option.distinct(1) singletonD)
    finally have D: "lk (sys_sync s a) = Destroyed \<longleftrightarrow> G (In_delete a c) \<noteq> None" .
    have L: "lk (sys_sync s a) = Locked u \<longleftrightarrow> P (sys_pc s u) = Some a" for u using lock_okD(1) [OF ok] .
    show ?thesis
    proof (cases "lk (sys_sync s a)")
      case (Locked u)
      with L P have "u = t" "P (In_delete a c) = Some a" using assms(3) by (metis)+
      with Locked D show ?thesis by auto
    next
      case Unlocked
      with L [of t] Pa assms(3) D show ?thesis by auto
    next
      case Destroyed
      with D show ?thesis by simp
    qed
  qed
  have gone: "gone_enqueue d = Some a \<or> gone_push d = Some a \<Longrightarrow> pc_deletes d = Some a" for d by (rule gone_deletes)
  show "enqueue_lock (sys_sync s a) =
      (if gone_enqueue (In_delete a c) \<noteq> None then Destroyed else if holds_enqueue (In_delete a c) \<noteq> None then Locked t else Unlocked)"
    using assms(1) holder only gone by (intro state) (auto simp: sys_inv_def, (cases c; simp)+)
  show "push_lock (sys_sync s a) =
      (if gone_push (In_delete a c) \<noteq> None then Destroyed else if holds_push (In_delete a c) \<noteq> None then Locked t else Unlocked)"
    using assms(1) holder only gone by (intro state) (auto simp: sys_inv_def, (cases c; simp)+)
qed

lemma calm_delete_step:
  assumes "sys_inv s" "calm s" "sys_pc s t = In_delete a c"
  shows "\<exists>s'. delete_step t s a c = Goes s' [] \<and> sys_pc s' = (sys_pc s)(t := del_next a c) \<and>
    push_fd_event (sys_io s') = push_fd_event (sys_io s)"
proof -
  obtain f where "io_heap (sys_io s) a = Some f" using sys_inv_deletes(1) [OF assms(1), of t a] assms(3) by auto
  with calm_lock [OF assms] show ?thesis by (cases c) (simp_all add: with_fd_def)
qed

text \<open>Every thread that is not idle goes on, and one that is takes a job if there is one.\<close>

lemma calm_worker_step:
  assumes "sys_inv s" "calm s" "sys_pc s t \<noteq> Io_idle \<or> io_jobs (sys_io s) \<noteq> []"
  shows "\<exists>s'. worker_step casts send t s = Goes s' [] \<and>
    sys_pc s' = (sys_pc s)(t := case sys_pc s t of Io_idle \<Rightarrow> job_pc (hd (io_jobs (sys_io s))) | In_delete a c \<Rightarrow> del_next a c | _ \<Rightarrow> Io_idle) \<and>
    push_fd_event (sys_io s') = push_fd_event (sys_io s)"
proof -
  have "sys_pc s t \<in> {Io_idle, In_enqueue Enq_test} \<or> (\<exists>a c. sys_pc s t = In_delete a c)"
    using assms(2) by (simp add: calm_def)
  then consider "sys_pc s t = Io_idle" | "sys_pc s t = In_enqueue Enq_test" | a c where "sys_pc s t = In_delete a c" by blast
  then show ?thesis
  proof cases
    case 1
    with assms(3) show ?thesis by (auto simp: worker_step_def take_job_def neq_Nil_conv)
  next
    case 2
    with assms(2) show ?thesis by (simp add: worker_step_def next_event_def calm_def)
  next
    case (3 a c)
    with calm_delete_step [OF assms(1,2) 3] show ?thesis by (simp add: worker_step_def)
  qed
qed

lemma calm_pc: "calm s \<Longrightarrow> sys_pc s' = (sys_pc s)(t := c) \<Longrightarrow> push_fd_event (sys_io s') = push_fd_event (sys_io s) \<Longrightarrow>
    c \<in> {Io_idle, In_enqueue Enq_test} \<or> (\<exists>a d. c = In_delete a d) \<Longrightarrow> calm s'"
  by (simp add: calm_def)

lemma calm_kept:
  assumes "sys_inv s" "calm s" "worker_step casts send t s = Goes s' evs"
  shows "calm s' \<and> evs = []"
proof -
  have "sys_pc s t \<noteq> Io_idle \<or> io_jobs (sys_io s) \<noteq> []"
    using assms(3) by (auto simp: worker_step_def take_job_def)
  from calm_worker_step [OF assms(1,2) this, of casts send] assms(3) have
    s': "sys_pc s' = (sys_pc s)(t := case sys_pc s t of Io_idle \<Rightarrow> job_pc (hd (io_jobs (sys_io s))) | In_delete a c \<Rightarrow> del_next a c | _ \<Rightarrow> Io_idle)"
      "push_fd_event (sys_io s') = push_fd_event (sys_io s)" "evs = []"
    by auto
  have "job_pc j \<in> {Io_idle, In_enqueue Enq_test} \<or> (\<exists>a d. job_pc j = In_delete a d)" for j by (cases j) simp_all
  moreover have "del_next a c \<in> {Io_idle, In_enqueue Enq_test} \<or> (\<exists>a' d. del_next a c = In_delete a' d)" for a c
    by (cases c) simp_all
  ultimately show ?thesis using calm_pc [OF assms(2) s'(1,2)] s'(3) by (cases "sys_pc s t") simp_all
qed

lemma calm_program: "program_step casts s s' \<Longrightarrow> calm s \<Longrightarrow> calm s'"
  by (cases rule: program_step.cases) (auto simp: calm_def push_fd_event_calls)

lemma calm_reach: "io_reach casts send s0 s \<Longrightarrow> sys_inv s0 \<Longrightarrow> calm s0 \<Longrightarrow> sys_inv s \<and> calm s"
  by (induction rule: io_reach.induct)
    (auto intro: worker_step_inv program_step_inv calm_program dest: calm_kept)

lemma calm_start: "ce_io_new st conf = Some io \<Longrightarrow> calm (sys_start io)"
  using ce_io_new_ready(9) [of st conf io] by (simp add: calm_def sys_start_def)

text \<open>Running alone, a thread ends its job.\<close>

fun steps_left :: "io_pc \<Rightarrow> nat" where
  "steps_left (In_enqueue c) = 1"
| "steps_left (In_delete a c) =
     (case c of Del_lock_enqueue \<Rightarrow> 9 | Del_free_enqueue \<Rightarrow> 8 | Del_unlock_enqueue \<Rightarrow> 7 | Del_destroy_enqueue \<Rightarrow> 6
      | Del_lock_push \<Rightarrow> 5 | Del_free_push \<Rightarrow> 4 | Del_unlock_push \<Rightarrow> 3 | Del_destroy_push \<Rightarrow> 2 | Del_free \<Rightarrow> 1)"
| "steps_left _ = 0"

lemma calm_ends:
  assumes "sys_inv s" "calm s"
  shows "\<exists>s'. worker_run casts send t s [] s' \<and> sys_pc s' = (sys_pc s)(t := Io_idle)"
  using assms
proof (induction "steps_left (sys_pc s t)" arbitrary: s rule: less_induct)
  case less
  show ?case
  proof (cases "sys_pc s t = Io_idle")
    case True
    then show ?thesis by (intro exI [of _ s]) (simp add: worker_stays fun_upd_idem)
  next
    case False
    then obtain s1 where s1: "worker_step casts send t s = Goes s1 []"
      "sys_pc s1 = (sys_pc s)(t := case sys_pc s t of Io_idle \<Rightarrow> job_pc (hd (io_jobs (sys_io s))) | In_delete a c \<Rightarrow> del_next a c | _ \<Rightarrow> Io_idle)"
      using calm_worker_step [OF less.prems, of t casts send] by blast
    have "sys_pc s t \<in> {In_enqueue Enq_test} \<or> (\<exists>a c. sys_pc s t = In_delete a c)"
      using less.prems(2) False by (auto simp: calm_def)
    moreover have "steps_left (del_next a c) < steps_left (In_delete a c)" for a c by (cases c) simp_all
    ultimately have "steps_left (sys_pc s1 t) < steps_left (sys_pc s t)" by (auto simp: s1(2))
    from less.hyps [OF this] worker_step_inv [OF less.prems(1) s1(1)] calm_kept [OF less.prems s1(1)] obtain s' where
      "worker_run casts send t s1 [] s'" "sys_pc s' = (sys_pc s1)(t := Io_idle)"
      by auto
    with worker_run_first [OF s1(1)] s1(2) show ?thesis by auto
  qed
qed


section \<open>A job that runs alone\<close>

text \<open>
  C20: Run by one thread without interruption, with the locks of all connections free, the steps of a job do what the job does
  in the sequential model (\<open>run_job\<close>): the same new state, the same events in the same order, and all locks are free again.
\<close>

theorem run_job_refined:
  assumes "run_job casts (sys_io s) = Some (io', evs)" "io_jobs (sys_io s) \<noteq> []" "sys_pc s t = Io_idle"
    and "sync_free (sys_io s) (sys_sync s)"
  shows "\<exists>Y. worker_run casts send t s evs (s\<lparr>sys_io := io', sys_sync := Y\<rparr>) \<and> sync_free io' Y"
proof -
  obtain io Y pcs where s: "s = \<lparr>sys_io = io, sys_sync = Y, sys_pc = pcs(t := Io_idle)\<rparr>" "pcs t = Io_idle"
    using assms(3) by (metis fun_upd_triv io_sys.surjective old.unit.exhaust)
  obtain j jobs where j: "io_jobs io = j # jobs" using assms(2) s(1) by (cases "io_jobs io") auto
  let ?io = "io\<lparr>io_jobs := jobs\<rparr>"
  have take: "worker_step casts send t s = Goes \<lparr>sys_io = ?io, sys_sync = Y, sys_pc = pcs(t := job_pc j)\<rparr> []"
    by (simp add: s(1) j worker_step_def step_defs at_pc_def)
  have free: "sync_free ?io Y" using assms(4) s(1) by (simp add: sync_free_def)
  show ?thesis
  proof (cases j)
    case Enqueue_job
    with assms(1) s(1) j have "enqueue_buffer_processor casts ?io = Some (io', evs)" by (simp add: run_job_def)
    from enqueue_processor_run [OF this free, of send t pcs] take Enqueue_job s(1) show ?thesis
      by (intro exI [of _ Y]) (auto intro: worker_run_first)
  next
    case (Delete_job a)
    with assms(1) s(1) j obtain f where f: "io_heap ?io a = Some f" "evs = []"
      "io' = ?io\<lparr>io_heap := (io_heap ?io)(a := None)\<rparr>"
      by (auto simp: run_job_def delete_fd_processor_def split: Option.bind_splits)
    from delete_processor_run [OF f(1), of Y] free f(1) obtain y where
      "worker_run casts send t \<lparr>sys_io = ?io, sys_sync = Y, sys_pc = pcs(t := In_delete a Del_lock_enqueue)\<rparr> []
        \<lparr>sys_io = io', sys_sync = Y(a := y), sys_pc = pcs(t := Io_idle)\<rparr>"
      unfolding f(3) sync_free_def by blast
    moreover have "sync_free io' (Y(a := y))" using free f(3) by (simp add: sync_free_def)
    ultimately show ?thesis using worker_run_first [OF take] Delete_job f(2) s(1) by auto
  qed
qed

section \<open>Sample runs\<close>

lemma ce_io_del_ok:
  assumes "connected io fd a f"
  shows "\<exists>d. ce_io_del As_meant (Some io) fd = Some (Some (io\<lparr>io_dict := d, io_jobs := io_jobs io @ [Delete_job a]\<rparr>), True)"
proof -
  obtain key d1 loc e where d1: "fd_key fd = Some key" "dictFind (io_dict io) key = Some (d1, Some loc)"
    "dict_entry_at d1 loc = Some e" "de_val e = Some a"
    using assms by (rule connected_findE)
  have io: "\<not> io_stop io" "\<not> fd \<le> 0" "dict_wf (io_dict io)" "type_ok (io_dict io)" using assms by (simp_all add: connected_def)
  obtain d2 r evs where "dictDelete d1 key = Some (d2, r, evs)"
  proof -
    have "rehash_keeps (io_dict io) d1" using dictFind_ok [OF io(3,4), of key] d1(2) by auto
    from rehash_keepsD(1,2) [OF this io(3)] io(4) have "dict_wf d1" "type_ok d1"
      using same_frame_cong [of "io_dict io" d1] by simp_all
    from dictGenericDelete_ok [OF this, of key False] obtain d2 x where "dictDelete d1 key = Some (d2, x)"
      unfolding dictDelete_def by blast
    with that show thesis by (cases x) simp
  qed
  with d1 io(1,2) show ?thesis by (intro exI [of _ d2]) (simp add: ce_io_del_def Let_def entry_io_fd_def)
qed

lemma reach_run: "worker_run casts send t s evs s' \<Longrightarrow> io_reach casts send s0 s \<Longrightarrow> io_reach casts send s0 s'"
  by (induction rule: worker_run.induct) (auto intro: reach_worker)

lemma ce_io_enqueue_frame:
  assumes "ce_io_enqueue casts (Some io) fd data len = Some (Some io', r)"
  shows "io_conf io' = io_conf io" "\<forall>a f'. io_heap io' a = Some f' \<longrightarrow> (\<exists>f. io_heap io a = Some f \<and> io_fd_fd f' = io_fd_fd f)"
  using assms by (auto simp: ce_io_enqueue_def Let_def split: if_splits option.splits Option.bind_splits)

text \<open>A connection was added, received a packet and was deleted; the jobs are waiting.\<close>

lemma sample_jobs:
  assumes io: "ce_io_new dict_statics_start sample_conf = Some io"
  shows "\<exists>io' f. io_reach As_meant send (sys_start (io\<lparr>push_fd_event := ev\<rparr>))
       \<lparr>sys_io = io', sys_sync = \<lambda>_. new_sync, sys_pc = \<lambda>_. Io_idle\<rparr> \<and>
     io_jobs io' = [Enqueue_job, Delete_job 7] \<and> io_heap io' = [7 \<mapsto> f] \<and> push_fd_event io' = ev \<and>
     per_max_packet_body_size (io_conf io') = 64 \<and> io_fd_fd f = 5 \<and>
     rb_inv (enqueue_buffer f) \<and> rb_contents (enqueue_buffer f) = [2, 0, 7, 8]"
proof -
  note new = ce_io_new_ready [OF io]
  let ?io = "io\<lparr>push_fd_event := ev\<rparr>" and ?s = "\<lambda>io. \<lparr>sys_io = io, sys_sync = \<lambda>_. new_sync, sys_pc = \<lambda>_. Io_idle\<rparr>"
  have heap: "io_heap io = Map.empty" using io by (auto simp: ce_io_new_def split: if_splits Option.bind_splits)
  have ready: "io_ready ?io" "\<not> io_stop ?io" "dict_map (io_dict ?io) (cstring_of [5]) = None" "rb_inv (enqueue_fd_event ?io)"
    using new by (simp_all add: io_ready_def)
  obtain d f where add: "ce_io_add dict_statics_start 7 ?io 5 = Some (?io\<lparr>io_dict := d, io_heap := (io_heap ?io)(7 \<mapsto> f)\<rparr>, True)"
    "connected (?io\<lparr>io_dict := d, io_heap := (io_heap ?io)(7 \<mapsto> f)\<rparr>) 5 7 f" "io_fresh 5 (per_cache_ringbuffer_size (io_conf ?io)) f"
    using ce_io_add_connected [OF ready(1,2) fd_key_5 ready(3) _ ready(4), of dict_statics_start 7] by auto
  define io1 where "io1 = ?io\<lparr>io_dict := d, io_heap := (io_heap ?io)(7 \<mapsto> f)\<rparr>"
  have 1: "program_step As_meant (?s ?io) (?s io1)"
    using program_step.call_add [of dict_statics_start 7 "?s ?io" 5 io1 True As_meant] add(1) heap ready(1)
    by (simp add: io1_def io_ready_def set_sync_def fun_upd_idem)
  have room: "4 \<le> free_space (enqueue_buffer f)" "8 \<le> free_space (enqueue_fd_event io1)" "rb_contents (enqueue_buffer f) = []"
    using add(3) new(5,7) by (simp_all add: io_fresh_def free_space_def io1_def sample_conf_def)
  have "(0 :: packet_len_t) < 4" "unat (4 :: packet_len_t) \<le> length [2, 0, 7, 8 :: u8]" "min 4 (free_space (enqueue_buffer f)) = 4"
    using room(1) by simp_all
  from ce_io_enqueue_ok [OF add(2) this(1,2)] this(3) obtain io2 f2 where
    io2: "ce_io_enqueue As_meant (Some io1) 5 (Some [2, 0, 7, 8]) 4 = Some (Some io2, True)"
      "connected io2 5 7 f2" "io_jobs io2 = [Enqueue_job]" "\<forall>b. b \<noteq> 7 \<longrightarrow> io_heap io2 b = None"
      "rb_contents (enqueue_buffer f2) = [2, 0, 7, 8]"
    using room new(4) heap by (auto simp: io1_def)
  have 2: "program_step As_meant (?s io1) (?s io2)"
    using program_step.call_enqueue [of As_meant "?s io1" 5 "Some [2, 0, 7, 8]" 4 io2 True] io2(1) by simp
  obtain d3 where io3: "ce_io_del As_meant (Some io2) 5 = Some (Some (io2\<lparr>io_dict := d3, io_jobs := [Enqueue_job, Delete_job 7]\<rparr>), True)"
    using ce_io_del_ok [OF io2(2)] io2(3) by auto
  let ?io3 = "io2\<lparr>io_dict := d3, io_jobs := [Enqueue_job, Delete_job 7]\<rparr>"
  have 3: "program_step As_meant (?s io2) (?s ?io3)"
    using program_step.call_del [of As_meant "?s io2" 5 ?io3 True] io3 by simp
  have "io_reach As_meant send (sys_start ?io) (?s ?io3)"
    unfolding sys_start_def
    by (rule reach_program [OF reach_program [OF reach_program [OF reach_start 1] 2] 3])
  moreover have "push_fd_event ?io3 = ev" "io_conf ?io3 = sample_conf" "io_fd_fd f2 = 5"
    using push_fd_event_calls(2) [OF io2(1)] ce_io_enqueue_frame(1) [OF io2(1)] new(5) add(3)
      ce_io_enqueue_frame(2) [OF io2(1), rule_format, of 7 f2] io2(2)
    by (simp_all add: io1_def connected_def io_fresh_def)
  moreover have "io_heap ?io3 = [7 \<mapsto> f2]" "rb_inv (enqueue_buffer f2)" using io2(2,4) by (auto simp: connected_def)
  ultimately show ?thesis using io2(5) by (intro exI [of _ ?io3] exI [of _ f2]) (simp add: sample_conf_def)
qed

text \<open>The connection's pointer as an event.\<close>

lemma sample_event:
  obtains ev ev' where "rb_get ev 8 = Some (ev', le_bytes 8 7)" "\<not> can_read ev < 8" "can_read ev' < 8"
    "event_io_fd As_meant (le_bytes 8 7) = Some 7"
proof -
  define ev where "ev = sample_rb (le_bytes 8 7)"
  have ev: "rb_inv ev" "rb_contents ev = le_bytes 8 7" "length (le_bytes 8 7) = 8"
    using sample_rb_ok [of "le_bytes 8 7"] by (simp_all add: ev_def le_bytes_def)
  obtain ev' where ev': "rb_get ev 8 = Some (ev', le_bytes 8 7)" "\<not> can_read ev < 8" "rb_inv ev'" "rb_contents ev' = []"
    using rb_get_law [OF ev(1), of 8] length_rb_contents [OF ev(1)] ev(2,3) by auto
  moreover have "can_read ev' < 8" using length_rb_contents [OF ev'(3)] ev'(4) by simp
  moreover have "event_io_fd As_meant (le_bytes 8 7) = Some 7"
    using le_value_le_bytes [of 8 7] by (simp add: event_io_fd_def del: le_value.simps)
  ultimately show thesis by (intro that)
qed

text \<open>
  The locks do not keep a connection alive for a thread that is about to take one: were the ring of events to hold
  its pointer, and two threads to run the two jobs, the second may free it between the read of the pointer and the lock.
\<close>

lemma waiting_thread_not_protected:
  "\<exists>io ev s. ce_io_new dict_statics_start sample_conf = Some io \<and>
     io_reach As_meant send (sys_start (io\<lparr>push_fd_event := ev\<rparr>)) s \<and>
     sys_pc s 0 = In_enqueue (Enq_lock 7) \<and> worker_step As_meant send 0 s = Fault"
proof -
  obtain ev ev' where ev': "rb_get ev 8 = Some (ev', le_bytes 8 7)" "\<not> can_read ev < 8"
    and slot: "event_io_fd As_meant (le_bytes 8 7) = Some 7"
    by (rule sample_event) blast
  obtain io where io: "ce_io_new dict_statics_start sample_conf = Some io" using sample_io_new by blast
  let ?Y = "\<lambda>_ :: nat. new_sync"
  obtain io0 f where s: "io_reach As_meant send (sys_start (io\<lparr>push_fd_event := ev\<rparr>)) \<lparr>sys_io = io0, sys_sync = ?Y, sys_pc = \<lambda>_. Io_idle\<rparr>"
    "io_jobs io0 = [Enqueue_job, Delete_job 7]" "io_heap io0 7 = Some f" "push_fd_event io0 = ev"
    using sample_jobs [OF io, of send ev] by auto
  let ?io1 = "io0\<lparr>io_jobs := [Delete_job 7]\<rparr>"
  let ?io2 = "?io1\<lparr>push_fd_event := ev'\<rparr>"
  let ?io3 = "?io2\<lparr>io_jobs := []\<rparr>"
  let ?pcs = "(\<lambda>_. Io_idle)(0 := In_enqueue (Enq_lock 7))"
  have 1: "worker_step As_meant send 0 \<lparr>sys_io = io0, sys_sync = ?Y, sys_pc = \<lambda>_. Io_idle\<rparr> = Goes \<lparr>sys_io = ?io1, sys_sync = ?Y, sys_pc = (\<lambda>_. Io_idle)(0 := In_enqueue Enq_test)\<rparr> []"
    using s(2) by (simp add: worker_step_def take_job_def at_pc_def)
  have 2: "worker_step As_meant send 0 \<lparr>sys_io = ?io1, sys_sync = ?Y, sys_pc = (\<lambda>_. Io_idle)(0 := In_enqueue Enq_test)\<rparr> =
      Goes \<lparr>sys_io = ?io2, sys_sync = ?Y, sys_pc = ?pcs\<rparr> []"
    using ev' slot s(4) by (simp add: worker_step_def next_event_def at_pc_def)
  have 3: "worker_step As_meant send 1 \<lparr>sys_io = ?io2, sys_sync = ?Y, sys_pc = ?pcs\<rparr> =
      Goes \<lparr>sys_io = ?io3, sys_sync = ?Y, sys_pc = ?pcs(1 := In_delete 7 Del_lock_enqueue)\<rparr> []"
    by (simp add: worker_step_def take_job_def at_pc_def)
  obtain y where 4: "worker_run As_meant send 1 \<lparr>sys_io = ?io3, sys_sync = ?Y, sys_pc = ?pcs(1 := In_delete 7 Del_lock_enqueue)\<rparr> []
      \<lparr>sys_io = ?io3\<lparr>io_heap := (io_heap ?io3)(7 := None)\<rparr>, sys_sync = ?Y(7 := y), sys_pc = ?pcs(1 := Io_idle)\<rparr>"
    using delete_processor_run [of ?io3 7 f ?Y As_meant send 1 ?pcs] s(3) by auto
  let ?s = "\<lparr>sys_io = ?io3\<lparr>io_heap := (io_heap ?io3)(7 := None)\<rparr>, sys_sync = ?Y(7 := y), sys_pc = ?pcs(1 := Io_idle)\<rparr>"
  have "io_reach As_meant send (sys_start (io\<lparr>push_fd_event := ev\<rparr>)) ?s"
    by (rule reach_run [OF 4 reach_worker [OF reach_worker [OF reach_worker [OF s(1) 1] 2] 3]])
  moreover have "worker_step As_meant send 0 ?s = Fault"
    by (simp add: worker_step_def with_fd_def attempt_def)
  ultimately show ?thesis using io by (intro exI [of _ io] exI [of _ ev] exI [of _ ?s]) simp
qed

section \<open>Witnesses\<close>



text \<open>A job that hands on the packet of two bytes.\<close>

theorem run_job_refined_witness:
  "\<exists>s s'. worker_run As_meant (\<lambda>_ _. 0) 3 s [On_received 5 [7, 8]] s' \<and> sys_pc s 3 = Io_idle \<and> sys_pc s' 3 = Io_idle"
proof -
  obtain ev ev' where ev: "rb_get ev 8 = Some (ev', le_bytes 8 7)" "\<not> can_read ev < 8" "can_read ev' < 8"
    "event_io_fd As_meant (le_bytes 8 7) = Some 7"
    by (rule sample_event) blast
  obtain io where io: "ce_io_new dict_statics_start sample_conf = Some io" using sample_io_new by blast
  let ?send = "\<lambda>_ _. 0 :: int"
  obtain io0 :: ce_io and f :: ce_io_fd where s: "io_jobs io0 = [Enqueue_job, Delete_job 7]" "io_heap io0 = [7 \<mapsto> f]" "push_fd_event io0 = ev"
    "per_max_packet_body_size (io_conf io0) = 64" "io_fd_fd f = 5" "rb_inv (enqueue_buffer f)"
    "rb_contents (enqueue_buffer f) = [2, 0, 7, 8]"
    using sample_jobs [OF io, of ?send ev] by blast
  have "parse_packets 64 [2, 0, 7, 8] = ([[7, 8]], [], Drained)" by simp
  from packet_loop_parse [OF s(6), of 64, unfolded s(7), OF this] s(5) obtain f' where
    "packet_loop 64 f = Some (f', [On_received 5 [7, 8]], False)" by auto
  with ev s(1-4) have "\<exists>io'. run_job As_meant io0 = Some (io', [On_received 5 [7, 8]])"
    by (simp add: run_job_def enqueue_buffer_processor.simps [of As_meant "io0\<lparr>io_jobs := [Delete_job 7]\<rparr>"] processors_wait)
  then obtain io' where run: "run_job As_meant io0 = Some (io', [On_received 5 [7, 8]])" by blast
  let ?s = "\<lparr>sys_io = io0, sys_sync = \<lambda>_. new_sync, sys_pc = \<lambda>_. Io_idle\<rparr>"
  have "run_job As_meant (sys_io ?s) = Some (io', [On_received 5 [7, 8]])" "io_jobs (sys_io ?s) \<noteq> []" "sys_pc ?s 3 = Io_idle"
    "sync_free (sys_io ?s) (sys_sync ?s)"
    using run s(1) by (simp_all add: sync_free_def)
  from run_job_refined [OF this, of ?send] obtain Y where
    "worker_run As_meant ?send 3 ?s [On_received 5 [7, 8]] (?s\<lparr>sys_io := io', sys_sync := Y\<rparr>)" by blast
  then show ?thesis by (intro exI [of _ ?s] exI [of _ "?s\<lparr>sys_io := io', sys_sync := Y\<rparr>"]) simp
qed

end
