(* ===== verification/Ce_Server.thy ===== *)
theory Ce_Server
  imports Ce_Io
begin

text \<open>
  The server of \<^verbatim>\<open>cevent/ce_server.c\<close> on the packet layer. Sockets and the event loop are not part of this program's own
  code: what they answer is an argument, and each call of them is a \<open>net_event\<close>, so that the sequence of events says what
  was opened, closed, watched and reported. The event loop calls the handlers one after the other; its own use of
  \<open>apidata\<close>, which \<open>ce_server_startup\<close> overwrites, is left aside. A result of \<open>None\<close> is undefined behaviour or a call that does
  not return.
\<close>

section \<open>State\<close>

datatype ae_proc = Accept_tcp_handler | Read_from_client

datatype net_event =
    Sock_init bool
  | Opened int
  | Closed int
  | Keepalive int int
  | New_loop
  | Delete_loop
  | Stop_loop
  | Watch int ae_proc
  | Unwatch int
  | Timer int
  | On_accept int "u8 list" int
  | On_close int
  | Io io_event

record ce_server =
  server_fd :: int
  server_stop :: bool
  server_conf :: ce_conf
  server_io :: "ce_io option"

definition ANET_ERR :: int where
  "ANET_ERR = - 1"

definition AE_ERR :: int where
  "AE_ERR = - 1"

text \<open>\<open>send\<close> of the socket layer, its result taken as an \<open>int\<close>.\<close>

definition ce_server_send :: "(int \<Rightarrow> u8 list \<Rightarrow> int) \<Rightarrow> int \<Rightarrow> u8 list \<Rightarrow> packet_len_t \<Rightarrow> int" where
  "ce_server_send send fd buffer len = sint (word_of_int (send fd (take (unat len) buffer)) :: 32 word)"

section \<open>Handlers of the event loop\<close>

definition aeClientClose :: "io_casts \<Rightarrow> ce_server \<Rightarrow> int \<Rightarrow> (ce_server \<times> net_event list) option" where
  "aeClientClose casts server fd = do {
     _ \<leftarrow> ce_io_param (server_io server);
     (io, _) \<leftarrow> ce_io_del casts (server_io server) fd;
     Some (server\<lparr>server_io := io\<rparr>, [Unwatch fd, Closed fd, On_close fd])
   }"

text \<open>\<open>received\<close> is what \<open>recv\<close> stores in the buffer of \<open>MAX_BUFFER\<close> bytes, nothing at the end and after an error.\<close>

definition aeReadFromClient :: "io_casts \<Rightarrow> ce_server \<Rightarrow> int \<Rightarrow> u8 list \<Rightarrow> (ce_server \<times> net_event list) option" where
  "aeReadFromClient casts server fd received =
     (if received = [] then aeClientClose casts server fd
      else do {
        (io, r) \<leftarrow> ce_io_enqueue casts (server_io server) fd (Some received) (word_of_nat (length received));
        if \<not> r then aeClientClose casts (server\<lparr>server_io := io\<rparr>) fd
        else Some (server\<lparr>server_io := io\<rparr>, [])
      })"

text \<open>What the sockets, the loop and the allocator answer.\<close>

record accept_answers =
  acc_fd :: int
  acc_ip :: "u8 list"
  acc_port :: int
  acc_keepalive :: int
  acc_watch :: int
  acc_address :: nat

definition aeAcceptTcpHandler ::
  "dict_statics \<Rightarrow> accept_answers \<Rightarrow> ce_server \<Rightarrow> (ce_server \<times> net_event list) option" where
  "aeAcceptTcpHandler st ans server =
     (let c_fd = acc_fd ans in
     if c_fd = ANET_ERR then Some (server, [Closed c_fd])
     else if acc_keepalive ans = ANET_ERR then Some (server, [Opened c_fd, Closed c_fd])
     else let start = [Opened c_fd, Keepalive c_fd (conf_keepalive (server_conf server))]
     in if acc_watch ans = AE_ERR then Some (server, start @ [Closed c_fd])
     else do {
       io \<leftarrow> server_io server;
       (io1, r) \<leftarrow> ce_io_add st (acc_address ans) io c_fd;
       let server1 = server\<lparr>server_io := Some io1\<rparr>;
       if \<not> r then Some (server1, start @ [Watch c_fd Read_from_client, Closed c_fd])
       else Some (server1, start @ [Watch c_fd Read_from_client, On_accept c_fd (acc_ip ans) (acc_port ans)])
     })"

text \<open>The second part of the result is the time to the next call.\<close>

definition aeHeartbeatTimeProc :: "io_casts \<Rightarrow> ce_server \<Rightarrow> (ce_server \<times> int) option" where
  "aeHeartbeatTimeProc casts server = do {
     (io, _) \<leftarrow> ce_io_push casts (server_io server) ce_push_except_fd (server_fd server) None 0;
     Some (server\<lparr>server_io := io\<rparr>, conf_heartbeat (server_conf server))
   }"

section \<open>The thread of the event loop\<close>

datatype ae_call = Call_accept accept_answers | Call_read int "u8 list" | Call_heartbeat | Call_job

fun ae_step :: "io_casts \<Rightarrow> dict_statics \<Rightarrow> ce_server \<Rightarrow> ae_call \<Rightarrow> (ce_server \<times> net_event list) option" where
  "ae_step casts st server (Call_accept ans) = aeAcceptTcpHandler st ans server"
| "ae_step casts st server (Call_read fd received) = aeReadFromClient casts server fd received"
| "ae_step casts st server Call_heartbeat =
     do { (server', ms) \<leftarrow> aeHeartbeatTimeProc casts server; Some (server', [Timer ms]) }"
| "ae_step casts st server Call_job = do {
     io \<leftarrow> server_io server;
     (io', evs) \<leftarrow> run_job casts io;
     Some (server\<lparr>server_io := Some io'\<rparr>, map Io evs)
   }"

text \<open>\<open>aeMain\<close>: the calls it makes until \<open>aeStop\<close>, with the thread of the pool running a job now and then.\<close>

fun ae_main :: "io_casts \<Rightarrow> dict_statics \<Rightarrow> ce_server \<Rightarrow> ae_call list \<Rightarrow> (ce_server \<times> net_event list) option" where
  "ae_main casts st server [] = Some (server, [])"
| "ae_main casts st server (c # calls) = do {
     (server1, evs) \<leftarrow> ae_step casts st server c;
     (server2, evs') \<leftarrow> ae_main casts st server1 calls;
     Some (server2, evs @ evs')
   }"

definition ce_server_routine ::
  "io_casts \<Rightarrow> dict_statics \<Rightarrow> ce_server \<Rightarrow> ae_call list \<Rightarrow> (ce_server \<times> net_event list) option" where
  "ce_server_routine casts st server calls = do {
     (server1, evs) \<leftarrow> ae_main casts st (server\<lparr>server_stop := False\<rparr>) calls;
     Some (server1, evs @ [Unwatch (server_fd server), Delete_loop])
   }"

section \<open>Calls of the program\<close>

record startup_answers =
  st_fd :: int
  st_keepalive :: int
  st_watch :: int

text \<open>
  \<open>fresh\<close> is the memory that \<open>ce_malloc\<close> returns for the new object, with whatever it holds. The loop that waits for
  the new thread ends when that has set \<open>stop\<close> to false; the timer is then set by this thread.
\<close>

definition ce_server_startup ::
  "dict_statics \<Rightarrow> ce_server \<Rightarrow> startup_answers \<Rightarrow> ce_conf option \<Rightarrow> bool \<Rightarrow> (ce_server option \<times> net_event list) option" where
  "ce_server_startup st fresh ans p err =
     (case p of
        None \<Rightarrow> Some (None, [])
      | Some conf \<Rightarrow>
          if \<not> err then Some (None, [])
          else if conf_refused conf then Some (None, [])
          else if st_fd ans = ANET_ERR then Some (None, [Sock_init True, Sock_init False])
          else if st_keepalive ans = ANET_ERR
          then Some (None, [Sock_init True, Opened (st_fd ans), Closed (st_fd ans), Sock_init False])
          else let start = [Sock_init True, Opened (st_fd ans), Keepalive (st_fd ans) (conf_keepalive conf), New_loop]
          in if st_watch ans = ANET_ERR then Some (None, start @ [Closed (st_fd ans), Sock_init False])
          else do {
            io \<leftarrow> ce_io_new st conf;
            let server = fresh\<lparr>server_fd := st_fd ans, server_io := Some io, server_stop := False\<rparr>;
            Some (Some server,
                  start @ [Watch (st_fd ans) Accept_tcp_handler, Timer (conf_heartbeat (server_conf server))])
          })"

definition ce_server_push ::
  "io_casts \<Rightarrow> ce_server option \<Rightarrow> int \<Rightarrow> u8 list option \<Rightarrow> packet_len_t \<Rightarrow> (ce_server option \<times> bool) option" where
  "ce_server_push casts p fd data len =
     (case p of
        None \<Rightarrow> Some (None, False)
      | Some server \<Rightarrow>
          if data = None \<or> len \<le> 0 then Some (p, False)
          else do {
            (io, r) \<leftarrow> ce_io_push casts (server_io server) ce_push_fd fd data len;
            Some (Some (server\<lparr>server_io := io\<rparr>), r)
          })"

text \<open>
  The thread of the event loop, in the middle of its calls, makes the remaining ones and ends; then the packet layer is
  destroyed. What is left of its heap is the first part of the result.
\<close>

definition ce_server_stop ::
  "io_casts \<Rightarrow> dict_statics \<Rightarrow> ce_server \<Rightarrow> ae_call list \<Rightarrow> ((nat \<rightharpoonup> ce_io_fd) \<times> net_event list) option" where
  "ce_server_stop casts st server calls = do {
     (server1, evs) \<leftarrow> ae_main casts st (server\<lparr>server_stop := True\<rparr>) calls;
     (heap, evs') \<leftarrow> ce_io_destory casts (server_io server1);
     Some (heap, Stop_loop # evs @ [Unwatch (server_fd server), Delete_loop] @ map Io evs' @ [Sock_init False])
   }"

section \<open>What is left open\<close>

text \<open>The sockets open after a sequence of events, and how often the socket layer is initialised.\<close>

fun open_socks :: "net_event list \<Rightarrow> int list \<Rightarrow> int list" where
  "open_socks [] fds = fds"
| "open_socks (Opened fd # evs) fds = open_socks evs (fd # fds)"
| "open_socks (Closed fd # evs) fds = open_socks evs (remove1 fd fds)"
| "open_socks (e # evs) fds = open_socks evs fds"

fun init_refs :: "net_event list \<Rightarrow> int" where
  "init_refs [] = 0"
| "init_refs (Sock_init b # evs) = (if b then 1 else - 1) + init_refs evs"
| "init_refs (e # evs) = init_refs evs"

section \<open>Starting and stopping\<close>

definition startup_ok :: "startup_answers \<Rightarrow> ce_conf option \<Rightarrow> bool \<Rightarrow> bool" where
  "startup_ok ans p err \<longleftrightarrow> (case p of None \<Rightarrow> False | Some conf \<Rightarrow> \<not> conf_refused conf) \<and> err \<and>
     st_fd ans \<noteq> ANET_ERR \<and> st_keepalive ans \<noteq> ANET_ERR \<and> st_watch ans \<noteq> ANET_ERR"

lemma ce_io_new_returns:
  assumes "\<not> conf_refused conf"
  shows "ce_io_new st conf = None \<longleftrightarrow> 1 < conf_workers conf"
proof -
  have "0 < per_cache_ringbuffer_size conf" using assms by (simp add: conf_refused_def)
  then show ?thesis by (simp add: ce_io_new_def ce_rb_new_def)
qed


text \<open>A server just started.\<close>

lemma ce_server_startupE:
  assumes "ce_server_startup st fresh ans p err = Some (Some server, evs)"
  obtains conf io where "p = Some conf" "ce_io_new st conf = Some io"
    "server = fresh\<lparr>server_fd := st_fd ans, server_io := Some io, server_stop := False\<rparr>"
    "evs = [Sock_init True, Opened (st_fd ans), Keepalive (st_fd ans) (conf_keepalive conf), New_loop,
            Watch (st_fd ans) Accept_tcp_handler, Timer (conf_heartbeat (server_conf fresh))]"
  using assms by (auto simp: ce_server_startup_def Let_def split: option.splits if_splits Option.bind_splits)

section \<open>The configuration\<close>

text \<open>The heartbeat pushes nothing: \<open>ce_io_push\<close> refuses the empty packet, and the server is as before.\<close>

lemma heartbeat_pushes_nothing [simp]:
  "aeHeartbeatTimeProc casts server = Some (server, conf_heartbeat (server_conf server))"
  by (auto simp: aeHeartbeatTimeProc_def ce_io_push_def split: option.splits)

text \<open>What the configuration in the server's own memory decides.\<close>

definition uses_conf :: "ce_conf \<Rightarrow> net_event \<Rightarrow> bool" where
  "uses_conf conf e = (case e of
     Timer ms \<Rightarrow> ms = conf_heartbeat conf
   | Keepalive fd delay \<Rightarrow> delay = conf_keepalive conf
   | _ \<Rightarrow> True)"

lemma ae_step_conf:
  assumes "ae_step casts st server c = Some (server', evs)"
  shows "server_conf server' = server_conf server \<and> list_all (uses_conf (server_conf server)) evs"
proof (cases c)
  case (Call_accept ans)
  with assms show ?thesis
    by (auto simp: aeAcceptTcpHandler_def uses_conf_def Let_def split: if_splits Option.bind_splits)
next
  case (Call_read fd received)
  with assms show ?thesis
    by (auto simp: aeReadFromClient_def aeClientClose_def uses_conf_def split: if_splits Option.bind_splits)
next
  case Call_heartbeat
  with assms show ?thesis
    by (auto simp: uses_conf_def)
next
  case Call_job
  with assms show ?thesis
    by (auto simp: uses_conf_def list_all_iff split: Option.bind_splits)
qed

lemma ae_main_conf:
  "ae_main casts st server calls = Some (server', evs) \<Longrightarrow>
     server_conf server' = server_conf server \<and> list_all (uses_conf (server_conf server)) evs"
proof (induction calls arbitrary: server evs)
  case (Cons c calls)
  then obtain server1 evs1 evs2 where s: "ae_step casts st server c = Some (server1, evs1)"
    "ae_main casts st server1 calls = Some (server', evs2)" "evs = evs1 @ evs2"
    by auto
  from ae_step_conf [OF s(1)] Cons.IH [OF s(2)] s(3) show ?case by simp
qed simp

text \<open>
  The server never copies the configuration into its own object. In every run of its event loop the interval of the
  heartbeat and the keep-alive time of each accepted connection are what the memory of the new object happened to
  hold, whatever configuration the program gave.
\<close>

lemma server_conf_never_set:
  assumes "ce_server_startup st fresh ans p err = Some (Some server, evs)"
    and "ce_server_routine casts st server calls = Some (server', evs')"
  shows "server_conf server' = server_conf fresh \<and> last evs = Timer (conf_heartbeat (server_conf fresh)) \<and>
    (\<forall>ms. Timer ms \<in> set evs' \<longrightarrow> ms = conf_heartbeat (server_conf fresh)) \<and>
    (\<forall>fd delay. Keepalive fd delay \<in> set evs' \<longrightarrow> delay = conf_keepalive (server_conf fresh))"
proof -
  from assms(1) have s: "server_conf server = server_conf fresh" "last evs = Timer (conf_heartbeat (server_conf fresh))"
    by (auto elim!: ce_server_startupE)
  obtain evs1 where m: "ae_main casts st (server\<lparr>server_stop := False\<rparr>) calls = Some (server', evs1)"
    "evs' = evs1 @ [Unwatch (server_fd server), Delete_loop]"
    using assms(2) by (auto simp: ce_server_routine_def split: Option.bind_splits)
  from ae_main_conf [OF m(1)] s m(2) show ?thesis by (auto simp: list_all_iff uses_conf_def)
qed

section \<open>Packets\<close>

definition server_quiet :: "ce_server \<Rightarrow> bool" where
  "server_quiet server \<longleftrightarrow> (case server_io server of None \<Rightarrow> True | Some io \<Rightarrow> can_read (push_fd_event io) < 8)"

lemma client_close_quiet:
  assumes "server_quiet server" "aeClientClose casts server fd = Some (server', evs)"
  shows "server_quiet server' \<and> (\<forall>e. Io e \<notin> set evs)"
proof (cases "server_io server")
  case None
  with assms(2) show ?thesis by (simp add: aeClientClose_def ce_io_param_def)
next
  case (Some io)
  then obtain p r where d: "ce_io_del casts (Some io) fd = Some (p, r)" "server' = server\<lparr>server_io := p\<rparr>"
    "evs = [Unwatch fd, Closed fd, On_close fd]"
    using assms(2) by (auto simp: aeClientClose_def split: Option.bind_splits)
  with push_fd_event_calls(4) [of casts io fd] assms(1) Some show ?thesis
    by (cases p) (auto simp: server_quiet_def)
qed

lemma enqueue_quiet:
  assumes "server_quiet server" "ce_io_enqueue casts (server_io server) fd data len = Some (p, r)"
  shows "server_quiet (server\<lparr>server_io := p\<rparr>)"
proof (cases "server_io server")
  case None
  with assms(2) show ?thesis by (simp add: ce_io_enqueue_def server_quiet_def split: option.splits)
next
  case (Some io)
  with push_fd_event_calls(2) [of casts io fd data len] assms show ?thesis
    by (cases p) (auto simp: server_quiet_def)
qed

lemma ae_step_quiet:
  assumes q: "server_quiet server" and s: "ae_step casts st server c = Some (server', evs)"
  shows "server_quiet server' \<and> (\<forall>e. Io e \<notin> set evs)"
proof (cases c)
  case (Call_accept ans)
  with s q show ?thesis
    by (auto simp: aeAcceptTcpHandler_def server_quiet_def Let_def push_fd_event_calls(1) split: if_splits Option.bind_splits)
next
  case (Call_read fd received)
  then have r: "aeReadFromClient casts server fd received = Some (server', evs)" using s by simp
  show ?thesis
  proof (cases "received = []")
    case True
    with r client_close_quiet [OF q] show ?thesis by (simp add: aeReadFromClient_def)
  next
    case False
    with r obtain p ok where e: "ce_io_enqueue casts (server_io server) fd (Some received) (word_of_nat (length received)) = Some (p, ok)"
      "(if \<not> ok then aeClientClose casts (server\<lparr>server_io := p\<rparr>) fd else Some (server\<lparr>server_io := p\<rparr>, [])) = Some (server', evs)"
      by (auto simp: aeReadFromClient_def split: Option.bind_splits)
    from enqueue_quiet [OF q e(1)] have q': "server_quiet (server\<lparr>server_io := p\<rparr>)" .
    with e(2) client_close_quiet [OF q'] show ?thesis by (auto split: if_splits)
  qed
next
  case Call_heartbeat
  with s q show ?thesis by auto
next
  case Call_job
  with s obtain io io' jevs where "server_io server = Some io" "run_job casts io = Some (io', jevs)"
    "server' = server\<lparr>server_io := Some io'\<rparr>" "evs = map Io jevs"
    by (auto split: Option.bind_splits)
  with run_job_quiet [of io casts io' jevs] q show ?thesis by (simp add: server_quiet_def)
qed

lemma ae_main_quiet:
  "server_quiet server \<Longrightarrow> ae_main casts st server calls = Some (server', evs) \<Longrightarrow>
     server_quiet server' \<and> (\<forall>e. Io e \<notin> set evs)"
proof (induction calls arbitrary: server evs)
  case (Cons c calls)
  then obtain server1 evs1 evs2 where s: "ae_step casts st server c = Some (server1, evs1)"
    "ae_main casts st server1 calls = Some (server', evs2)" "evs = evs1 @ evs2"
    by auto
  from ae_step_quiet [OF Cons.prems(1) s(1)] Cons.IH [OF _ s(2)] s(3) show ?case by auto
qed simp



text \<open>
  A server started and stopped again, without a connection, has the packet layer gone and the socket layer
  released, but its listening socket is still open.
\<close>

lemma server_stop_leaks_listener:
  assumes "ce_server_startup st fresh ans p err = Some (Some server, evs)"
  shows "\<exists>evs'. ce_server_stop casts st server [] = Some (Map.empty, evs') \<and>
    open_socks (evs @ evs') [] = [st_fd ans] \<and> init_refs (evs @ evs') = 0"
proof -
  obtain conf io where "ce_io_new st conf = Some io" "server_io server = Some io"
    "evs = [Sock_init True, Opened (st_fd ans), Keepalive (st_fd ans) (conf_keepalive conf), New_loop,
            Watch (st_fd ans) Accept_tcp_handler, Timer (conf_heartbeat (server_conf fresh))]"
    using assms by (auto elim!: ce_server_startupE)
  with ce_io_destory_new [of st conf io casts] show ?thesis by (simp add: ce_server_stop_def)
qed

section \<open>A sample\<close>

definition sample_server :: ce_server where
  "sample_server = \<lparr>server_fd = 0, server_stop = False, server_conf = sample_conf\<lparr>conf_heartbeat := 77\<rparr>, server_io = None\<rparr>"

definition sample_startup :: startup_answers where
  "sample_startup = \<lparr>st_fd = 3, st_keepalive = 0, st_watch = 0\<rparr>"

definition sample_accept :: accept_answers where
  "sample_accept = \<lparr>acc_fd = 5, acc_ip = [49, 0], acc_port = 4000, acc_keepalive = 0, acc_watch = 0, acc_address = 7\<rparr>"

lemma sample_server_started:
  "\<exists>io server evs. ce_io_new dict_statics_start sample_conf = Some io \<and>
     ce_server_startup dict_statics_start sample_server sample_startup (Some sample_conf) True = Some (Some server, evs) \<and>
     server = sample_server\<lparr>server_fd := 3, server_io := Some io, server_stop := False\<rparr>"
proof -
  obtain io where "ce_io_new dict_statics_start sample_conf = Some io" using sample_io_new by blast
  moreover have "\<not> conf_refused sample_conf" by (simp add: conf_refused_def sample_conf_def)
  ultimately show ?thesis by (simp add: ce_server_startup_def sample_startup_def ANET_ERR_def Let_def)
qed

lemma server_conf_never_set_witness:
  "\<exists>server evs server' evs'. conf_heartbeat sample_conf = 1 \<and>
     ce_server_startup dict_statics_start sample_server sample_startup (Some sample_conf) True = Some (Some server, evs) \<and>
     last evs = Timer 77 \<and>
     ce_server_routine As_written dict_statics_start server [Call_heartbeat] = Some (server', evs') \<and>
     Timer 77 \<in> set evs' \<and> conf_heartbeat (server_conf server') = 77"
proof -
  obtain server evs where s:
    "ce_server_startup dict_statics_start sample_server sample_startup (Some sample_conf) True = Some (Some server, evs)"
    "server_conf server = server_conf sample_server"
    using sample_server_started by force
  moreover have r: "ce_server_routine As_written dict_statics_start server [Call_heartbeat] =
      Some (server\<lparr>server_stop := False\<rparr>, [Timer 77, Unwatch (server_fd server), Delete_loop])"
    using s(2) by (simp add: ce_server_routine_def sample_server_def)
  ultimately show ?thesis
    using server_conf_never_set [OF s(1) r] by (auto simp: sample_server_def sample_conf_def)
qed



lemma server_stop_leaks_listener_witness:
  "\<exists>server evs evs'. ce_server_startup dict_statics_start sample_server sample_startup (Some sample_conf) True = Some (Some server, evs) \<and>
     ce_server_stop As_written dict_statics_start server [] = Some (Map.empty, evs') \<and> open_socks (evs @ evs') [] = [3]"
proof -
  obtain server evs where s:
    "ce_server_startup dict_statics_start sample_server sample_startup (Some sample_conf) True = Some (Some server, evs)"
    using sample_server_started by force
  with server_stop_leaks_listener [OF s, of As_written] show ?thesis by (auto simp: sample_startup_def)
qed

end
