(* ===== verification/Ce_Client.thy ===== *)
theory Ce_Client
  imports Ce_Server
begin

text \<open>
  The client of \<^verbatim>\<open>cevent/ce_client.c\<close>: one socket, one thread that receives, and the packet layer. What the socket layer
  answers is an argument. A result of \<open>None\<close> is undefined behaviour or a call that does not return.
\<close>

section \<open>State\<close>

record ce_client =
  client_io :: "ce_io option"
  client_fd :: int
  client_stop :: bool

datatype ce_connect_result =
  ce_connect_ok | ce_connect_socket_error | ce_connect_server_no_response | ce_connect_init_error

definition ce_client_send_fd :: "(int \<Rightarrow> u8 list \<Rightarrow> int) \<Rightarrow> int \<Rightarrow> u8 list \<Rightarrow> packet_len_t \<Rightarrow> int" where
  "ce_client_send_fd send fd buffer len = sint (word_of_int (send fd (take (unat len) buffer)) :: 32 word)"

section \<open>The thread that receives\<close>

text \<open>
  One turn of the loop reads \<open>stop\<close> and then what \<open>recv\<close> stores, nothing at the end and after an error. The flag of the
  result says that the loop has ended; without it the thread waits in \<open>recv\<close>.
\<close>

fun client_loop ::
  "io_casts \<Rightarrow> ce_io option \<Rightarrow> int \<Rightarrow> (bool \<times> u8 list) list \<Rightarrow> (ce_io option \<times> bool) option" where
  "client_loop casts p fd [] = Some (p, False)"
| "client_loop casts p fd ((stop, data) # turns) =
     (if stop then Some (p, True)
      else if data = [] then Some (p, True)
      else do {
        (p', r) \<leftarrow> ce_io_enqueue casts p fd (Some data) (word_of_nat (length data));
        if \<not> r then Some (p', True) else client_loop casts p' fd turns
      })"

definition ce_client_routine ::
  "io_casts \<Rightarrow> ce_client \<Rightarrow> (bool \<times> u8 list) list \<Rightarrow> (ce_client \<times> net_event list) option" where
  "ce_client_routine casts client turns = do {
     (p, ended) \<leftarrow> client_loop casts (client_io client) (client_fd client) turns;
     Some (client\<lparr>client_stop := False, client_io := p\<rparr>, if ended then [On_close (client_fd client)] else [])
   }"

section \<open>Waiting for the thread\<close>

text \<open>
  The two threads from \<open>pthread_create\<close> on: the caller of \<open>ce_client_connect\<close> sleeps while \<open>stop\<close> is false, the new thread sets it to
  false and receives.
\<close>

datatype recv_thread = Created | Receiving | Ended

record connect_wait =
  cw_stop :: bool
  cw_returned :: bool
  cw_thread :: recv_thread

definition wait_start :: connect_wait where
  "wait_start = \<lparr>cw_stop = True, cw_returned = False, cw_thread = Created\<rparr>"

inductive wait_step :: "connect_wait \<Rightarrow> connect_wait \<Rightarrow> bool" where
  leave: "\<not> cw_returned w \<Longrightarrow> cw_stop w \<Longrightarrow> wait_step w (w\<lparr>cw_returned := True\<rparr>)"
| sleep: "\<not> cw_returned w \<Longrightarrow> \<not> cw_stop w \<Longrightarrow> wait_step w w"
| start: "cw_thread w = Created \<Longrightarrow> wait_step w (w\<lparr>cw_stop := False, cw_thread := Receiving\<rparr>)"
| finish: "cw_thread w = Receiving \<Longrightarrow> wait_step w (w\<lparr>cw_thread := Ended\<rparr>)"

inductive_cases wait_stepE: "wait_step w w'"

section \<open>Calls of the program\<close>

record connect_answers =
  cn_socket :: int
  cn_connect :: int
  cn_address :: nat
  cn_first_test :: bool

text \<open>
  \<open>cn_first_test\<close> says that the caller tests \<open>stop\<close> before the new thread sets it to false; otherwise the call does not
  return. \<open>result\<close> is what the second argument points to, \<open>None\<close> for NULL.
\<close>

definition ce_client_connect ::
  "io_casts \<Rightarrow> dict_statics \<Rightarrow> connect_answers \<Rightarrow> ce_conf option \<Rightarrow> ce_connect_result option \<Rightarrow>
     (ce_client option \<times> ce_connect_result option \<times> net_event list) option" where
  "ce_client_connect casts st ans p result =
     (case (p, result) of
        (Some conf, Some _) \<Rightarrow>
          let fd = cn_socket ans in
          if conf_refused conf then Some (None, result, [])
          else if fd = - 1 then Some (None, Some ce_connect_socket_error, [])
          else if cn_connect ans \<noteq> 0 then Some (None, Some ce_connect_server_no_response, [Opened fd])
          else do {
            io \<leftarrow> ce_io_new st conf;
            (io1, r) \<leftarrow> ce_io_add st (cn_address ans) io fd;
            if \<not> r then do {
              (_, evs) \<leftarrow> ce_io_destory casts (Some io1);
              Some (None, Some ce_connect_init_error, Opened fd # map Io evs @ [Closed fd])
            }
            else if \<not> cn_first_test ans then None
            else Some (Some \<lparr>client_io = Some io1, client_fd = fd, client_stop = True\<rparr>, result,
                       [Opened fd, Keepalive fd (conf_keepalive conf)])
          }
      | _ \<Rightarrow> Some (None, result, []))"

definition ce_client_send ::
  "io_casts \<Rightarrow> ce_client option \<Rightarrow> u8 list option \<Rightarrow> packet_len_t \<Rightarrow> (ce_client option \<times> bool) option" where
  "ce_client_send casts p data len =
     (case p of
        None \<Rightarrow> Some (None, False)
      | Some client \<Rightarrow>
          if data = None \<or> len \<le> 0 then Some (p, False)
          else do {
            (io, r) \<leftarrow> ce_io_push casts (client_io client) ce_push_fd (client_fd client) data len;
            Some (Some (client\<lparr>client_io := io\<rparr>), r)
          })"

text \<open>
  \<open>pthread_join\<close> returns when the thread has ended after the turns that are left to it; the heap of the packet layer is
  what is leaked.
\<close>

definition ce_client_disconnect ::
  "io_casts \<Rightarrow> ce_client \<Rightarrow> (bool \<times> u8 list) list \<Rightarrow> ((nat \<rightharpoonup> ce_io_fd) \<times> net_event list) option" where
  "ce_client_disconnect casts client turns = do {
     (p, ended) \<leftarrow> client_loop casts (client_io client) (client_fd client) turns;
     if \<not> ended then None
     else do {
       (heap, evs) \<leftarrow> ce_io_destory casts p;
       Some (heap, Closed (client_fd client) # On_close (client_fd client) # map Io evs)
     }
   }"

section \<open>Connecting\<close>

lemma wait_reachable:
  "wait_step\<^sup>*\<^sup>* wait_start w \<Longrightarrow> (cw_thread w = Created \<longrightarrow> cw_stop w) \<and> (cw_thread w \<noteq> Created \<longrightarrow> \<not> cw_stop w)"
  by (induction rule: rtranclp_induct) (auto simp: wait_start_def elim: wait_stepE)

lemma wait_for_ever:
  "wait_step\<^sup>*\<^sup>* w w' \<Longrightarrow> \<not> cw_returned w \<Longrightarrow> \<not> cw_stop w \<Longrightarrow> cw_thread w \<noteq> Created \<Longrightarrow>
     \<not> cw_returned w' \<and> \<not> cw_stop w' \<and> cw_thread w' \<noteq> Created"
  by (induction rule: rtranclp_induct) (auto elim: wait_stepE)

text \<open>
  C17: \<open>ce_client_connect\<close> waits for the wrong value. In a reachable state in which it has not returned yet, it can still
  return exactly when the new thread has not begun to run; afterwards it sleeps for ever.
\<close>

theorem connect_returns_iff:
  assumes "wait_step\<^sup>*\<^sup>* wait_start w"
  shows "(\<exists>w'. wait_step\<^sup>*\<^sup>* w w' \<and> cw_returned w') \<longleftrightarrow> cw_returned w \<or> cw_thread w = Created"
proof
  assume "\<exists>w'. wait_step\<^sup>*\<^sup>* w w' \<and> cw_returned w'"
  then show "cw_returned w \<or> cw_thread w = Created"
    using wait_for_ever wait_reachable [OF assms] by blast
next
  assume "cw_returned w \<or> cw_thread w = Created"
  then show "\<exists>w'. wait_step\<^sup>*\<^sup>* w w' \<and> cw_returned w'"
  proof (cases "cw_returned w")
    case False
    with \<open>cw_returned w \<or> cw_thread w = Created\<close> have "cw_stop w" using wait_reachable [OF assms] by blast
    then have "wait_step\<^sup>*\<^sup>* w (w\<lparr>cw_returned := True\<rparr>)" using False by (intro r_into_rtranclp wait_step.leave)
    then show ?thesis by (intro exI [of _ "w\<lparr>cw_returned := True\<rparr>"]) simp
  qed blast
qed

theorem connect_returns_iff_witness:
  "\<not> (\<exists>w'. wait_step\<^sup>*\<^sup>* (wait_start\<lparr>cw_stop := False, cw_thread := Receiving\<rparr>) w' \<and> cw_returned w')"
proof -
  have "wait_step\<^sup>*\<^sup>* wait_start (wait_start\<lparr>cw_stop := False, cw_thread := Receiving\<rparr>)"
    by (intro r_into_rtranclp wait_step.start) (simp add: wait_start_def)
  from connect_returns_iff [OF this] show ?thesis by (simp add: wait_start_def)
qed

definition connect_args_ok :: "ce_conf option \<Rightarrow> ce_connect_result option \<Rightarrow> bool" where
  "connect_args_ok p result \<longleftrightarrow> (case p of None \<Rightarrow> False | Some conf \<Rightarrow> \<not> conf_refused conf) \<and> result \<noteq> None"

lemma ce_io_add_new:
  assumes "ce_io_new st conf = Some io"
  shows "ce_io_add st a io fd = None \<longleftrightarrow> fd_key fd = None"
    "ce_io_add st a io fd = Some (io', r) \<Longrightarrow> r"
  using ce_io_add_ok [OF ce_io_new_ready(1,2) [OF assms], of fd _ st a] ce_io_new_ready(2,3) [OF assms]
  by (cases "fd_key fd"; fastforce simp: ce_io_add_def)+

text \<open>
  C26: How \<open>ce_client_connect\<close> ends. It fails to return when more than one worker is asked for, or when the new thread is
  faster than the caller's first test (or, undefined, when no byte of the descriptor is zero). When \<open>connect\<close> fails it
  returns NULL and leaves the socket open; an init error is never reported, and on success the caller's result
  variable is not written.
\<close>

theorem client_connect_result:
  "case ce_client_connect casts st ans p result of
     None \<Rightarrow> connect_args_ok p result \<and> cn_socket ans \<noteq> - 1 \<and> cn_connect ans = 0 \<and>
       (1 < conf_workers (the p) \<or> fd_key (cn_socket ans) = None \<or> \<not> cn_first_test ans)
   | Some (None, r, evs) \<Rightarrow>
       (if \<not> connect_args_ok p result then r = result \<and> evs = []
        else if cn_socket ans = - 1 then r = Some ce_connect_socket_error \<and> evs = []
        else cn_connect ans \<noteq> 0 \<and> r = Some ce_connect_server_no_response \<and> open_socks evs [] = [cn_socket ans])
   | Some (Some client, r, evs) \<Rightarrow>
       connect_args_ok p result \<and> cn_socket ans \<noteq> - 1 \<and> cn_connect ans = 0 \<and> conf_workers (the p) \<le> 1 \<and>
       fd_key (cn_socket ans) \<noteq> None \<and> cn_first_test ans \<and> r = result \<and> open_socks evs [] = [cn_socket ans]"
proof (cases "connect_args_ok p result \<and> cn_socket ans \<noteq> - 1 \<and> cn_connect ans = 0")
  case True
  then obtain conf where p: "p = Some conf" "\<not> conf_refused conf" "result \<noteq> None"
    by (auto simp: connect_args_ok_def split: option.splits)
  show ?thesis
  proof (cases "ce_io_new st conf")
    case None
    then show ?thesis using True p ce_io_new_returns [OF p(2), of st] by (auto simp: ce_client_connect_def Let_def)
  next
    case (Some io)
    then have w: "conf_workers conf \<le> 1" using ce_io_new_returns [OF p(2), of st] by auto
    show ?thesis
    proof (cases "ce_io_add st (cn_address ans) io (cn_socket ans)")
      case None
      then have "fd_key (cn_socket ans) = None" using ce_io_add_new(1) [OF Some] by blast
      with None show ?thesis using True p Some by (auto simp: ce_client_connect_def Let_def)
    next
      case (Some q)
      then obtain io1 where q: "q = (io1, True)" using ce_io_add_new(2) [OF \<open>ce_io_new st conf = Some io\<close>] by (cases q) auto
      have "fd_key (cn_socket ans) \<noteq> None"
        using ce_io_add_new(1) [OF \<open>ce_io_new st conf = Some io\<close>, of "cn_address ans" "cn_socket ans"] Some by simp
      with q show ?thesis
        using True p Some \<open>ce_io_new st conf = Some io\<close> w
        by (auto simp: ce_client_connect_def Let_def)
    qed
  qed
next
  case False
  then show ?thesis
    by (cases p; cases result) (auto simp: ce_client_connect_def connect_args_ok_def Let_def)
qed

section \<open>Receiving\<close>

lemma client_connected:
  assumes "ce_client_connect casts st ans (Some conf) result = Some (Some client, r, evs)" "0 < cn_socket ans"
  obtains io f where "client = \<lparr>client_io = Some io, client_fd = cn_socket ans, client_stop = True\<rparr>"
    "connected io (cn_socket ans) (cn_address ans) f" "rb_contents (enqueue_buffer f) = []"
    "free_space (enqueue_buffer f) = nat (per_cache_ringbuffer_size conf)"
    "free_space (enqueue_fd_event io) = nat (per_cache_ringbuffer_size conf)" "io_jobs io = []"
    "dict_map (io_dict io) \<noteq> Map.empty"
proof -
  obtain io io1 where io: "ce_io_new st conf = Some io"
    "ce_io_add st (cn_address ans) io (cn_socket ans) = Some (io1, True)"
    "client = \<lparr>client_io = Some io1, client_fd = cn_socket ans, client_stop = True\<rparr>"
    using assms(1) by (auto simp: ce_client_connect_def Let_def split: option.splits if_splits Option.bind_splits)
  note new = ce_io_new_ready [OF io(1)]
  obtain key where key: "fd_key (cn_socket ans) = Some key"
    using ce_io_add_new(1) [OF io(1), of "cn_address ans" "cn_socket ans"] io(2) by auto
  obtain d' f where add: "io1 = io\<lparr>io_dict := d', io_heap := (io_heap io)(cn_address ans \<mapsto> f)\<rparr>"
    "connected io1 (cn_socket ans) (cn_address ans) f" "dict_map d' = [key \<mapsto> Some (cn_address ans)]"
    "io_fresh (cn_socket ans) (per_cache_ringbuffer_size conf) f"
    using ce_io_add_connected [OF new(1,2) key _ assms(2) new(6), of st "cn_address ans"] new(3,5) io(2) by auto
  show thesis
    using add new(4,7) by (intro that [OF io(3) add(2)]) (simp_all add: io_fresh_def free_space_def fun_eq_iff)
qed

lemma client_loop_stream:
  assumes "connected io fd a f" "list_all (\<lambda>c. c \<noteq> [] \<and> length c < 2 ^ 16) chunks"
    and "length (concat chunks) \<le> free_space (enqueue_buffer f)" "8 * length chunks \<le> free_space (enqueue_fd_event io)"
  shows "\<exists>io' f'. client_loop As_meant (Some io) fd (map (Pair False) chunks @ turns) = client_loop As_meant (Some io') fd turns \<and>
    connected io' fd a f' \<and> rb_contents (enqueue_buffer f') = rb_contents (enqueue_buffer f) @ concat chunks \<and>
    io_jobs io' = io_jobs io @ replicate (length chunks) Enqueue_job"
  using assms
proof (induction chunks arbitrary: io f)
  case (Cons c chunks)
  have c: "c \<noteq> []" "length c < 2 ^ 16" using Cons.prems(2) by simp_all
  note len = unat_length [OF c(2)]
  obtain io1 f1 where s: "ce_io_enqueue As_meant (Some io) fd (Some c) (word_of_nat (length c)) = Some (Some io1, True)"
    "connected io1 fd a f1" "rb_contents (enqueue_buffer f1) = rb_contents (enqueue_buffer f) @ c"
    "free_space (enqueue_buffer f1) = free_space (enqueue_buffer f) - length c" "io_jobs io1 = io_jobs io @ [Enqueue_job]"
    "free_space (enqueue_fd_event io1) = free_space (enqueue_fd_event io) - 8"
    using ce_io_enqueue_ok [OF Cons.prems(1) word_of_length_pos [OF c] eq_imp_le [OF len]] Cons.prems(3,4)
    unfolding len by auto
  have "list_all (\<lambda>c. c \<noteq> [] \<and> length c < 2 ^ 16) chunks" "length (concat chunks) \<le> free_space (enqueue_buffer f1)"
    "8 * length chunks \<le> free_space (enqueue_fd_event io1)"
    using Cons.prems(2-4) s(4,6) by simp_all
  from Cons.IH [OF s(2) this] s c(1) show ?case by (auto simp: replicate_append_same)
qed auto


text \<open>
  As the code is written, a connected client cannot do anything: the first bytes it receives, anything it sends, and
  to disconnect are undefined behaviour.
\<close>

lemma client_data_undefined:
  assumes "ce_client_connect As_written st ans (Some conf) result = Some (Some client, r, evs)" "0 < cn_socket ans"
    and "received \<noteq> []" "length received < 2 ^ 16" "0 < len"
  shows "ce_client_routine As_written client ((False, received) # turns) = None \<and>
    ce_client_send As_written (Some client) (Some bytes) len = None \<and>
    ce_client_disconnect As_written client [(True, [])] = None"
proof -
  obtain io f where c: "client = \<lparr>client_io = Some io, client_fd = cn_socket ans, client_stop = True\<rparr>"
    "connected io (cn_socket ans) (cn_address ans) f" "dict_map (io_dict io) \<noteq> Map.empty"
    by (rule client_connected [OF assms(1,2)])
  note u = calls_undefined [OF c(2)]
  have "dict_wf (io_dict io)" using c(2) by (simp add: connected_def)
  from ce_io_destory_written [OF this c(3)] u(1) [OF word_of_length_pos [OF assms(3,4)]] u(2) [OF assms(5)] assms(3,5) c(1)
  show ?thesis by (auto simp: ce_client_routine_def ce_client_send_def ce_client_disconnect_def)
qed

section \<open>A sample\<close>

definition sample_answers :: connect_answers where
  "sample_answers = \<lparr>cn_socket = 5, cn_connect = 0, cn_address = 7, cn_first_test = True\<rparr>"

lemma sample_client_connected:
  "\<exists>client r evs. ce_client_connect casts dict_statics_start sample_answers (Some sample_conf) (Some ce_connect_ok) =
     Some (Some client, r, evs)"
proof -
  have "\<not> conf_refused sample_conf" by (simp add: conf_refused_def sample_conf_def)
  moreover obtain io io' where "ce_io_new dict_statics_start sample_conf = Some io"
    "ce_io_add dict_statics_start 7 io 5 = Some (io', True)"
    using sample_io_added by blast
  ultimately have "ce_client_connect casts dict_statics_start sample_answers (Some sample_conf) (Some ce_connect_ok) =
      Some (Some \<lparr>client_io = Some io', client_fd = 5, client_stop = True\<rparr>, Some ce_connect_ok,
        [Opened 5, Keepalive 5 (conf_keepalive sample_conf)])"
    by (simp add: ce_client_connect_def sample_answers_def Let_def)
  then show ?thesis by blast
qed

theorem client_connect_result_witness:
  "\<exists>r evs. ce_client_connect As_written dict_statics_start (sample_answers\<lparr>cn_connect := 1\<rparr>) (Some sample_conf)
      (Some ce_connect_ok) = Some (None, r, evs) \<and> r = Some ce_connect_server_no_response \<and> open_socks evs [] = [5]"
proof -
  have "\<not> conf_refused sample_conf" by (simp add: conf_refused_def sample_conf_def)
  then show ?thesis
    using client_connect_result [where casts = As_written and st = dict_statics_start and p = "Some sample_conf"
        and ans = "sample_answers\<lparr>cn_connect := 1\<rparr>" and result = "Some ce_connect_ok"]
    by (simp add: ce_client_connect_def connect_args_ok_def sample_answers_def Let_def)
qed


lemma client_data_undefined_witness:
  "\<exists>client r evs.
     ce_client_connect As_written dict_statics_start sample_answers (Some sample_conf) (Some ce_connect_ok) =
       Some (Some client, r, evs) \<and>
     ce_client_routine As_written client [(False, [1])] = None \<and> ce_client_send As_written (Some client) (Some [1]) 1 = None"
proof -
  obtain client r evs where c: "ce_client_connect As_written dict_statics_start sample_answers (Some sample_conf) (Some ce_connect_ok) =
      Some (Some client, r, evs)"
    using sample_client_connected by blast
  from client_data_undefined [OF c, of "[1]" 1 "[]" "[1]"] c show ?thesis by (auto simp: sample_answers_def)
qed

end
