(* ===== verification/Chat.thy ===== *)
theory Chat
  imports Ce_Client Ce_Io_Properties Hash_Functions
begin

text \<open>
  The sample application of \<^verbatim>\<open>chat/src\<close> on the library: the server of \<^verbatim>\<open>Server.cpp\<close>, the client of \<^verbatim>\<open>Client.cpp\<close> and the
  identifiers of \<^verbatim>\<open>ChatMessage.cpp\<close>. A character array is the list of its bytes. A result of \<open>None\<close> is undefined
  behaviour or a call that does not return; asserts are off.
\<close>

text \<open>\<open>strcpy\<close> of a string without its final zero; \<open>None\<close> when the array is too short.\<close>

definition strcpy :: "u8 list \<Rightarrow> u8 list \<Rightarrow> u8 list option" where
  "strcpy dest s = (if length s < length dest then Some (s @ 0 # drop (Suc (length s)) dest) else None)"

text \<open>The string in an array; \<open>None\<close> when it is not ended within it.\<close>

definition string_in :: "u8 list \<Rightarrow> u8 list option" where
  "string_in a = (if 0 \<in> set a then Some (takeWhile (\<lambda>c. c \<noteq> 0) a) else None)"

lemma strcpy_Some: "strcpy dest s = Some d \<Longrightarrow> length d = length dest \<and> (s \<noteq> [] \<longrightarrow> d ! 0 = s ! 0)"
  by (cases s) (auto simp: strcpy_def split: if_splits)

text \<open>The configuration both set up on their stack; \<open>ip\<close> is the array with what it held before.\<close>

definition chat_conf :: "u8 list \<Rightarrow> u8 list \<Rightarrow> int \<Rightarrow> ce_conf option" where
  "chat_conf ip address port = do {
     a \<leftarrow> strcpy ip address;
     Some \<lparr>on_accept = True, on_received = True, on_exception = True, on_close = True,
           per_max_packet_body_size = 4096, per_cache_ringbuffer_size = 1024 * 1024, conf_workers = 2,
           conf_ip = a, conf_port = port, conf_timeout = 5, conf_keepalive = 10, conf_heartbeat = 60\<rparr>
   }"

section \<open>The server\<close>

record server_impl =
  impl_server :: "ce_server option"

text \<open>\<open>impl\<close> is the static variable, \<open>mem\<close> the memory of a new object, which the constructor leaves as it is.\<close>

definition server_instance :: "server_impl \<Rightarrow> server_impl option \<Rightarrow> server_impl option" where
  "server_instance mem impl = (case impl of None \<Rightarrow> Some mem | Some i \<Rightarrow> Some i)"

text \<open>The reply, five characters in UTF-8.\<close>

definition chat_reply :: "u8 list" where
  "chat_reply = [0xE6, 0x88, 0x91, 0xE6, 0x94, 0xB6, 0xE5, 0x88, 0xB0, 0xE4, 0xBA, 0x86, 0xE4, 0xBA, 0xB2]"

definition on_s_received :: "io_casts \<Rightarrow> server_impl \<Rightarrow> int \<Rightarrow> u8 list \<Rightarrow> packet_len_t \<Rightarrow> server_impl option" where
  "on_s_received casts server fd data sz = do {
     (s, _) \<leftarrow> ce_server_push casts (impl_server server) fd (Some chat_reply) (word_of_nat (length chat_reply));
     Some (server\<lparr>impl_server := s\<rparr>)
   }"

text \<open>
  \<open>err\<close> is written by the two functions of the socket layer when they fail, and by nothing else; printing it otherwise
  reads an uninitialised array. The address is 127.0.0.1.
\<close>

definition chat_server_startup ::
  "dict_statics \<Rightarrow> ce_server \<Rightarrow> startup_answers \<Rightarrow> u8 list \<Rightarrow> server_impl \<Rightarrow> (server_impl \<times> bool \<times> net_event list) option" where
  "chat_server_startup st fresh ans ip self = do {
     conf \<leftarrow> chat_conf ip [49, 50, 55, 46, 48, 46, 48, 46, 49] 9087;
     (server, evs) \<leftarrow> ce_server_startup st fresh ans (Some conf) True;
     if server \<noteq> None then Some (self\<lparr>impl_server := server\<rparr>, True, evs)
     else if st_fd ans = ANET_ERR \<or> st_keepalive ans = ANET_ERR then Some (self\<lparr>impl_server := None\<rparr>, False, evs)
     else None
   }"

section \<open>The client\<close>

record client_impl =
  cl_session :: "u8 list"
  cl_ip :: "u8 list"
  cl_port :: int
  message_listener :: bool
  connect_listener :: bool
  notification_listener :: bool
  login_listener :: bool
  cl_client :: "ce_client option"

datatype connect_status =
  CONNECT_STATUS_CONNECTING | CONNECT_STATUS_CONNECTED | CONNECT_STATUS_LOGIN_SUCCESS
  | CONNECT_STATUS_DISCONNECTED | CONNECT_STATUS_CONFILECT

datatype chat_event = On_connect_changed connect_status | On_no_response | On_init_error | Net net_event

text \<open>The constructor; \<open>mem\<close> is the memory of the new object, whose session it leaves as it is.\<close>

definition client_new :: "client_impl \<Rightarrow> client_impl" where
  "client_new mem = mem\<lparr>cl_ip := (cl_ip mem)[0 := 0], cl_port := 0, message_listener := False, connect_listener := False,
     notification_listener := False, login_listener := False, cl_client := None\<rparr>"

definition client_instance :: "client_impl \<Rightarrow> client_impl option \<Rightarrow> client_impl option" where
  "client_instance mem impl = (case impl of None \<Rightarrow> Some (client_new mem) | Some i \<Rightarrow> Some i)"

definition setServer :: "u8 list \<Rightarrow> int \<Rightarrow> client_impl \<Rightarrow> client_impl option" where
  "setServer ip port self = do { a \<leftarrow> strcpy (cl_ip self) ip; Some (self\<lparr>cl_ip := a, cl_port := port\<rparr>) }"

definition setSession :: "u8 list \<Rightarrow> client_impl \<Rightarrow> client_impl option" where
  "setSession session self = do { a \<leftarrow> strcpy (cl_session self) session; Some (self\<lparr>cl_session := a\<rparr>) }"

definition setMessageListener :: "bool \<Rightarrow> client_impl \<Rightarrow> client_impl" where
  "setMessageListener listener self = self\<lparr>message_listener := listener\<rparr>"

definition setConnectChangeListener :: "bool \<Rightarrow> client_impl \<Rightarrow> client_impl" where
  "setConnectChangeListener listener self = self\<lparr>connect_listener := listener\<rparr>"

definition setNotificationListener :: "bool \<Rightarrow> client_impl \<Rightarrow> client_impl" where
  "setNotificationListener listener self = self\<lparr>notification_listener := listener\<rparr>"

definition setLoginListener :: "bool \<Rightarrow> client_impl \<Rightarrow> client_impl" where
  "setLoginListener listener self = self\<lparr>login_listener := listener\<rparr>"

definition isAuthed :: "client_impl \<Rightarrow> bool" where
  "isAuthed self = False"

text \<open>What \<open>login\<close> reports for a result; \<open>None\<close> is a call through a listener that is not set.\<close>

definition report_result :: "client_impl \<Rightarrow> ce_connect_result \<Rightarrow> chat_event list option" where
  "report_result self result =
     (case result of
        ce_connect_ok \<Rightarrow> Some [On_connect_changed CONNECT_STATUS_CONNECTED]
      | ce_connect_server_no_response \<Rightarrow>
          if login_listener self then Some [On_connect_changed CONNECT_STATUS_DISCONNECTED, On_no_response] else None
      | ce_connect_init_error \<Rightarrow> if login_listener self then Some [On_init_error] else None
      | ce_connect_socket_error \<Rightarrow> if login_listener self then Some [On_init_error] else None)"

text \<open>\<open>ip\<close> and \<open>result0\<close> are what the two local variables hold before anything is written to them.\<close>

definition login ::
  "io_casts \<Rightarrow> dict_statics \<Rightarrow> connect_answers \<Rightarrow> u8 list \<Rightarrow> ce_connect_result \<Rightarrow> client_impl \<Rightarrow>
     (client_impl \<times> bool \<times> chat_event list) option" where
  "login casts st ans ip result0 self =
     (if isAuthed self then Some (self, True, [])
      else if cl_ip self ! 0 = 0 \<or> cl_session self ! 0 = 0 then Some (self, False, [])
      else do {
        address \<leftarrow> string_in (cl_ip self);
        conf \<leftarrow> chat_conf ip address (cl_port self);
        if \<not> connect_listener self then None
        else do {
          (client, result, evs) \<leftarrow> ce_client_connect casts st ans (Some conf) (Some result0);
          r \<leftarrow> result;
          reported \<leftarrow> report_result self r;
          Some (self\<lparr>cl_client := client\<rparr>, True,
                On_connect_changed CONNECT_STATUS_CONNECTING # map Net evs @ reported)
        }
      })"

section \<open>What the client does not do\<close>

text \<open>
  The client's callbacks and its remaining methods have no body but a return: the result is the object afterwards and what
  the method returns. A string is the list of its bytes, \<open>userData\<close> an address.
\<close>

datatype SendToType = SendToUser | SendToGroup

definition on_c_accept :: "int \<Rightarrow> u8 list \<Rightarrow> int \<Rightarrow> client_impl \<Rightarrow> client_impl" where
  "on_c_accept fd ip port self = self"

definition on_c_received :: "int \<Rightarrow> u8 list \<Rightarrow> packet_len_t \<Rightarrow> client_impl \<Rightarrow> client_impl" where
  "on_c_received fd data sz self = self"

definition on_c_exception :: "int \<Rightarrow> ce_exception \<Rightarrow> client_impl \<Rightarrow> client_impl" where
  "on_c_exception fd x self = self"

definition on_c_close :: "int \<Rightarrow> client_impl \<Rightarrow> client_impl" where
  "on_c_close fd self = self"

definition disconnect :: "client_impl \<Rightarrow> client_impl \<times> bool" where
  "disconnect self = (self, False)"

definition chatText :: "SendToType \<Rightarrow> int \<Rightarrow> u8 list \<Rightarrow> client_impl \<Rightarrow> client_impl \<times> bool" where
  "chatText ty uid body self = (self, False)"

definition chatTextAgain :: "u64 \<Rightarrow> client_impl \<Rightarrow> client_impl \<times> bool" where
  "chatTextAgain packet self = (self, False)"

definition chatImage :: "SendToType \<Rightarrow> int \<Rightarrow> u8 list \<Rightarrow> int \<Rightarrow> nat \<Rightarrow> client_impl \<Rightarrow> client_impl \<times> bool" where
  "chatImage ty uid imageFile imageCount userData self = (self, False)"

definition chatImageAgain :: "u64 \<Rightarrow> nat \<Rightarrow> client_impl \<Rightarrow> client_impl \<times> bool" where
  "chatImageAgain packet userData self = (self, False)"

definition chatVoice :: "SendToType \<Rightarrow> int \<Rightarrow> u8 list \<Rightarrow> int \<Rightarrow> nat \<Rightarrow> client_impl \<Rightarrow> client_impl \<times> bool" where
  "chatVoice ty uid imageFile imageCount userData self = (self, False)"

definition chatVoice_again :: "u64 \<Rightarrow> nat \<Rightarrow> client_impl \<Rightarrow> client_impl \<times> bool" where
  "chatVoice_again packet userData self = (self, False)"

definition changeOnline :: "bool \<Rightarrow> client_impl \<Rightarrow> client_impl \<times> bool" where
  "changeOnline online self = (self, False)"

definition getClientUI :: "client_impl \<Rightarrow> nat option" where
  "getClientUI self = None"

section \<open>The program\<close>

text \<open>
  \<open>main\<close>: it starts the server, whose result it ignores, and then a thread that does nothing, and waits for a key.
\<close>

definition chat_main ::
  "dict_statics \<Rightarrow> ce_server \<Rightarrow> startup_answers \<Rightarrow> u8 list \<Rightarrow> server_impl \<Rightarrow> (server_impl \<times> int \<times> net_event list) option" where
  "chat_main st fresh ans ip mem = do {
     server \<leftarrow> server_instance mem None;
     (server', _, evs) \<leftarrow> chat_server_startup st fresh ans ip server;
     Some (server', 0, evs)
   }"

section \<open>Messages\<close>

datatype MessageType = MessageTypeText | MessageTypeImage | MessageTypeVoice | MessageTypeImageGroup | MessageTypeAnnounce

datatype MessageStatus =
  MessageStatusDelivering | MessageStatusDelivered | MessageStatusDeliverFailed | MessageStatusDisplayed

record ChatMessage =
  packetId :: u64
  msg_type :: MessageType
  ts :: int
  tsDisplay :: bool
  msg_uid :: int
  postByMe :: bool
  msg_status :: MessageStatus

text \<open>The constructor sets one field; \<open>now\<close> is what \<open>time\<close> gives.\<close>

definition ChatMessage_new :: "int \<Rightarrow> ChatMessage \<Rightarrow> ChatMessage option" where
  "ChatMessage_new now mem = do { i \<leftarrow> hash_long (word_of_int now) 4; Some (mem\<lparr>packetId := i\<rparr>) }"

section \<open>Properties\<close>

lemma chat_conf_ok:
  assumes "length ip = 17" "address \<noteq> []"
  shows "chat_conf ip address port = None \<longleftrightarrow> 16 < length address"
    "chat_conf ip address port = Some conf \<Longrightarrow> conf_workers conf = 2 \<and> conf_port conf = port \<and> conf_keepalive conf = 10 \<and>
       (conf_refused conf \<longleftrightarrow> address ! 0 = 0 \<or> port \<le> 0)"
proof -
  show "chat_conf ip address port = None \<longleftrightarrow> 16 < length address"
    using assms(1) by (auto simp: chat_conf_def strcpy_def)
next
  assume "chat_conf ip address port = Some conf"
  then obtain a where a: "strcpy ip address = Some a"
    "conf = \<lparr>on_accept = True, on_received = True, on_exception = True, on_close = True,
           per_max_packet_body_size = 4096, per_cache_ringbuffer_size = 1024 * 1024, conf_workers = 2,
           conf_ip = a, conf_port = port, conf_timeout = 5, conf_keepalive = 10, conf_heartbeat = 60\<rparr>"
    by (auto simp: chat_conf_def)
  have "a ! 0 = address ! 0" using strcpy_Some [OF a(1)] assms(2) by simp
  then show "conf_workers conf = 2 \<and> conf_port conf = port \<and> conf_keepalive conf = 10 \<and>
      (conf_refused conf \<longleftrightarrow> address ! 0 = 0 \<or> port \<le> 0)"
    by (simp add: a(2) conf_refused_def)
qed

lemma sample_server_conf:
  assumes "length ip = 17"
  obtains conf where "chat_conf ip [49, 50, 55, 46, 48, 46, 48, 46, 49] 9087 = Some conf" "ce_io_new st conf = None"
    "\<not> conf_refused conf"
proof -
  let ?a = "[49, 50, 55, 46, 48, 46, 48, 46, 49] :: u8 list"
  obtain conf where conf: "chat_conf ip ?a 9087 = Some conf"
    using chat_conf_ok(1) [OF assms, of ?a 9087] by fastforce
  moreover from this have "ce_io_new st conf = None" "\<not> conf_refused conf"
    using chat_conf_ok(2) [OF assms _ conf] by (simp_all add: ce_io_new_def)
  ultimately show thesis by (rule that)
qed




definition sample_client :: client_impl where
  "sample_client = \<lparr>cl_session = [49, 0], cl_ip = [49, 46, 50, 0], cl_port = 9087, message_listener = False,
     connect_listener = True, notification_listener = False, login_listener = True, cl_client = None\<rparr>"


text \<open>
  \<open>main\<close> gets past the start of its server only when the socket layer fails, and then goes on without a server, with a result
  that tells nothing of it.
\<close>

lemma chat_main_result:
  assumes "length ip = 17" "chat_main st fresh ans ip mem = Some (server, r, evs)"
  shows "(st_fd ans = ANET_ERR \<or> st_keepalive ans = ANET_ERR) \<and> impl_server server = None \<and> r = 0"
proof -
  obtain conf where conf: "chat_conf ip [49, 50, 55, 46, 48, 46, 48, 46, 49] 9087 = Some conf" "ce_io_new st conf = None"
    "\<not> conf_refused conf"
    using assms(1) by (rule sample_server_conf)
  with assms(2) show ?thesis
    by (auto simp: chat_main_def server_instance_def chat_server_startup_def ce_server_startup_def Let_def split: if_splits)
qed

section \<open>The reply\<close>

text \<open>
  With the casts repaired, the reply to a client's packet is put where that client's bytes are received, as a packet of its
  own: the loop over the received bytes would hand it to the server as if the client had sent it. Nothing is put where
  the client's answers are sent from.
\<close>

lemma reply_comes_back:
  assumes server: "impl_server server = Some s" "server_io s = Some io"
    and con: "connected io fd a f" and buf: "rb_contents (enqueue_buffer f) = []" "17 \<le> free_space (enqueue_buffer f)"
    and limit: "15 \<le> unat limit"
  shows "\<exists>io' f' f''. on_s_received As_meant server fd data sz = Some (server\<lparr>impl_server := Some (s\<lparr>server_io := Some io'\<rparr>)\<rparr>) \<and>
    connected io' fd a f' \<and> push_buffer f' = push_buffer f \<and>
    packet_loop limit f' = Some (f'', [On_received (io_fd_fd f) chat_reply], False)"
proof -
  have len: "length chat_reply = 15" "unat (word_of_nat (length chat_reply) :: packet_len_t) = 15"
    by (simp_all add: chat_reply_def)
  obtain io' f' where io': "ce_io_push As_meant (Some io) ce_push_fd fd (Some chat_reply) (word_of_nat (length chat_reply)) =
      Some (Some io', True)" "connected io' fd a f'" "push_buffer f' = push_buffer f" "io_fd_fd f' = io_fd_fd f"
    "rb_contents (enqueue_buffer f') = le_bytes 2 (int 15) @ chat_reply"
    using ce_io_push_ok [OF con, of "word_of_nat (length chat_reply)" chat_reply ce_push_fd] len buf
    by (auto simp: word_less_nat_alt)
  have "on_s_received As_meant server fd data sz = Some (server\<lparr>impl_server := Some (s\<lparr>server_io := Some io'\<rparr>)\<rparr>)"
    using io'(1) server len by (simp add: on_s_received_def ce_server_push_def word_le_nat_alt)
  moreover have "parse_packets limit (rb_contents (enqueue_buffer f')) = ([chat_reply], [], Drained)"
    using parse_one_packet [of 15 limit chat_reply] limit len(1) unfolding io'(5) by (simp add: chat_reply_def)
  moreover have "rb_inv (enqueue_buffer f')" using io'(2) by (simp add: connected_def)
  ultimately show ?thesis
    using packet_loop_parse [of f' limit] io'(2-4) by fastforce
qed

section \<open>Identifiers\<close>

text \<open>The identifier of a message is one of sixteen, and the same for all messages of a second.\<close>

lemma packet_ids: "\<exists>i. ChatMessage_new now mem = Some (mem\<lparr>packetId := i\<rparr>) \<and> unat i < 16"
proof -
  obtain i where i: "hash_long (word_of_int now) 4 = Some i"
    using hash_long_multiplies [of 4 "word_of_int now"] by simp
  with hash_long_bound [of 4 "word_of_int now" i] show ?thesis
    by (intro exI [of _ i]) (simp add: ChatMessage_new_def)
qed

end
