(* ===== verification/Ce_Sock.thy ===== *)
theory Ce_Sock
  imports Byte_Order
begin

text \<open>
  The socket helpers of \<^verbatim>\<open>cevent/ce_sock.c\<close>, for a build that is not for Windows on a system with \<^verbatim>\<open>TCP_KEEPIDLE\<close>
  and without \<^verbatim>\<open>TCP_KEEPALIVE\<close>. What the system calls answer are arguments; the calls made, in order, are part of the
  result.
\<close>

unbundle bit_operations_syntax

datatype sock_opt = SO_KEEPALIVE | TCP_KEEPIDLE

datatype sock_call =
    F_getfl int
  | F_setfl int u32
  | Close_fd int
  | Set_opt int sock_opt "u8 list"

definition O_NONBLOCK :: u32 where
  "O_NONBLOCK = 0x800"

definition ce_sock_init :: "bool \<Rightarrow> bool" where
  "ce_sock_init init = True"

text \<open>The parameter \<open>fd\<close> is a \<open>bool\<close>, so a descriptor that is passed to it is converted first.\<close>

definition to_bool :: "int \<Rightarrow> bool" where
  "to_bool n \<longleftrightarrow> n \<noteq> 0"

definition of_bool :: "bool \<Rightarrow> int" where
  "of_bool b = (if b then 1 else 0)"

definition ce_sock_setblock :: "(int \<Rightarrow> u32) \<Rightarrow> (int \<Rightarrow> u32 \<Rightarrow> int) \<Rightarrow> bool \<Rightarrow> bool \<Rightarrow> bool \<times> sock_call list" where
  "ce_sock_setblock getfl setfl fd lock =
     (let flags = getfl (of_bool fd);
          flags1 = (if lock then flags AND NOT O_NONBLOCK else flags OR O_NONBLOCK)
      in (setfl (of_bool fd) flags1 \<noteq> - 1, [F_getfl (of_bool fd), F_setfl (of_bool fd) flags1]))"

definition ce_sock_close :: "(int \<Rightarrow> int) \<Rightarrow> int \<Rightarrow> bool \<times> sock_call list" where
  "ce_sock_close close_fd fd = (close_fd fd = 0, [Close_fd fd])"

text \<open>Option values are the bytes in memory: one for a \<open>bool\<close>, four for an \<open>int\<close>.\<close>

definition bool_bytes :: "bool \<Rightarrow> u8 list" where
  "bool_bytes b = [if b then 1 else 0]"

definition int_bytes :: "int \<Rightarrow> u8 list" where
  "int_bytes n = le_bytes 4 n"

definition ce_sock_keepalive ::
  "(int \<Rightarrow> sock_opt \<Rightarrow> u8 list \<Rightarrow> int) \<Rightarrow> int \<Rightarrow> bool \<Rightarrow> int \<Rightarrow> bool \<times> sock_call list" where
  "ce_sock_keepalive setsockopt fd on delay =
     (let first = Set_opt fd SO_KEEPALIVE (bool_bytes on) in
      if setsockopt fd SO_KEEPALIVE (bool_bytes on) \<noteq> 0 then (False, [first])
      else if \<not> on then (True, [first])
      else
        let second = Set_opt fd TCP_KEEPIDLE (int_bytes delay) in
        (setsockopt fd TCP_KEEPIDLE (int_bytes delay) = 0, [first, second]))"

text \<open>
  \<open>strncpy\<close> copies up to \<open>n\<close> characters of a string and fills what is left of the \<open>n\<close> with zeros. \<open>ip\<close> is the buffer of
  17 bytes; \<open>peer\<close> is what \<open>getpeername\<close> finds, the address as \<open>inet_ntoa\<close> prints it and the port in network order.
\<close>

definition strncpy :: "u8 list \<Rightarrow> u8 list \<Rightarrow> nat \<Rightarrow> u8 list" where
  "strncpy buf s n = take n s @ replicate (n - length s) 0 @ drop n buf"

definition ntohs :: "byte_order \<Rightarrow> u16 \<Rightarrow> u16" where
  "ntohs host x = (case host of Little_endian \<Rightarrow> bswap_16 x | Big_endian \<Rightarrow> x)"

definition ce_sock_ip :: "byte_order \<Rightarrow> (u8 list \<times> u16) option \<Rightarrow> u8 list \<Rightarrow> bool \<times> u8 list \<times> int" where
  "ce_sock_ip host peer ip =
     (let ip1 = ip[0 := 0] in
      case peer of
        None \<Rightarrow> (False, ip1, 0)
      | Some (addr, sin_port) \<Rightarrow> (True, (strncpy ip1 addr 16)[16 := 0], uint (ntohs host sin_port)))"

section \<open>What the helpers do\<close>

text \<open>Every descriptor but 0 is taken for 1, so that it is the standard output that is changed.\<close>

lemma setblock_changes_stdout:
  "fd \<noteq> 0 \<Longrightarrow>
     ce_sock_setblock getfl setfl (to_bool fd) lock = ce_sock_setblock getfl setfl (to_bool 1) lock \<and>
     list_all (\<lambda>c. case c of F_getfl d \<Rightarrow> d = 1 | F_setfl d _ \<Rightarrow> d = 1 | _ \<Rightarrow> False)
       (snd (ce_sock_setblock getfl setfl (to_bool fd) lock))"
  by (simp add: ce_sock_setblock_def to_bool_def of_bool_def Let_def)

text \<open>On the two descriptors it can name, blocking is switched off and on again without another flag changing.\<close>

lemma setblock_flags:
  assumes "ce_sock_setblock getfl setfl fd lock = (r, [c, F_setfl d flags])"
  shows "bit flags n = (if n = 11 then \<not> lock else bit (getfl d) n)"
proof -
  have b: "bit O_NONBLOCK n \<longleftrightarrow> n = 11" for n
  proof -
    have "O_NONBLOCK = 2 ^ 11" by (simp add: O_NONBLOCK_def)
    then have "bit O_NONBLOCK n = bit (2 ^ 11 :: u32) n" by simp
    also have "\<dots> \<longleftrightarrow> n = 11" by (subst bit_exp_iff) (auto simp: possible_bit_word)
    finally show ?thesis .
  qed
  have "flags = (if lock then getfl d AND NOT O_NONBLOCK else getfl d OR O_NONBLOCK)"
    using assms by (auto simp: ce_sock_setblock_def Let_def split: if_splits)
  then show ?thesis
    by (auto simp: bit_simps b dest: bit_imp_le_length)
qed

text \<open>
  The system takes four bytes for \<open>SO_KEEPALIVE\<close> and refuses fewer (\<^verbatim>\<open>EINVAL\<close>); the code passes one. Where that is
  so, keep-alive is never switched on, nor its delay set.
\<close>

lemma keepalive_never_set:
  assumes "\<And>fd val. length val < 4 \<Longrightarrow> setsockopt fd SO_KEEPALIVE val \<noteq> 0"
  shows "ce_sock_keepalive setsockopt fd on delay = (False, [Set_opt fd SO_KEEPALIVE (bool_bytes on)])"
  using assms [of "bool_bytes on" fd] by (simp add: ce_sock_keepalive_def bool_bytes_def)

text \<open>
  The buffer always holds a string that ends within it: the printed address, cut after 16 characters, or nothing; and
  the port is read in network order.
\<close>

lemma takeWhile_strncpy:
  assumes "length ip = 17" "0 \<notin> set addr"
  shows "takeWhile (\<lambda>c. c \<noteq> 0) ((strncpy ip addr 16)[16 := 0]) = take 16 addr"
proof -
  obtain x where x: "drop 16 ip = [x]"
    using assms(1) by (metis length_drop add_diff_cancel_left' length_0_conv length_Suc_conv numeral_plus_one semiring_norm(5) One_nat_def)
  let ?s = "take 16 addr @ replicate (16 - length addr) 0"
  have "length ?s = 16" by simp
  then have "(strncpy ip addr 16)[16 := 0] = ?s @ [0]"
    unfolding strncpy_def x append_assoc [symmetric] by (simp only: list_update_append) simp
  moreover have "\<forall>c \<in> set (take 16 addr). c \<noteq> 0" using assms(2) by (auto dest: in_set_takeD)
  ultimately show ?thesis by (cases "16 - length addr") (simp_all add: takeWhile_append2)
qed

lemma ce_sock_ip_terminated:
  assumes "length ip = 17" "ce_sock_ip host peer ip = (r, ip', port)"
    "case peer of None \<Rightarrow> True | Some (addr, _) \<Rightarrow> 0 \<notin> set addr"
  shows "takeWhile (\<lambda>c. c \<noteq> 0) ip' = (case peer of None \<Rightarrow> [] | Some (addr, _) \<Rightarrow> take 16 addr) \<and>
    length ip' = 17 \<and> (ip' ! 0 = 0 \<or> ip' ! 16 = 0)"
proof (cases peer)
  case None
  with assms(1,2) show ?thesis by (cases ip) (auto simp: ce_sock_ip_def Let_def)
next
  case (Some p)
  then obtain addr sin_port where peer: "peer = Some (addr, sin_port)" by (cases p) auto
  have ip': "ip' = (strncpy (ip[0 := 0]) addr 16)[16 := 0]"
    using assms(2) by (simp add: ce_sock_ip_def peer Let_def)
  with assms(1,3) takeWhile_strncpy [of "ip[0 := 0]" addr] show ?thesis
    by (simp add: peer strncpy_def)
qed

text \<open>The port is the number whose most significant byte comes first in memory.\<close>

lemma ntohs_reads_network_order: "rev (word_bytes (ntohs host x)) = memory_bytes host x"
  using bswap_reverses [of x] by (cases host) (simp_all add: ntohs_def memory_bytes_def)

end
