(* ===== verification/Ce_Log.thy ===== *)
theory Ce_Log
  imports Prelude
begin

text \<open>
  Logging and assertions, \<^verbatim>\<open>cevent/ce_log.c\<close> and \<^verbatim>\<open>cevent/ce_assert.c\<close>, for a build that is neither for Windows nor for Apple nor for
  Android. Streams are the three standard ones and files by number; what is written to them is a sequence of events. The
  message comes formatted by \<open>vsnprintf\<close>, the time from \<open>localtime\<close>: both are arguments. \<open>None\<close> is undefined
  behaviour.
\<close>

unbundle bit_operations_syntax

section \<open>State\<close>

datatype ce_log_level = ce_log_level_none | ce_log_level_error | ce_log_level_warn | ce_log_level_info | ce_log_level_debug

primrec level_value :: "ce_log_level \<Rightarrow> nat" where
  "level_value ce_log_level_none = 0"
| "level_value ce_log_level_error = 1"
| "level_value ce_log_level_warn = 2"
| "level_value ce_log_level_info = 3"
| "level_value ce_log_level_debug = 4"

text \<open>Levels are compared as the numbers they are in C.\<close>

instantiation ce_log_level :: linorder
begin

definition less_eq_ce_log_level :: "ce_log_level \<Rightarrow> ce_log_level \<Rightarrow> bool" where
  "a \<le> b \<longleftrightarrow> level_value a \<le> level_value b"

definition less_ce_log_level :: "ce_log_level \<Rightarrow> ce_log_level \<Rightarrow> bool" where
  "a < b \<longleftrightarrow> level_value a < level_value b"

instance
proof
  fix a b :: ce_log_level
  show "a \<le> b \<Longrightarrow> b \<le> a \<Longrightarrow> a = b"
    by (cases a; cases b) (simp_all add: less_eq_ce_log_level_def)
qed (auto simp: less_eq_ce_log_level_def less_ce_log_level_def)

end

lemma none_le [simp]: "ce_log_level_none \<le> level"
  by (simp add: less_eq_ce_log_level_def)

datatype stream = Stdin | Stdout | Stderr | File nat

record ce_log =
  s_level :: ce_log_level
  s_fp :: "stream option"

definition ce_log_start :: ce_log where
  "ce_log_start = \<lparr>s_level = ce_log_level_none, s_fp = None\<rparr>"

datatype log_event = Fputs stream string | Set_color u8 u8 | Reset_color | Fclose stream

record tm =
  tm_year :: nat
  tm_mon :: nat
  tm_mday :: nat
  tm_hour :: nat
  tm_min :: nat
  tm_sec :: nat
  tm_msec :: nat

section \<open>Formats\<close>

fun decimal :: "nat \<Rightarrow> string" where
  "decimal n = (if n < 10 then [char_of (48 + n)] else decimal (n div 10) @ [char_of (48 + n mod 10)])"

declare decimal.simps [simp del]

definition decimal_int :: "int \<Rightarrow> string" where
  "decimal_int i = (if i < 0 then ''-'' @ decimal (nat (- i)) else decimal (nat i))"

text \<open>\<open>%0Nd\<close> and \<open>%-Ns\<close>.\<close>

definition zero_padded :: "nat \<Rightarrow> nat \<Rightarrow> string" where
  "zero_padded width n = (let s = decimal n in replicate (width - length s) (CHR ''0'') @ s)"

definition left_padded :: "nat \<Rightarrow> string \<Rightarrow> string" where
  "left_padded width s = s @ replicate (width - length s) (CHR '' '')"

text \<open>\<open>fprintf\<close> with a string of unknown contents as the format: a conversion other than \<open>%%\<close> would read an argument.\<close>

fun printf_no_args :: "string \<Rightarrow> string option" where
  "printf_no_args [] = Some []"
| "printf_no_args (c # cs) =
     (if c \<noteq> CHR ''%'' then map_option ((#) c) (printf_no_args cs)
      else (case cs of
              d # ds \<Rightarrow> if d = CHR ''%'' then map_option ((#) c) (printf_no_args ds) else None
            | [] \<Rightarrow> None))"

section \<open>Operations\<close>

definition color :: "u8 list" where
  "color = [0x03, 9, 0x11, 0x41]"

text \<open>\<open>use_color\<close> keeps its initial value -1, which counts as true.\<close>

definition colored_fputs :: "stream \<Rightarrow> ce_log_level \<Rightarrow> string \<Rightarrow> log_event list option" where
  "colored_fputs fp level str =
     (if length color \<le> level_value level then None
      else do {
        out \<leftarrow> printf_no_args str;
        Some [Set_color (drop_bit 4 (color ! level_value level)) (color ! level_value level AND 15), Fputs fp out, Reset_color]
      })"

definition ce_log_open :: "stream option \<Rightarrow> ce_log \<Rightarrow> ce_log" where
  "ce_log_open fp s = s\<lparr>s_fp := fp\<rparr>"

definition ce_log_close :: "ce_log \<Rightarrow> ce_log \<times> log_event list" where
  "ce_log_close s =
     (if s_fp s \<noteq> None \<and> s_fp s \<noteq> Some Stdin \<and> s_fp s \<noteq> Some Stdout \<and> s_fp s \<noteq> Some Stderr
      then (s\<lparr>s_fp := None\<rparr>, [Fclose (the (s_fp s))])
      else (s, []))"

definition ce_log_show_level :: "ce_log_level \<Rightarrow> ce_log \<Rightarrow> ce_log" where
  "ce_log_show_level level s = s\<lparr>s_level := level\<rparr>"

definition MAX_LOG :: nat where
  "MAX_LOG = 4096"

text \<open>The part behind the last \<open>c\<close>, if there is one (\<open>strrchr\<close> and the step behind it).\<close>

definition after_last :: "char \<Rightarrow> string \<Rightarrow> string option" where
  "after_last c s = (if c \<in> set s then Some (rev (takeWhile (\<lambda>x. x \<noteq> c) (rev s))) else None)"

definition base_name :: "string \<Rightarrow> string" where
  "base_name c_file =
     (case after_last (CHR ''/'') c_file of
        Some suffix \<Rightarrow> suffix
      | None \<Rightarrow> (case after_last (char_of (92 :: nat)) c_file of Some suffix \<Rightarrow> suffix | None \<Rightarrow> c_file))"

definition level_name :: "ce_log_level \<Rightarrow> string" where
  "level_name level =
     (case level of
        ce_log_level_debug \<Rightarrow> ''DEBUG''
      | ce_log_level_info \<Rightarrow> ''INFO''
      | ce_log_level_warn \<Rightarrow> ''WARN''
      | _ \<Rightarrow> ''ERROR'')"

definition log_line :: "tm \<Rightarrow> ce_log_level \<Rightarrow> string \<Rightarrow> string \<Rightarrow> string \<Rightarrow> int \<Rightarrow> string" where
  "log_line t level log c_file func line =
     take (MAX_LOG - 2)
       (zero_padded 4 (tm_year t + 1900) @ ''-'' @ zero_padded 2 (tm_mon t + 1) @ ''-'' @ zero_padded 2 (tm_mday t) @ '' '' @
        zero_padded 2 (tm_hour t) @ '':'' @ zero_padded 2 (tm_min t) @ '':'' @ zero_padded 2 (tm_sec t) @ ''.'' @
        zero_padded 3 (tm_msec t) @ '' '' @ left_padded 5 (level_name level) @ '' - '' @ log @ '' ['' @ c_file @ ''/'' @
        func @ ''('' @ decimal_int line @ '')]'' @ [char_of (13 :: nat), char_of (10 :: nat)])"

definition ce_log_write ::
  "tm \<Rightarrow> ce_log \<Rightarrow> ce_log_level \<Rightarrow> string \<Rightarrow> string \<Rightarrow> int \<Rightarrow> string option \<Rightarrow> log_event list option" where
  "ce_log_write t s level c_file func line message =
     (if level \<le> s_level s \<or> s_fp s = None then Some []
      else let log = (case message of Some m \<Rightarrow> take (MAX_LOG - 2) m | None \<Rightarrow> []);
               logs = log_line t level log (base_name c_file) func line
           in (if s_fp s = Some Stdout \<or> s_fp s = Some Stderr \<or> s_fp s = Some Stdin
               then colored_fputs (the (s_fp s)) level logs else Some []))"

text \<open>The four macros.\<close>

definition CE_LOGD :: "tm \<Rightarrow> ce_log \<Rightarrow> string \<Rightarrow> string \<Rightarrow> int \<Rightarrow> string \<Rightarrow> log_event list option" where
  "CE_LOGD t s c_file func line m = ce_log_write t s ce_log_level_debug c_file func line (Some m)"

definition CE_LOGI :: "tm \<Rightarrow> ce_log \<Rightarrow> string \<Rightarrow> string \<Rightarrow> int \<Rightarrow> string \<Rightarrow> log_event list option" where
  "CE_LOGI t s c_file func line m = ce_log_write t s ce_log_level_info c_file func line (Some m)"

definition CE_LOGW :: "tm \<Rightarrow> ce_log \<Rightarrow> string \<Rightarrow> string \<Rightarrow> int \<Rightarrow> string \<Rightarrow> log_event list option" where
  "CE_LOGW t s c_file func line m = ce_log_write t s ce_log_level_warn c_file func line (Some m)"

definition CE_LOGE :: "tm \<Rightarrow> ce_log \<Rightarrow> string \<Rightarrow> string \<Rightarrow> int \<Rightarrow> string \<Rightarrow> log_event list option" where
  "CE_LOGE t s c_file func line m = ce_log_write t s ce_log_level_none c_file func line (Some m)"

section \<open>Assertions\<close>

record ce_assert =
  assert_custom :: bool
  assert_enabled :: bool

datatype assert_event = Logged log_event | Custom_assert | Aborted

definition ce_assert_set_custom :: "bool \<Rightarrow> ce_assert \<Rightarrow> ce_assert" where
  "ce_assert_set_custom given s = s\<lparr>assert_custom := given\<rparr>"

definition ce_assert_enable :: "bool \<Rightarrow> ce_assert \<Rightarrow> ce_assert" where
  "ce_assert_enable enable s = s\<lparr>assert_enabled := enable\<rparr>"

definition ce_assert0 ::
  "tm \<Rightarrow> ce_log \<Rightarrow> ce_assert \<Rightarrow> bool \<Rightarrow> string \<Rightarrow> string \<Rightarrow> int \<Rightarrow> assert_event list option" where
  "ce_assert0 t log s r c_file func line =
     (if assert_enabled s \<and> \<not> r
      then do {
        evs \<leftarrow> ce_log_write t log ce_log_level_error c_file func line (Some ''assert'');
        Some (map Logged evs @ (if assert_custom s then [Custom_assert] else []) @ [Aborted])
      }
      else Some [])"

section \<open>What is written\<close>

text \<open>A message gets through when its level is above the level that is set, and the stream is a standard one.\<close>

definition visible :: "ce_log \<Rightarrow> ce_log_level \<Rightarrow> bool" where
  "visible s level \<longleftrightarrow> s_level s < level \<and> s_fp s \<in> {Some Stdin, Some Stdout, Some Stderr}"

lemma printf_length: "printf_no_args s = Some out \<Longrightarrow> length out \<le> length s"
  by (induction s arbitrary: out rule: printf_no_args.induct) (fastforce split: if_splits list.splits)+

lemma length_log_line: "length (log_line t level log c_file func line) \<le> 4094"
  by (simp add: log_line_def MAX_LOG_def)

text \<open>
  What logging writes. A message is written exactly when it is visible and its text is a format without conversions; a
  visible debug message reads behind the end of the color table and any visible text with a percent sign is taken as a format
  (both undefined). Errors, logged with \<open>CE_LOGE\<close>, are never visible, nor is anything that is logged to a file; what is written
  fits the buffer of \<open>MAX_LOG\<close> bytes.
\<close>

lemma ce_log_write_visible:
  "(case ce_log_write t s level c_file func line message of
      None \<Rightarrow> visible s level \<and> (level = ce_log_level_debug \<or>
        printf_no_args (log_line t level (case message of Some m \<Rightarrow> take (MAX_LOG - 2) m | None \<Rightarrow> []) (base_name c_file) func line) = None)
    | Some evs \<Rightarrow> (evs \<noteq> []) = visible s level \<and>
        list_all (\<lambda>e. case e of Fputs fp out \<Rightarrow> s_fp s = Some fp \<and> length out < MAX_LOG - 1 | _ \<Rightarrow> True) evs) \<and>
   CE_LOGE t s c_file func line m = Some [] \<and>
   ce_log_write t (ce_log_open (Some (File n)) s) level c_file func line message = Some []"
proof -
  let ?log = "case message of Some m \<Rightarrow> take (MAX_LOG - 2) m | None \<Rightarrow> []"
  let ?line = "log_line t level ?log (base_name c_file) func line"
  have "case ce_log_write t s level c_file func line message of
      None \<Rightarrow> visible s level \<and> (level = ce_log_level_debug \<or> printf_no_args ?line = None)
    | Some evs \<Rightarrow> (evs \<noteq> []) = visible s level \<and>
        list_all (\<lambda>e. case e of Fputs fp out \<Rightarrow> s_fp s = Some fp \<and> length out < MAX_LOG - 1 | _ \<Rightarrow> True) evs"
  proof (cases "visible s level")
    case False
    then have "ce_log_write t s level c_file func line message = Some []"
      by (auto simp: ce_log_write_def visible_def Let_def)
    with False show ?thesis by simp
  next
    case True
    then obtain fp where fp: "s_fp s = Some fp" by (auto simp: visible_def)
    from True fp have w: "ce_log_write t s level c_file func line message = colored_fputs fp level ?line"
      by (auto simp: ce_log_write_def visible_def Let_def)
    show ?thesis
    proof (cases "printf_no_args ?line")
      case None
      with w True show ?thesis by (simp add: colored_fputs_def)
    next
      case (Some out)
      then have "length out < MAX_LOG - 1"
        using printf_length [OF Some] length_log_line [of t level ?log "base_name c_file" func line] by (simp add: MAX_LOG_def)
      with Some w True fp show ?thesis by (cases level) (simp_all add: colored_fputs_def color_def)
    qed
  qed
  then show ?thesis by (simp add: CE_LOGE_def ce_log_write_def ce_log_open_def Let_def)
qed

text \<open>What an error with the custom handler leaves: it is logged, handed to the handler and ends the program.\<close>

lemma ce_assert0_sample:
  "ce_assert0 \<lparr>tm_year = 115, tm_mon = 0, tm_mday = 9, tm_hour = 7, tm_min = 5, tm_sec = 30, tm_msec = 8\<rparr>
     (ce_log_open (Some Stderr) ce_log_start) \<lparr>assert_custom = True, assert_enabled = True\<rparr> False ''src/ce_io.c'' ''f'' 42 =
   Some [Logged (Set_color 0 9),
     Logged (Fputs Stderr (''2015-01-09 07:05:30.008 ERROR - assert [ce_io.c/f(42)]'' @ [char_of (13 :: nat), char_of (10 :: nat)])),
     Logged Reset_color, Custom_assert, Aborted]"
  by code_simp

end
