(* ===== verification/Ce_Alloctor.thy ===== *)
theory Ce_Alloctor
  imports Prelude
begin

text \<open>
  The allocator hooks of \<^verbatim>\<open>cevent/ce_alloctor.c\<close>. A function pointer is a number, \<open>None\<close> for NULL; what a wrapper calls is
  its result, the memory it gets belongs to the function called.
\<close>

unbundle bit_operations_syntax

record ce_alloctor =
  al_malloc :: "nat option"
  al_calloc :: "nat option"
  al_free :: "nat option"

datatype alloc_call = Malloc "nat option" int | Calloc "nat option" int int | Free "nat option" nat

definition ce_align_size :: "u32 \<Rightarrow> u32 \<Rightarrow> u32" where
  "ce_align_size x aligned = (x + (aligned - 1)) AND NOT (aligned - 1)"

text \<open>The static variable: \<open>malloc\<close>, \<open>calloc\<close> and \<open>free\<close>.\<close>

definition s_alloctor_start :: ce_alloctor where
  "s_alloctor_start = \<lparr>al_malloc = Some 0, al_calloc = Some 1, al_free = Some 2\<rparr>"

definition ce_custom_alloctor :: "ce_alloctor option \<Rightarrow> ce_alloctor \<Rightarrow> ce_alloctor \<times> bool" where
  "ce_custom_alloctor p s =
     (case p of
        None \<Rightarrow> (s, False)
      | Some a \<Rightarrow> if al_malloc a = None \<or> al_calloc a = None \<or> al_free a = None then (s, False) else (a, True))"

text \<open>The wrappers; \<open>None\<close> is the NULL they return without a call.\<close>

definition ce_malloc :: "ce_alloctor \<Rightarrow> int \<Rightarrow> alloc_call option" where
  "ce_malloc s bytes = (if bytes \<le> 0 then None else Some (Malloc (al_malloc s) bytes))"

definition ce_calloc :: "ce_alloctor \<Rightarrow> int \<Rightarrow> int \<Rightarrow> alloc_call option" where
  "ce_calloc s count bytes = (if count \<le> 0 \<or> bytes \<le> 0 then None else Some (Calloc (al_calloc s) count bytes))"

definition ce_free :: "ce_alloctor \<Rightarrow> nat option \<Rightarrow> alloc_call option" where
  "ce_free s ptr = (case ptr of None \<Rightarrow> None | Some p \<Rightarrow> Some (Free (al_free s) p))"

text \<open>\<open>ce_freep\<close> also sets the pointer.\<close>

definition ce_freep :: "ce_alloctor \<Rightarrow> nat option \<Rightarrow> alloc_call option \<times> nat option" where
  "ce_freep s ptr = (if ptr \<noteq> None then (ce_free s ptr, None) else (None, ptr))"

section \<open>No call through NULL\<close>

definition alloctor_ok :: "ce_alloctor \<Rightarrow> bool" where
  "alloctor_ok s \<longleftrightarrow> al_malloc s \<noteq> None \<and> al_calloc s \<noteq> None \<and> al_free s \<noteq> None"

fun alloctor_run :: "ce_alloctor option list \<Rightarrow> ce_alloctor \<Rightarrow> ce_alloctor" where
  "alloctor_run [] s = s"
| "alloctor_run (p # ps) s = alloctor_run ps (fst (ce_custom_alloctor p s))"

lemma custom_alloctor_ok: "alloctor_ok s \<Longrightarrow> alloctor_ok (fst (ce_custom_alloctor p s))"
  by (auto simp: ce_custom_alloctor_def alloctor_ok_def split: option.splits)

text \<open>Whatever the program installs, no wrapper ever calls a NULL pointer.\<close>

lemma wrappers_never_call_null:
  "ce_malloc (alloctor_run ps s_alloctor_start) n \<noteq> Some (Malloc None m) \<and>
   ce_calloc (alloctor_run ps s_alloctor_start) n k \<noteq> Some (Calloc None m l) \<and>
   ce_free (alloctor_run ps s_alloctor_start) p \<noteq> Some (Free None q)"
proof -
  have "alloctor_ok s \<Longrightarrow> alloctor_ok (alloctor_run ps s)" for s
    by (induction ps arbitrary: s) (simp_all add: custom_alloctor_ok)
  then have "alloctor_ok (alloctor_run ps s_alloctor_start)"
    by (simp add: alloctor_ok_def s_alloctor_start_def)
  then show ?thesis by (auto simp: alloctor_ok_def ce_malloc_def ce_calloc_def ce_free_def split: option.splits)
qed

section \<open>Aligned sizes\<close>

lemma align_16: "unat (ce_align_size x 16) = (unat x + 15) mod 2 ^ 32 div 16 * 16"
proof -
  have m: "(16 :: u32) - 1 = mask 4" by (simp add: mask_eq_exp_minus_1)
  have "(x + 15) AND NOT (mask 4) = push_bit 4 (drop_bit 4 (x + 15))"
    by (rule bit_word_eqI) (auto simp: bit_simps)
  moreover have "x + mask 4 = x + 15" by (simp add: mask_eq_exp_minus_1)
  ultimately have "ce_align_size x 16 = push_bit 4 (drop_bit 4 (x + 15))"
    unfolding ce_align_size_def m by simp
  moreover have "unat (x + 15) = (unat x + 15) mod 2 ^ 32"
    by (simp add: unat_word_ariths)
  moreover have "unat (push_bit 4 (drop_bit 4 y) :: u32) = unat y div 16 * 16" for y
  proof -
    have "unat y < 2 ^ 32" by (rule order.strict_trans2 [OF unsigned_less]) simp
    then have "unat y div 16 * 16 < 2 ^ 32" by (rule le_less_trans [OF div_times_less_eq_dividend])
    then show ?thesis
      by (simp only: unsigned_push_bit_eq unsigned_drop_bit_eq) (simp add: drop_bit_eq_div push_bit_eq_mult take_bit_eq_mod)
  qed
  ultimately show ?thesis by (simp only:)
qed

end
