(* ===== verification/Ce_Crypt.thy ===== *)
theory Ce_Crypt
  imports Ce_Alloctor "HOL-Library.Signed_Division"
begin

text \<open>
  The wrappers over OpenSSL and bzip2, \<^verbatim>\<open>cevent/ce_crypt.c\<close> and \<^verbatim>\<open>cevent/ce_bzip2.c\<close>: their checks, sizes and resources. The
  libraries are parameters. \<open>None\<close> is a read behind the end of a buffer or an overflow of an \<open>int\<close>.
\<close>

section \<open>Digest and locks\<close>

definition ce_crypt_md5 :: "(u8 list \<Rightarrow> u8 list) \<Rightarrow> u8 list \<Rightarrow> int \<Rightarrow> u8 list option" where
  "ce_crypt_md5 md5 buffer n = (if nat n \<le> length buffer then Some (md5 (take (nat n) buffer)) else None)"

text \<open>\<open>lock_array\<close> is how many mutexes it holds and which are locked; the callback is \<open>lock_callback\<close> or NULL.\<close>

record crypt_locks =
  inited :: bool
  lock_array :: "bool list option"
  locking_callback :: bool

definition crypt_start :: crypt_locks where
  "crypt_start = \<lparr>inited = False, lock_array = None, locking_callback = False\<rparr>"

definition ce_crypt_safe_init :: "nat \<Rightarrow> crypt_locks \<Rightarrow> crypt_locks" where
  "ce_crypt_safe_init num_locks s =
     (if \<not> inited s then \<lparr>inited = True, lock_array = Some (replicate num_locks False), locking_callback = True\<rparr> else s)"

definition ce_crypt_safe_uninit :: "crypt_locks \<Rightarrow> crypt_locks" where
  "ce_crypt_safe_uninit s =
     (if inited s then \<lparr>inited = False, lock_array = None, locking_callback = False\<rparr> else s)"

text \<open>Called by OpenSSL with a kind of lock below \<open>CRYPTO_num_locks\<close>; locking waits until the mutex is free.\<close>

definition lock_callback :: "bool \<Rightarrow> nat \<Rightarrow> crypt_locks \<Rightarrow> crypt_locks option" where
  "lock_callback lock ty s = do {
     a \<leftarrow> lock_array s;
     if ty < length a then Some (s\<lparr>lock_array := Some (a[ty := lock])\<rparr>) else None
   }"

text \<open>As long as the callback is set, the array is there, with all its locks.\<close>

definition locks_ok :: "nat \<Rightarrow> crypt_locks \<Rightarrow> bool" where
  "locks_ok num_locks s \<longleftrightarrow> inited s = locking_callback s \<and> (case lock_array s of None \<Rightarrow> \<not> inited s | Some a \<Rightarrow> inited s \<and> length a = num_locks)"

lemma locks_invariant:
  "locks_ok n crypt_start" "locks_ok n s \<Longrightarrow> locks_ok n (ce_crypt_safe_init n s)" "locks_ok n s \<Longrightarrow> locks_ok n (ce_crypt_safe_uninit s)"
  "locks_ok n s \<Longrightarrow> locking_callback s \<Longrightarrow> ty < n \<Longrightarrow> \<exists>s'. lock_callback lock ty s = Some s' \<and> locks_ok n s'"
proof -
  show "locks_ok n crypt_start" "locks_ok n s \<Longrightarrow> locks_ok n (ce_crypt_safe_init n s)" "locks_ok n s \<Longrightarrow> locks_ok n (ce_crypt_safe_uninit s)"
    by (auto simp: locks_ok_def crypt_start_def ce_crypt_safe_init_def ce_crypt_safe_uninit_def split: option.splits)
  assume "locks_ok n s" "locking_callback s" "ty < n"
  then obtain a where "lock_array s = Some a" "length a = n" "inited s" by (auto simp: locks_ok_def split: option.splits)
  with \<open>ty < n\<close> \<open>locking_callback s\<close> show "\<exists>s'. lock_callback lock ty s = Some s' \<and> locks_ok n s'"
    by (simp add: lock_callback_def locks_ok_def)
qed

section \<open>AES\<close>

definition INT_MAX :: int where
  "INT_MAX = 2 ^ 31 - 1"

definition aes_len :: "int \<Rightarrow> int" where
  "aes_len in_size =
     (if (in_size + 1) smod 16 = 0 then in_size + 1 else ((in_size + 1) sdiv 16 + 1) * 16)"

text \<open>
  \<open>cbc\<close> is \<open>AES_cbc_encrypt\<close> with the key set up for its direction: it gives the output and the next vector. It reads as many bytes as it
  writes. The result is the output, its length and the vector.
\<close>

definition ce_crypt_aes ::
  "(bool \<Rightarrow> u8 list \<Rightarrow> u8 list \<Rightarrow> u8 list \<Rightarrow> u8 list \<times> u8 list) \<Rightarrow> u8 list \<Rightarrow> int \<Rightarrow> u8 list \<Rightarrow> u8 list \<Rightarrow> bool \<Rightarrow>
     (u8 list option \<times> int \<times> u8 list) option" where
  "ce_crypt_aes cbc input in_size key vec enc =
     (if INT_MAX < aes_len in_size then None
      else let len = aes_len in_size
      in if len \<le> 0 then Some (None, 0, vec)
      else if length input < nat len then None
      else (case cbc enc key vec (take (nat len) input) of (out, vec') \<Rightarrow> Some (Some out, len, vec')))"

lemma aes_len_bounds:
  assumes "0 \<le> n"
  shows "n < aes_len n" "aes_len n \<le> n + 16" "16 dvd aes_len n"
proof -
  have s: "(n + 1) smod 16 = (n + 1) mod 16" "(n + 1) sdiv 16 = (n + 1) div 16"
    using assms by (simp_all add: signed_modulo_int_def signed_divide_int_def)
  show "n < aes_len n" "aes_len n \<le> n + 16"
    unfolding aes_len_def s by presburger+
  show "16 dvd aes_len n"
    unfolding aes_len_def s by (auto simp: dvd_eq_mod_eq_0)
qed

lemma aes_len_mult:
  assumes "0 \<le> n" "16 dvd n"
  shows "aes_len n = n + 16"
proof -
  obtain k where "n = 16 * k" using assms(2) by (auto elim: dvdE)
  then have "(n + 1) smod 16 = 1" "(n + 1) sdiv 16 = k"
    using assms(1) by (simp_all add: signed_modulo_int_def signed_divide_int_def)
  with \<open>n = 16 * k\<close> show ?thesis by (simp add: aes_len_def)
qed



section \<open>RSA\<close>

datatype rsa_event = Bio_new | Bio_free | Key_new | Key_free | Out_new | Out_free

record rsa_answers =
  rs_bio :: bool
  rs_key :: bool
  rs_size :: int
  rs_malloc :: bool
  rs_result :: int

text \<open>
  The arguments are whether the pointers are not NULL, and the sizes; the result is the return value, what \<open>*out_size\<close> is set to and the
  objects made and freed.
\<close>

definition ce_crypt_rsa ::
  "rsa_answers \<Rightarrow> bool \<Rightarrow> int \<Rightarrow> bool \<Rightarrow> int \<Rightarrow> bool \<Rightarrow> bool \<Rightarrow> bool \<times> int option \<times> rsa_event list" where
  "ce_crypt_rsa ans key_buffer key_size in_buffer in_size out_buffer out_size =
     (if \<not> key_buffer \<or> key_size \<le> 0 \<or> \<not> in_buffer \<or> in_size \<le> 0 \<or> \<not> out_buffer \<or> \<not> out_size then (False, None, [])
      else if \<not> rs_bio ans then (False, None, [])
      else if \<not> rs_key ans then (False, None, [Bio_new, Bio_free])
      else if rs_size ans \<le> 0 \<or> \<not> rs_malloc ans then (False, Some 0, [Bio_new, Key_new, Bio_free])
      else if rs_result ans = - 1 then (False, Some 0, [Bio_new, Key_new, Bio_free, Out_new, Key_free, Out_free])
      else (True, Some (rs_result ans), [Bio_new, Key_new, Bio_free, Out_new, Key_free]))"

text \<open>Everything is freed but the output that is returned, and the key when there is no memory for the output.\<close>

lemma crypt_rsa_resources:
  assumes "ce_crypt_rsa ans kb ks ib sz ob os = (r, out_size, evs)"
  shows "count_list evs Bio_new = count_list evs Bio_free"
    "count_list evs Out_new = count_list evs Out_free + (if r then 1 else 0)"
    "count_list evs Key_new \<noteq> count_list evs Key_free \<longleftrightarrow>
       kb \<and> 0 < ks \<and> ib \<and> 0 < sz \<and> ob \<and> os \<and> rs_bio ans \<and> rs_key ans \<and> (rs_size ans \<le> 0 \<or> \<not> rs_malloc ans)"
  using assms by (auto simp: ce_crypt_rsa_def split: if_splits)

section \<open>Compression\<close>

definition BZ_OK :: int where
  "BZ_OK = 0"

text \<open>
  \<open>scale\<close> stands for the conversion of \<open>src_len * 1.01\<close>, computed in floating point, to 32 bits. The libraries' functions get the
  source and the size of the destination and give a return code and what they write. \<open>memory\<close> says that the allocator has memory.
\<close>

definition bzip2_alloced :: "(u32 \<Rightarrow> u32) \<Rightarrow> u32 \<Rightarrow> u32" where
  "bzip2_alloced scale src_len = ce_align_size (scale src_len + 600) 16"

definition ce_bzip2_compress ::
  "(u32 \<Rightarrow> u32) \<Rightarrow> (u8 list \<Rightarrow> u32 \<Rightarrow> int \<Rightarrow> int \<times> u8 list) \<Rightarrow> bool \<Rightarrow> u8 list option \<Rightarrow> u32 \<Rightarrow> bool \<Rightarrow> int \<Rightarrow> u8 list option option" where
  "ce_bzip2_compress scale bz memory src src_len dest_len level =
     (case src of
        None \<Rightarrow> Some None
      | Some bytes \<Rightarrow>
          if src_len \<le> 0 \<or> \<not> dest_len then Some None
          else if ce_malloc s_alloctor_start (sint (ucast (bzip2_alloced scale src_len) :: 32 word)) = None \<or> \<not> memory then Some None
          else if length bytes < unat src_len then None
          else (case bz (take (unat src_len) bytes) (bzip2_alloced scale src_len) level of
                  (ret, out) \<Rightarrow> if ret \<noteq> BZ_OK then Some None else Some (Some out)))"

definition ce_bzip2_decompress ::
  "(u8 list \<Rightarrow> u32 \<Rightarrow> int \<times> u8 list) \<Rightarrow> bool \<Rightarrow> u8 list \<Rightarrow> u32 \<Rightarrow> u32 \<Rightarrow> u8 list option option" where
  "ce_bzip2_decompress bz memory src src_len dest_len =
     (if ce_malloc s_alloctor_start (sint (ucast (ce_align_size dest_len 16) :: 32 word)) = None \<or> \<not> memory then Some None
      else if length src < unat src_len then None
      else (case bz (take (unat src_len) src) dest_len of
              (ret, out) \<Rightarrow> if ret \<noteq> BZ_OK \<or> unat dest_len \<noteq> length out then Some None else Some (Some out)))"

text \<open>When the memory for a size rounded up to 16 is asked for at all, it is at least that size.\<close>

lemma aligned_enough:
  assumes "ce_malloc s (sint (ce_align_size x 16)) \<noteq> None"
  shows "unat x \<le> unat (ce_align_size x 16)"
proof -
  have pos: "0 < unat (ce_align_size x 16)"
    using assms by (cases "ce_align_size x 16 = 0") (auto simp: ce_malloc_def unat_gt_0)
  have "unat x < 2 ^ 32" by (rule order.strict_trans2 [OF unsigned_less]) simp
  show ?thesis
  proof (cases "unat x + 15 < 2 ^ 32")
    case True
    then show ?thesis unfolding align_16 by simp
  next
    case False
    then have "(unat x + 15) mod 2 ^ 32 < 16" using \<open>unat x < 2 ^ 32\<close> by (simp add: le_mod_geq)
    then have "unat (ce_align_size x 16) = 0" unfolding align_16 by simp
    with pos show ?thesis by simp
  qed
qed

end
