(* ===== verification/Win_Time.thy ===== *)
theory Win_Time
  imports Dict_Extra "HOL-Library.Signed_Division"
begin

text \<open>
  The substitutes for the POSIX time functions in a build for Windows, the macros of \<^verbatim>\<open>util/msvc/sys/time.h\<close>. The fields of
  \<open>struct timeval\<close> are of type \<open>long\<close>, which has 32 bits there: \<open>None\<close> is an overflow. A macro's result is the value
  of the variable it sets; since each field of the result is set from the same fields of the arguments, the result may be
  one of them.
\<close>

section \<open>The macros\<close>

record timeval =
  tv_sec :: int
  tv_usec :: int

definition as_long :: "int \<Rightarrow> int option" where
  "as_long x = (if - (2 ^ 31) \<le> x \<and> x < 2 ^ 31 then Some x else None)"

text \<open>\<open>t\<close> is what \<open>timeGetTime\<close> gives, the milliseconds since the system was started.\<close>

definition win_gettimeofday :: "u32 \<Rightarrow> timeval" where
  "win_gettimeofday t = \<lparr>tv_sec = uint (t div 1000), tv_usec = uint (t mod 1000)\<rparr>"

text \<open>What \<open>Sleep\<close> is called with.\<close>

definition win_usleep :: "int \<Rightarrow> int" where
  "win_usleep micro_seconds = (micro_seconds + 999) sdiv 1000"

definition timerclear :: "timeval \<Rightarrow> timeval" where
  "timerclear tvp = tvp\<lparr>tv_usec := 0, tv_sec := 0\<rparr>"

definition timerisset :: "timeval \<Rightarrow> bool" where
  "timerisset tvp \<longleftrightarrow> tv_sec tvp \<noteq> 0 \<or> tv_usec tvp \<noteq> 0"

definition timeradd :: "timeval \<Rightarrow> timeval \<Rightarrow> timeval option" where
  "timeradd tvp uvp = do {
     sec \<leftarrow> as_long (tv_sec tvp + tv_sec uvp);
     usec \<leftarrow> as_long (tv_usec tvp + tv_usec uvp);
     if 1000000 \<le> usec then do { sec' \<leftarrow> as_long (sec + 1); Some \<lparr>tv_sec = sec', tv_usec = usec - 1000000\<rparr> }
     else Some \<lparr>tv_sec = sec, tv_usec = usec\<rparr>
   }"

definition timersub :: "timeval \<Rightarrow> timeval \<Rightarrow> timeval option" where
  "timersub tvp uvp = do {
     sec \<leftarrow> as_long (tv_sec tvp - tv_sec uvp);
     usec \<leftarrow> as_long (tv_usec tvp - tv_usec uvp);
     if usec < 0 then do { sec' \<leftarrow> as_long (sec - 1); Some \<lparr>tv_sec = sec', tv_usec = usec + 1000000\<rparr> }
     else Some \<lparr>tv_sec = sec, tv_usec = usec\<rparr>
   }"

section \<open>What they compute\<close>

definition tv_normal :: "timeval \<Rightarrow> bool" where
  "tv_normal tv \<longleftrightarrow> 0 \<le> tv_usec tv \<and> tv_usec tv < 1000000"

definition tv_micros :: "timeval \<Rightarrow> int" where
  "tv_micros tv = 1000000 * tv_sec tv + tv_usec tv"

lemma tv_micros_inject:
  assumes "tv_normal a" "tv_normal b" "tv_micros a = tv_micros b"
  shows "a = b"
proof -
  have u: "0 \<le> tv_usec a" "tv_usec a < 1000000" "0 \<le> tv_usec b" "tv_usec b < 1000000"
    using assms(1,2) by (simp_all add: tv_normal_def)
  have eq: "1000000 * tv_sec a + tv_usec a = 1000000 * tv_sec b + tv_usec b" using assms(3) by (simp add: tv_micros_def)
  have "\<not> tv_sec a < tv_sec b" "\<not> tv_sec b < tv_sec a" using u eq by linarith+
  then have "tv_sec a = tv_sec b" by simp
  with eq show ?thesis by simp
qed

lemma timeradd_ok:
  assumes "tv_normal a" "tv_normal b" "- (2 ^ 31) \<le> tv_sec a + tv_sec b" "tv_sec a + tv_sec b + 1 < 2 ^ 31"
  shows "\<exists>c. timeradd a b = Some c \<and> tv_normal c \<and> tv_micros c = tv_micros a + tv_micros b"
  using assms by (auto simp: timeradd_def as_long_def tv_normal_def tv_micros_def)

lemma timersub_ok:
  assumes "tv_normal a" "tv_normal b" "- (2 ^ 31) \<le> tv_sec a - tv_sec b - 1" "tv_sec a - tv_sec b < 2 ^ 31"
  shows "\<exists>c. timersub a b = Some c \<and> tv_normal c \<and> tv_micros c = tv_micros a - tv_micros b"
  using assms by (auto simp: timersub_def as_long_def tv_normal_def tv_micros_def)

text \<open>A time added is taken off again.\<close>

lemma timersub_timeradd:
  assumes "tv_normal a" "tv_normal b" "timeradd a b = Some c" "- (2 ^ 31) < tv_sec a" "tv_sec a + 1 < 2 ^ 31"
    and "- (2 ^ 31) \<le> tv_sec a + tv_sec b" "tv_sec a + tv_sec b + 1 < 2 ^ 31"
  shows "timersub c b = Some a"
proof -
  have c: "tv_normal c" "tv_micros c = tv_micros a + tv_micros b"
    using timeradd_ok [OF assms(1,2,6,7)] assms(3) by auto
  have "tv_sec c - tv_sec b \<in> {tv_sec a, tv_sec a + 1}"
    using c assms(1,2) by (auto simp: tv_normal_def tv_micros_def)
  then have "- (2 ^ 31) \<le> tv_sec c - tv_sec b - 1" "tv_sec c - tv_sec b < 2 ^ 31" using assms(4,5) by auto
  from timersub_ok [OF c(1) assms(2) this] obtain d where d: "timersub c b = Some d" "tv_normal d" "tv_micros d = tv_micros a"
    using c(2) by auto
  with tv_micros_inject [OF d(2) assms(1)] show ?thesis by simp
qed

lemma timerclear_not_set: "\<not> timerisset (timerclear tv)"
  by (simp add: timerisset_def timerclear_def)

text \<open>The pause is no shorter than asked for, and less than a millisecond longer.\<close>

lemma win_usleep_bounds: "0 \<le> us \<Longrightarrow> us \<le> 1000 * win_usleep us \<and> 1000 * win_usleep us < us + 1000"
  by (simp add: win_usleep_def signed_divide_int_def) presburger

text \<open>
  The milliseconds are put where microseconds belong. \<open>timeInMilliseconds\<close> of the dictionary divides them by 1000: on
  Windows it counts in steps of a whole second, and \<open>dictRehashMilliseconds\<close> cannot stop any earlier.
\<close>

lemma windows_clock_is_coarse:
  "timeInMilliseconds (tv_sec (win_gettimeofday t), tv_usec (win_gettimeofday t)) = 1000 * (uint t div 1000)"
proof -
  have "uint (t div 1000) = uint t div 1000" "uint (t mod 1000) = uint t mod 1000"
    by (simp_all add: uint_div uint_mod)
  then show ?thesis by (simp add: timeInMilliseconds_def win_gettimeofday_def)
qed

end
